(* ===== verification/Prelude.thy ===== *)
theory Prelude
  imports Main "HOL-Library.Word" "HOL-Library.Sublist"
begin

text \<open>
  Shared vocabulary of the development: the collections of simplification rules, the result
  type that carries C++ faults, the model of the parts of \<open>std::string\<close> and
  \<open>std::vector\<close> the sources use, and the generic list lemmas of the component proofs.

  A byte is a \<^typ>\<open>char\<close> (the sources keep every byte sequence in \<open>char\<close> arrays), read as
  an unsigned octet by \<open>byte_of\<close> and as the signed \<open>char\<close> of the x86-64 ABI by
  \<open>schar_of\<close>. A size or an index is a \<^typ>\<open>nat\<close> and an unsuccessful search
  (\<open>std::string::npos\<close>) is \<^term>\<open>None\<close>.
\<close>

named_theorems res_simps \<open>rules of the result type\<close>
named_theorems buf_simps \<open>the effect of buffer operations on the readable bytes\<close>
named_theorems codec_simps \<open>the effect of codec steps on the codec state\<close>
named_theorems link_simps \<open>the effect of intrusive-list operations on the heap\<close>

unbundle bit_operations_syntax

type_synonym bytes = string
type_synonym param_map = "string \<rightharpoonup> string"

section \<open>Faults\<close>

text \<open>
  What ends a C++ computation other than a return: a failed \<open>assert\<close>, an exception of the
  standard library or of the program, an access outside an array or to freed
  memory, a dereference of a null pointer, a call of \<open>abort\<close> (as a fatal log message makes),
  or not ending at all.
\<close>

datatype cxx_fault =
    Assert_fail
  | Out_of_range
  | Length_error
  | Runtime_error string
  | Null_deref
  | Out_of_bounds
  | Use_after_free
  | No_return
  | Abort

type_synonym 'a res = "cxx_fault + 'a"

definition bind_res :: "'e + 'a \<Rightarrow> ('a \<Rightarrow> 'e + 'b) \<Rightarrow> 'e + 'b" where
  "bind_res m f = (case m of Inl e \<Rightarrow> Inl e | Inr x \<Rightarrow> f x)"

definition assert_res :: "bool \<Rightarrow> 'a res \<Rightarrow> 'a res" where
  "assert_res p m = (if p then m else Inl Assert_fail)"

lemma bind_res_simps [simp, res_simps]:
  "bind_res (Inl e) f = Inl e"
  "bind_res (Inr x) f = f x"
  by (simp_all add: bind_res_def)

lemma assert_res_True [simp, res_simps]: "p \<Longrightarrow> assert_res p m = m"
  by (simp add: assert_res_def)

lemma assert_res_False [simp]: "\<not> p \<Longrightarrow> assert_res p m = Inl Assert_fail"
  by (simp add: assert_res_def)

lemma bind_res_cong [fundef_cong]:
  assumes "m = m'" and "\<And>x. m' = Inr x \<Longrightarrow> f x = f' x"
  shows "bind_res m f = bind_res m' f'"
  using assms by (cases m') auto

lemma bind_res_eq_Inr [res_simps]:
  "bind_res m f = Inr y \<longleftrightarrow> (\<exists>x. m = Inr x \<and> f x = Inr y)"
  by (cases m) auto

lemma bind_res_eq_Inl:
  "bind_res m f = Inl e \<longleftrightarrow> m = Inl e \<or> (\<exists>x. m = Inr x \<and> f x = Inl e)"
  by (cases m) auto

lemma assert_res_eq_Inr [res_simps]: "assert_res p m = Inr y \<longleftrightarrow> p \<and> m = Inr y"
  by (simp add: assert_res_def)

lemma bind_res_assoc: "bind_res (bind_res m f) g = bind_res m (\<lambda>x. bind_res (f x) g)"
  by (cases m) auto

text \<open>
  \<open>res_ok m Q\<close>: the computation returns, and its result satisfies \<open>Q\<close>. The rules
  below are the weakest-precondition calculus the component proofs run on.
\<close>

definition res_ok :: "'e + 'a \<Rightarrow> ('a \<Rightarrow> bool) \<Rightarrow> bool" where
  "res_ok m Q \<longleftrightarrow> (\<exists>x. m = Inr x \<and> Q x)"

lemma res_okI [intro]: "m = Inr x \<Longrightarrow> Q x \<Longrightarrow> res_ok m Q"
  by (auto simp: res_ok_def)

lemma res_okE [elim]: "res_ok m Q \<Longrightarrow> (\<And>x. m = Inr x \<Longrightarrow> Q x \<Longrightarrow> thesis) \<Longrightarrow> thesis"
  by (auto simp: res_ok_def)

lemma res_ok_Inr [simp, res_simps]: "res_ok (Inr x) Q \<longleftrightarrow> Q x"
  by (simp add: res_ok_def)

lemma res_ok_Inl [simp, res_simps]: "\<not> res_ok (Inl e) Q"
  by (simp add: res_ok_def)

lemma res_ok_bind: "res_ok m P \<Longrightarrow> (\<And>x. P x \<Longrightarrow> res_ok (f x) Q) \<Longrightarrow> res_ok (bind_res m f) Q"
  by (auto simp: res_ok_def)

lemma res_ok_mono: "res_ok m P \<Longrightarrow> (\<And>x. P x \<Longrightarrow> Q x) \<Longrightarrow> res_ok m Q"
  by (auto simp: res_ok_def)

text \<open>A sequence of calls on one state; the first fault ends it.\<close>

fun run_all :: "('s \<Rightarrow> 'd \<Rightarrow> 'e + 's) \<Rightarrow> 's \<Rightarrow> 'd list \<Rightarrow> 'e + 's" where
  "run_all f st [] = Inr st"
| "run_all f st (d # ds) = bind_res (f st d) (\<lambda>st'. run_all f st' ds)"

text \<open>
  \<open>simulates R a c\<close>: the concrete computation \<open>c\<close> fails with the fault of the abstract one,
  or both return and their results are related.
\<close>

definition simulates :: "('a \<Rightarrow> 'c \<Rightarrow> bool) \<Rightarrow> 'a res \<Rightarrow> 'c res \<Rightarrow> bool" where
  "simulates R a c = (case a of Inl e \<Rightarrow> c = Inl e | Inr x \<Rightarrow> res_ok c (R x))"

lemma simulates_bind:
  assumes "simulates R a c" and "\<And>x y. R x y \<Longrightarrow> simulates S (f x) (g y)"
  shows "simulates S (bind_res a f) (bind_res c g)"
proof (cases a)
  case (Inl e)
  with assms(1) show ?thesis by (simp add: simulates_def)
next
  case (Inr x)
  with assms(1) obtain y where "c = Inr y" "R x y" by (auto simp: simulates_def)
  with Inr assms(2) show ?thesis by simp
qed

section \<open>Bytes\<close>

definition byte_of :: "char \<Rightarrow> 8 word" where
  "byte_of c = of_nat (of_char c)"

definition chr_of :: "8 word \<Rightarrow> char" where
  "chr_of w = char_of (unat w)"

definition schar_of :: "char \<Rightarrow> int" where
  "schar_of c = sint (byte_of c)"

lemma chr_of_byte_of [simp]: "chr_of (byte_of c) = c"
  using nat_of_char_less_256 [of c] by (simp add: byte_of_def chr_of_def unat_of_nat)

lemma byte_of_chr_of [simp]: "byte_of (chr_of w) = w"
proof -
  have "unat w < 256" using unsigned_less [of w] by simp
  then have "(of_char (char_of (unat w)) :: nat) = unat w" by simp
  then show ?thesis by (simp add: byte_of_def chr_of_def)
qed

lemma chr_of_inject [simp]: "chr_of v = chr_of w \<longleftrightarrow> v = w"
  by (metis byte_of_chr_of)

lemma unat_byte_of [simp]: "unat (byte_of c) = of_char c"
  using nat_of_char_less_256 [of c] by (simp add: byte_of_def unat_of_nat)

lemma of_char_chr_of [simp]: "(of_char (chr_of w) :: nat) = unat w"
  by (metis byte_of_chr_of unat_byte_of)

section \<open>Arrays\<close>

text \<open>
  \<open>blit xs i ys\<close> is \<open>std::copy\<close> of \<open>ys\<close> to position \<open>i\<close> of an array;
  \<open>vec_resize\<close> is \<open>std::vector::resize\<close>, which fills with zero bytes.
\<close>

definition blit :: "'a list \<Rightarrow> nat \<Rightarrow> 'a list \<Rightarrow> 'a list" where
  "blit xs i ys = take i xs @ ys @ drop (i + length ys) xs"

definition vec_resize :: "nat \<Rightarrow> bytes \<Rightarrow> bytes" where
  "vec_resize n xs = take n xs @ replicate (n - length xs) (CHR 0x00)"

lemma length_blit [simp]: "i + length ys \<le> length xs \<Longrightarrow> length (blit xs i ys) = length xs"
  by (simp add: blit_def)

lemma blit_Nil [simp]: "blit xs i [] = xs"
  by (simp add: blit_def)

lemma take_blit_before [simp]: "j \<le> i \<Longrightarrow> i \<le> length xs \<Longrightarrow> take j (blit xs i ys) = take j xs"
  by (simp add: blit_def min_def)

lemma take_blit_over: "i \<le> length xs \<Longrightarrow> take (i + length ys) (blit xs i ys) = take i xs @ ys"
  by (simp add: blit_def)

lemma length_vec_resize [simp]: "length (vec_resize n xs) = n"
  by (simp add: vec_resize_def)

lemma take_vec_resize [simp]: "j \<le> n \<Longrightarrow> j \<le> length xs \<Longrightarrow> take j (vec_resize n xs) = take j xs"
  by (simp add: vec_resize_def min_def)

text \<open>The slice \<open>[i, j)\<close> of an array.\<close>

definition slice :: "nat \<Rightarrow> nat \<Rightarrow> 'a list \<Rightarrow> 'a list" where
  "slice i j xs = drop i (take j xs)"

lemma length_slice [simp]: "length (slice i j xs) = min j (length xs) - i"
  by (simp add: slice_def)

lemma slice_extend:
  assumes "i \<le> j" "j \<le> length xs"
  shows "slice i (j + length ys) (blit xs j ys) = slice i j xs @ ys"
  using assms by (simp add: slice_def take_blit_over)

lemma slice_empty [simp]: "slice i i xs = []"
  by (simp add: slice_def)

section \<open>Strings\<close>

text \<open>
  \<open>search pat xs\<close> is the position of the first occurrence of \<open>pat\<close>;
  \<open>str_find s pat pos\<close> is \<open>s.find(pat, pos)\<close> and \<open>str_substr s pos n\<close> is
  \<open>s.substr(pos, n)\<close>, which throws when \<open>pos\<close> is past the end. A count of
  \<open>npos\<close> is \<^term>\<open>None\<close>.
\<close>

fun search :: "'a list \<Rightarrow> 'a list \<Rightarrow> nat option" where
  "search pat [] = (if pat = [] then Some 0 else None)"
| "search pat (x # xs) =
     (if prefix pat (x # xs) then Some 0 else map_option Suc (search pat xs))"

definition str_find :: "string \<Rightarrow> string \<Rightarrow> nat \<Rightarrow> nat option" where
  "str_find s pat pos =
     (if pos \<le> length s then map_option ((+) pos) (search pat (drop pos s)) else None)"

definition str_substr :: "string \<Rightarrow> nat \<Rightarrow> nat option \<Rightarrow> string res" where
  "str_substr s pos n =
     (if pos > length s then Inl Out_of_range
      else Inr (case n of None \<Rightarrow> drop pos s | Some k \<Rightarrow> take k (drop pos s)))"

text \<open>
  Adding \<open>k > 0\<close> to a search result at the width of \<open>size_t\<close>: \<open>npos\<close> is the
  largest value of the type, so the sum wraps to \<open>k - 1\<close>; a position is far from the bound.
\<close>

definition pos_add :: "nat option \<Rightarrow> nat \<Rightarrow> nat" where
  "pos_add p k = (case p of None \<Rightarrow> k - 1 | Some i \<Rightarrow> i + k)"

lemma search_prefix [simp]: "search pat (pat @ vs) = Some 0"
  by (cases "pat @ vs") (auto simp: prefix_def eq_commute [of "_ # _" "_ @ _"])

lemma search_Some_split:
  "search pat xs = Some i \<Longrightarrow> \<exists>us vs. xs = us @ pat @ vs \<and> length us = i"
proof (induction xs arbitrary: i)
  case Nil
  then show ?case by (auto split: if_splits)
next
  case (Cons x xs)
  show ?case
  proof (cases "prefix pat (x # xs)")
    case True
    with Cons.prems show ?thesis by (auto simp: prefix_def)
  next
    case False
    with Cons.prems obtain j where "search pat xs = Some j" "i = Suc j" by auto
    with Cons.IH obtain us vs where "xs = us @ pat @ vs" "length us = j" by blast
    with \<open>i = Suc j\<close> have "x # xs = (x # us) @ pat @ vs \<and> length (x # us) = i" by simp
    then show ?thesis by blast
  qed
qed

lemma search_append_pat: "\<exists>i. search pat (us @ pat @ vs) = Some i \<and> i \<le> length us"
proof (induction us)
  case Nil
  then show ?case by simp
next
  case (Cons u us)
  then show ?case by auto
qed

lemma search_None_iff: "search pat xs = None \<longleftrightarrow> (\<nexists>us vs. xs = us @ pat @ vs)"
  by (metis search_Some_split search_append_pat not_None_eq)

lemma search_first:
  assumes "\<And>j. j < length us \<Longrightarrow> \<not> prefix pat (drop j us @ pat @ vs)"
  shows "search pat (us @ pat @ vs) = Some (length us)"
  using assms
proof (induction us)
  case Nil
  then show ?case by simp
next
  case (Cons u us)
  from Cons.prems [of 0] have "\<not> prefix pat (u # us @ pat @ vs)" by simp
  moreover have "search pat (us @ pat @ vs) = Some (length us)"
    using Cons.prems [of "Suc j" for j] by (intro Cons.IH) auto
  ultimately show ?case by simp
qed

lemma search_char: "c \<notin> set us \<Longrightarrow> search [c] (us @ c # vs) = Some (length us)"
  by (induction us) auto

lemma search_char_None: "search [c] xs = None \<longleftrightarrow> c \<notin> set xs"
  by (auto simp: search_None_iff in_set_conv_decomp)

lemma search_bound: "search pat xs = Some i \<Longrightarrow> i + length pat \<le> length xs"
  using search_Some_split by fastforce

lemma str_find_bound: "str_find s pat pos = Some i \<Longrightarrow> pos \<le> i \<and> i + length pat \<le> length s"
  by (auto simp: str_find_def split: if_splits dest!: search_bound)

text \<open>Decimal output of an unsigned integer (\<open>operator<<\<close> of an \<open>ostream\<close>).\<close>

fun dec_string :: "nat \<Rightarrow> string" where
  "dec_string n =
     (if n < 10 then [char_of (48 + n)]
      else dec_string (n div 10) @ [char_of (48 + n mod 10)])"

declare dec_string.simps [simp del]

section \<open>Associative containers\<close>

text \<open>
  \<open>map_index m k\<close> is \<open>m[k]\<close> on a \<open>std::map\<close>: it inserts the empty string when the
  key is absent and returns the value with the new map. \<open>map_insert\<close> is
  \<open>m.insert(value_type(k, v))\<close>, which keeps an existing entry.
\<close>

definition map_index :: "param_map \<Rightarrow> string \<Rightarrow> string \<times> param_map" where
  "map_index m k = (case m k of Some v \<Rightarrow> (v, m) | None \<Rightarrow> ([], m(k \<mapsto> [])))"

definition map_insert :: "param_map \<Rightarrow> string \<Rightarrow> string \<Rightarrow> param_map" where
  "map_insert m k v = (case m k of Some _ \<Rightarrow> m | None \<Rightarrow> m(k \<mapsto> v))"

definition map_assign :: "param_map \<Rightarrow> (string \<times> string) list \<Rightarrow> param_map" where
  "map_assign m kvs = foldl (\<lambda>m (k, v). m(k \<mapsto> v)) m kvs"

lemma map_assign_simps [simp]:
  "map_assign m [] = m"
  "map_assign m ((k, v) # kvs) = map_assign (m(k \<mapsto> v)) kvs"
  by (simp_all add: map_assign_def)

lemma map_assign_append: "map_assign m (xs @ ys) = map_assign (map_assign m xs) ys"
  by (simp add: map_assign_def)

lemma map_assign_eq: "map_assign m kvs = m ++ map_of (rev kvs)"
  by (induction kvs arbitrary: m) (auto simp: map_add_assoc [symmetric] map_add_def fun_eq_iff split: option.splits)

end
