(* ===== verification/Endian.thy ===== *)
theory Endian
  imports Prelude
begin

text \<open>
  Byte order. \<open>le_bytes\<close> and \<open>le_load\<close> are the memory representation of an unsigned
  integer on the little-endian hosts the program supports (libco has an x86 context switch
  only): what \<open>memcpy\<close> from and to an integer object moves. The conversion macros of
  \<^verbatim>\<open>cocgi/type.h\<close> and the functions of \<^verbatim>\<open>mucgi/muduo_net/Endian.h\<close> are modelled at their
  width; the locale \<open>net_order\<close> is what the two programs rely on, and every conversion is
  an instance of it.
\<close>

section \<open>Integers in memory\<close>

definition le_bytes :: "nat \<Rightarrow> 'a::len word \<Rightarrow> bytes" where
  "le_bytes n w = map (\<lambda>i. chr_of (ucast (drop_bit (8 * i) w))) [0..<n]"

fun le_load :: "bytes \<Rightarrow> 'a::len word" where
  "le_load [] = 0"
| "le_load (c # cs) = ucast (byte_of c) OR push_bit 8 (le_load cs)"

definition be_bytes :: "nat \<Rightarrow> 'a::len word \<Rightarrow> bytes" where
  "be_bytes n w = rev (le_bytes n w)"

lemma length_le_bytes [simp]: "length (le_bytes n w) = n"
  by (simp add: le_bytes_def)

lemma length_be_bytes [simp]: "length (be_bytes n w) = n"
  by (simp add: be_bytes_def)

lemma bit_le_load:
  "bit (le_load cs :: 'a::len word) n \<longleftrightarrow>
     n < LENGTH('a) \<and> n div 8 < length cs \<and> bit (byte_of (cs ! (n div 8))) (n mod 8)"
proof (induction cs arbitrary: n)
  case Nil
  show ?case by simp
next
  case (Cons c cs)
  show ?case
  proof (cases "n < 8")
    case True
    then show ?thesis by (simp add: bit_simps)
  next
    case False
    then have n: "n div 8 = Suc ((n - 8) div 8)" "n mod 8 = (n - 8) mod 8"
      by (simp_all add: le_div_geq le_mod_geq)
    have "\<not> bit (byte_of c) n"
      using False bit_imp_le_length [of "byte_of c" n] by auto
    with False show ?thesis by (auto simp: bit_simps Cons.IH n)
  qed
qed

lemma le_load_le_bytes:
  fixes w :: "'a::len word"
  assumes "8 * n = LENGTH('a)"
  shows "le_load (le_bytes n w) = w"
proof (rule bit_word_eqI)
  fix k
  assume "k < LENGTH('a)"
  then have "k div 8 < n" using assms by auto
  then show "bit (le_load (le_bytes n w) :: 'a word) k = bit w k"
    using \<open>k < LENGTH('a)\<close> by (simp add: bit_le_load le_bytes_def bit_simps)
qed

lemma le_bytes_le_load:
  assumes "8 * length cs = LENGTH('a::len)"
  shows "le_bytes (length cs) (le_load cs :: 'a word) = cs"
proof (rule nth_equalityI)
  fix i
  assume "i < length (le_bytes (length cs) (le_load cs :: 'a word))"
  then have i: "i < length cs" by simp
  have "ucast (drop_bit (8 * i) (le_load cs :: 'a word)) = byte_of (cs ! i)"
  proof (rule bit_word_eqI)
    fix k
    assume "k < LENGTH(8)"
    then have "(8 * i + k) div 8 = i" "(8 * i + k) mod 8 = k" "8 * i + k < LENGTH('a)"
      using assms i by auto
    then show "bit (ucast (drop_bit (8 * i) (le_load cs :: 'a word)) :: 8 word) k = bit (byte_of (cs ! i)) k"
      using \<open>k < LENGTH(8)\<close> i by (simp add: bit_simps bit_le_load add.commute)
  qed
  then show "le_bytes (length cs) (le_load cs :: 'a word) ! i = cs ! i"
    using i by (simp add: le_bytes_def)
qed simp

section \<open>Conversion macros of cocgi (type.h)\<close>

definition hton16 :: "16 word \<Rightarrow> 16 word" where
  "hton16 a = drop_bit 8 (a AND 0xff00) OR push_bit 8 (a AND 0x00ff)"

definition hton32 :: "32 word \<Rightarrow> 32 word" where
  "hton32 a = drop_bit 24 (a AND 0xff000000) OR drop_bit 8 (a AND 0x00ff0000)
     OR push_bit 8 (a AND 0x0000ff00) OR push_bit 24 (a AND 0x000000ff)"

definition hton64 :: "64 word \<Rightarrow> 64 word" where
  "hton64 a = (push_bit 56 a AND 0xFF00000000000000)
     OR (push_bit 40 a AND 0x00FF000000000000)
     OR (push_bit 24 a AND 0x0000FF0000000000)
     OR (push_bit 8 a AND 0x000000FF00000000)
     OR (drop_bit 8 a AND 0x00000000FF000000)
     OR (drop_bit 24 a AND 0x0000000000FF0000)
     OR (drop_bit 40 a AND 0x000000000000FF00)
     OR (drop_bit 56 a AND 0x00000000000000FF)"

abbreviation ntoh16 :: "16 word \<Rightarrow> 16 word" where "ntoh16 \<equiv> hton16"
abbreviation ntoh32 :: "32 word \<Rightarrow> 32 word" where "ntoh32 \<equiv> hton32"
abbreviation ntoh64 :: "64 word \<Rightarrow> 64 word" where "ntoh64 \<equiv> hton64"

section \<open>Conversion functions of mucgi (Endian.h)\<close>

text \<open>
  \<open>htobe16\<close>, \<open>be16toh\<close> and their kin of \<^verbatim>\<open>endian.h\<close>: on a little-endian host, the
  integer with its bytes reversed.
\<close>

definition bswap :: "nat \<Rightarrow> 'a::len word \<Rightarrow> 'a word" where
  "bswap n w = le_load (rev (le_bytes n w))"

definition hostToNetwork64 :: "64 word \<Rightarrow> 64 word" where
  "hostToNetwork64 host64 = bswap 8 host64"

definition hostToNetwork32 :: "32 word \<Rightarrow> 32 word" where
  "hostToNetwork32 host32 = bswap 4 host32"

definition hostToNetwork16 :: "16 word \<Rightarrow> 16 word" where
  "hostToNetwork16 host16 = bswap 2 host16"

definition networkToHost64 :: "64 word \<Rightarrow> 64 word" where
  "networkToHost64 net64 = bswap 8 net64"

definition networkToHost32 :: "32 word \<Rightarrow> 32 word" where
  "networkToHost32 net32 = bswap 4 net32"

definition networkToHost16 :: "16 word \<Rightarrow> 16 word" where
  "networkToHost16 net16 = bswap 2 net16"

section \<open>The contract of a conversion\<close>

locale net_order =
  fixes conv :: "'a::len word \<Rightarrow> 'a word" and width :: nat
  assumes width: "8 * width = LENGTH('a)"
    and conv_bytes: "le_bytes width (conv w) = rev (le_bytes width w)"
begin

lemma conv_eq_load: "conv w = le_load (rev (le_bytes width w))"
  by (metis conv_bytes le_load_le_bytes width)

lemma conv_conv: "conv (conv w) = w"
  by (metis conv_bytes conv_eq_load le_load_le_bytes rev_rev_ident width)

lemma store_conv: "le_bytes width (conv w) = be_bytes width w"
  by (simp add: be_bytes_def conv_bytes)

lemma conv_load: "conv (le_load (be_bytes width w)) = w"
  by (metis conv_conv le_load_le_bytes store_conv width)

lemma be_bytes_conv_load:
  "length cs = width \<Longrightarrow> be_bytes width (conv (le_load cs)) = cs"
  by (metis be_bytes_def conv_bytes le_bytes_le_load rev_rev_ident width)

end

lemma upt_expand:
  "[0..<2] = [0, 1 :: nat]" "[0..<4] = [0, 1, 2, 3 :: nat]"
  "[0..<8] = [0, 1, 2, 3, 4, 5, 6, 7 :: nat]"
  by (simp_all add: upt_rec)

lemma masks16: "(0xff :: 16 word) = mask 8" "(0xff00 :: 16 word) = push_bit 8 (mask 8)"
  by (simp_all add: mask_eq_exp_minus_1 push_bit_eq_mult)

lemma masks32:
  "(0xff :: 32 word) = mask 8" "(0xff00 :: 32 word) = push_bit 8 (mask 8)"
  "(0xff0000 :: 32 word) = push_bit 16 (mask 8)" "(0xff000000 :: 32 word) = push_bit 24 (mask 8)"
  by (simp_all add: mask_eq_exp_minus_1 push_bit_eq_mult)

lemma masks64:
  "(0xff :: 64 word) = mask 8" "(0xff00 :: 64 word) = push_bit 8 (mask 8)"
  "(0xff0000 :: 64 word) = push_bit 16 (mask 8)" "(0xff000000 :: 64 word) = push_bit 24 (mask 8)"
  "(0xff00000000 :: 64 word) = push_bit 32 (mask 8)" "(0xff0000000000 :: 64 word) = push_bit 40 (mask 8)"
  "(0xff000000000000 :: 64 word) = push_bit 48 (mask 8)"
  "(0xff00000000000000 :: 64 word) = push_bit 56 (mask 8)"
  by (simp_all add: mask_eq_exp_minus_1 push_bit_eq_mult)

interpretation co16: net_order hton16 2
  by unfold_locales
    (simp, unfold hton16_def masks16 le_bytes_def upt_expand, simp,
      intro conjI bit_word_eqI, auto simp: bit_simps)

interpretation co32: net_order hton32 4
  by unfold_locales
    (simp, unfold hton32_def masks32 le_bytes_def upt_expand, simp,
      intro conjI bit_word_eqI, auto simp: bit_simps)

interpretation co64: net_order hton64 8
  by unfold_locales
    (simp, unfold hton64_def masks64 le_bytes_def upt_expand, simp,
      intro conjI bit_word_eqI, auto simp: bit_simps)

lemma le_bytes_bswap:
  fixes w :: "'a::len word"
  assumes "8 * n = LENGTH('a)"
  shows "le_bytes n (bswap n w) = rev (le_bytes n w)"
  using assms le_bytes_le_load [of "rev (le_bytes n w)", where 'a = 'a] by (simp add: bswap_def)

interpretation mu16: net_order hostToNetwork16 2
  by unfold_locales (simp_all add: hostToNetwork16_def le_bytes_bswap)

interpretation mu32: net_order hostToNetwork32 4
  by unfold_locales (simp_all add: hostToNetwork32_def le_bytes_bswap)

interpretation mu64: net_order hostToNetwork64 8
  by unfold_locales (simp_all add: hostToNetwork64_def le_bytes_bswap)

interpretation mun16: net_order networkToHost16 2
  by unfold_locales (simp_all add: networkToHost16_def le_bytes_bswap)

interpretation mun32: net_order networkToHost32 4
  by unfold_locales (simp_all add: networkToHost32_def le_bytes_bswap)

interpretation mun64: net_order networkToHost64 8
  by unfold_locales (simp_all add: networkToHost64_def le_bytes_bswap)

lemma be_bytes_4: "be_bytes 4 (w :: 'a::len word) =
  [chr_of (ucast (drop_bit 24 w)), chr_of (ucast (drop_bit 16 w)),
   chr_of (ucast (drop_bit 8 w)), chr_of (ucast w)]"
  by (simp add: be_bytes_def le_bytes_def upt_expand)

lemma be_bytes_2: "be_bytes 2 (w :: 'a::len word) = [chr_of (ucast (drop_bit 8 w)), chr_of (ucast w)]"
  by (simp add: be_bytes_def le_bytes_def upt_expand)

section \<open>Values\<close>

fun le_value :: "bytes \<Rightarrow> nat" where
  "le_value [] = 0"
| "le_value (c # cs) = of_char c + 256 * le_value cs"

lemma le_value_bound: "le_value cs < 256 ^ length cs"
proof (induction cs)
  case (Cons c cs)
  have "of_char c + 256 * le_value cs < 256 + 256 * le_value cs" by simp
  also have "\<dots> \<le> 256 * 256 ^ length cs" using Cons.IH by (simp add: Suc_le_eq)
  finally show ?case by simp
qed simp

lemma le_load_of_nat: "(le_load cs :: 'a::len word) = of_nat (le_value cs)"
proof (induction cs)
  case (Cons c cs)
  have c: "ucast (byte_of c) = (of_nat (of_char c) :: 'a word)"
    by (simp flip: unat_byte_of)
  have "ucast (byte_of c) OR push_bit 8 (le_load cs :: 'a word)
      = ucast (byte_of c) + push_bit 8 (le_load cs)"
    by (rule sym, rule disjunctive_add)
      (use bit_imp_le_length in \<open>fastforce simp: bit_simps\<close>)
  then show ?case by (simp add: Cons c push_bit_eq_mult mult.commute)
qed simp

lemma unat_le_load: "8 * length cs \<le> LENGTH('a::len) \<Longrightarrow> unat (le_load cs :: 'a word) = le_value cs"
proof -
  assume "8 * length cs \<le> LENGTH('a)"
  then have "(256::nat) ^ length cs \<le> 2 ^ LENGTH('a)"
    using power_increasing [of "8 * length cs" "LENGTH('a)" "2::nat"] by (simp add: power_mult)
  with le_value_bound [of cs] have "le_value cs < 2 ^ LENGTH('a)" by linarith
  then show ?thesis by (simp add: le_load_of_nat unat_of_nat)
qed

lemma hton32_load: "length cs = 4 \<Longrightarrow> unat (hton32 (le_load cs)) = le_value (rev cs)"
  using co32.conv_eq_load [of "le_load cs"] le_bytes_le_load [of cs, where 'a = 32]
  by (simp add: unat_le_load)

lemma hton16_load: "length cs = 2 \<Longrightarrow> unat (hton16 (le_load cs)) = le_value (rev cs)"
  using co16.conv_eq_load [of "le_load cs"] le_bytes_le_load [of cs, where 'a = 16]
  by (simp add: unat_le_load)

lemma unat_and_mask31: "unat (x AND 0x7fffffff :: 32 word) = unat x mod 2 ^ 31"
proof -
  have m: "(0x7fffffff :: 32 word) = mask 31" by (simp add: mask_eq_exp_minus_1)
  show ?thesis
    unfolding m take_bit_eq_mask [symmetric] by (simp add: unsigned_take_bit_eq, simp add: take_bit_eq_mod)
qed

lemma mu_order_eq:
  "hostToNetwork16 = hton16" "networkToHost16 = hton16" "hostToNetwork32 = hton32"
  "networkToHost32 = hton32" "hostToNetwork64 = hton64" "networkToHost64 = hton64"
  by (auto simp: fun_eq_iff co16.conv_eq_load co32.conv_eq_load co64.conv_eq_load
      hostToNetwork16_def networkToHost16_def hostToNetwork32_def networkToHost32_def
      hostToNetwork64_def networkToHost64_def bswap_def)

text \<open>
  The byte-order macros of cocgi and the \<open>sockets::\<close> functions of mucgi are the same
  functions at each of the three widths, so the two programs speak the same wire format.
\<close>

lemma byte_order_agree:
  "hton16 = hostToNetwork16 \<and> ntoh16 = networkToHost16 \<and>
   hton32 = hostToNetwork32 \<and> ntoh32 = networkToHost32 \<and>
   hton64 = hostToNetwork64 \<and> ntoh64 = networkToHost64"
  by (simp add: mu_order_eq)

end
