(* ===== verification/Buffer.thy ===== *)
theory Buffer
  imports Endian
begin

text \<open>
  The receive and send buffer of both programs (\<^verbatim>\<open>cocgi/muduo_lib/Buffer.h\<close> and
  \<^verbatim>\<open>Buffer.cpp\<close>; \<^verbatim>\<open>mucgi/muduo_net/Buffer.h\<close> is the same class over the conversions of
  \<^verbatim>\<open>Endian.h\<close>). The state is the vector and its two indices; every operation keeps its
  assertions, so that a violated one is the value \<open>Inl Assert_fail\<close>. The abstraction is
  \<open>content\<close>, the readable bytes, on which the class is a byte queue: this is the locale
  \<open>byte_queue\<close>, interpreted at the end on the operations.
\<close>

section \<open>State and accessors\<close>

record buffer =
  store :: bytes
  readerIndex :: nat
  writerIndex :: nat

definition kCheapPrepend :: nat where "kCheapPrepend = 8"

definition kInitialSize :: nat where "kInitialSize = 1024"

definition kCRLF :: bytes where "kCRLF = [CHR 0x0D, CHR 0x0A]"

definition new_Buffer :: "nat \<Rightarrow> buffer" where
  "new_Buffer initialSize =
     \<lparr>store = replicate (kCheapPrepend + initialSize) (CHR 0x00),
      readerIndex = kCheapPrepend, writerIndex = kCheapPrepend\<rparr>"

definition swap_Buffer :: "buffer \<Rightarrow> buffer \<Rightarrow> buffer \<times> buffer" where
  "swap_Buffer this rhs =
     (this\<lparr>store := store rhs, readerIndex := readerIndex rhs, writerIndex := writerIndex rhs\<rparr>,
      rhs\<lparr>store := store this, readerIndex := readerIndex this, writerIndex := writerIndex this\<rparr>)"

definition readableBytes :: "buffer \<Rightarrow> nat" where
  "readableBytes b = writerIndex b - readerIndex b"

definition writableBytes :: "buffer \<Rightarrow> nat" where
  "writableBytes b = length (store b) - writerIndex b"

definition prependableBytes :: "buffer \<Rightarrow> nat" where
  "prependableBytes b = readerIndex b"

text \<open>The memory a pointer returned by \<open>peek\<close> addresses, up to the end of the vector.\<close>

definition peek :: "buffer \<Rightarrow> bytes" where
  "peek b = drop (readerIndex b) (store b)"

text \<open>The readable bytes, \<open>[peek(), beginWrite())\<close>.\<close>

definition content :: "buffer \<Rightarrow> bytes" where
  "content b = slice (readerIndex b) (writerIndex b) (store b)"

text \<open>Pointers into the readable region are offsets from \<open>peek()\<close>; \<open>NULL\<close> is \<^term>\<open>None\<close>.\<close>

definition findCRLF :: "buffer \<Rightarrow> nat option" where
  "findCRLF b = search kCRLF (content b)"

definition findCRLF_from :: "buffer \<Rightarrow> nat \<Rightarrow> nat option res" where
  "findCRLF_from b start =
     assert_res (start \<le> readableBytes b)
       (Inr (map_option ((+) start) (search kCRLF (drop start (content b)))))"

definition findEOL :: "buffer \<Rightarrow> nat option" where
  "findEOL b = search [CHR 0x0A] (content b)"

definition findEOL_from :: "buffer \<Rightarrow> nat \<Rightarrow> nat option res" where
  "findEOL_from b start =
     assert_res (start \<le> readableBytes b)
       (Inr (map_option ((+) start) (search [CHR 0x0A] (drop start (content b)))))"

section \<open>Consuming\<close>

definition retrieveAll :: "buffer \<Rightarrow> buffer" where
  "retrieveAll b = b\<lparr>readerIndex := kCheapPrepend, writerIndex := kCheapPrepend\<rparr>"

definition retrieve :: "buffer \<Rightarrow> nat \<Rightarrow> buffer res" where
  "retrieve b len =
     assert_res (len \<le> readableBytes b)
       (if len < readableBytes b then Inr (b\<lparr>readerIndex := readerIndex b + len\<rparr>)
        else Inr (retrieveAll b))"

definition retrieveUntil :: "buffer \<Rightarrow> nat \<Rightarrow> buffer res" where
  "retrieveUntil b end = assert_res (end \<le> readableBytes b) (retrieve b end)"

definition retrieveInt64 :: "buffer \<Rightarrow> buffer res" where "retrieveInt64 b = retrieve b 8"

definition retrieveInt32 :: "buffer \<Rightarrow> buffer res" where "retrieveInt32 b = retrieve b 4"

definition retrieveInt16 :: "buffer \<Rightarrow> buffer res" where "retrieveInt16 b = retrieve b 2"

definition retrieveInt8 :: "buffer \<Rightarrow> buffer res" where "retrieveInt8 b = retrieve b 1"

definition retrieveAsString :: "buffer \<Rightarrow> nat \<Rightarrow> (string \<times> buffer) res" where
  "retrieveAsString b len =
     assert_res (len \<le> readableBytes b)
       (let result = take len (peek b)
        in bind_res (retrieve b len) (\<lambda>b'. Inr (result, b')))"

definition retrieveAllAsString :: "buffer \<Rightarrow> (string \<times> buffer) res" where
  "retrieveAllAsString b = retrieveAsString b (readableBytes b)"

section \<open>Producing\<close>

definition makeSpace :: "buffer \<Rightarrow> nat \<Rightarrow> buffer res" where
  "makeSpace b len =
     (if writableBytes b + prependableBytes b < len + kCheapPrepend
      then Inr (b\<lparr>store := vec_resize (writerIndex b + len) (store b)\<rparr>)
      else assert_res (kCheapPrepend < readerIndex b)
        (let readable = readableBytes b;
             b' = b\<lparr>store := blit (store b) kCheapPrepend (content b),
                    readerIndex := kCheapPrepend, writerIndex := kCheapPrepend + readable\<rparr>
         in assert_res (readable = readableBytes b') (Inr b')))"

definition ensureWritableBytes :: "buffer \<Rightarrow> nat \<Rightarrow> buffer res" where
  "ensureWritableBytes b len =
     bind_res (if writableBytes b < len then makeSpace b len else Inr b)
       (\<lambda>b'. assert_res (writableBytes b' \<ge> len) (Inr b'))"

definition hasWritten :: "buffer \<Rightarrow> nat \<Rightarrow> buffer res" where
  "hasWritten b len =
     assert_res (len \<le> writableBytes b) (Inr (b\<lparr>writerIndex := writerIndex b + len\<rparr>))"

definition unwrite :: "buffer \<Rightarrow> nat \<Rightarrow> buffer res" where
  "unwrite b len =
     assert_res (len \<le> readableBytes b) (Inr (b\<lparr>writerIndex := writerIndex b - len\<rparr>))"

text \<open>\<open>append(data, len)\<close>; the argument is the \<open>len\<close> bytes at \<open>data\<close>.\<close>

definition append_buf :: "buffer \<Rightarrow> bytes \<Rightarrow> buffer res" where
  "append_buf b data =
     bind_res (ensureWritableBytes b (length data))
       (\<lambda>b'. hasWritten (b'\<lparr>store := blit (store b') (writerIndex b') data\<rparr>) (length data))"

text \<open>
  A \<open>StringPiece\<close> is a pointer (here the memory it addresses) and a signed 32-bit length,
  to which the constructors cast. A negative length reaches \<open>append(data, len)\<close> as a
  \<open>size_t\<close> close to its maximum; the resize then throws or, where one of its sums wraps
  around, the assertion that the space was made fails.
\<close>

record string_piece =
  sp_ptr :: bytes
  sp_length :: "32 word"

definition StringPiece_of_string :: "string \<Rightarrow> string_piece" where
  "StringPiece_of_string str = \<lparr>sp_ptr = str, sp_length = of_nat (length str)\<rparr>"

definition append_piece :: "buffer \<Rightarrow> string_piece \<Rightarrow> buffer res" where
  "append_piece b str =
     (let len = sint (sp_length str)
      in if len \<ge> 0 then append_buf b (take (nat len) (sp_ptr str))
         else if nat (- len) \<le> max kCheapPrepend (writerIndex b) then Inl Assert_fail
         else Inl Length_error)"

definition toStringPiece :: "buffer \<Rightarrow> string_piece" where
  "toStringPiece b = \<lparr>sp_ptr = peek b, sp_length = of_nat (readableBytes b)\<rparr>"

definition prepend_buf :: "buffer \<Rightarrow> bytes \<Rightarrow> buffer res" where
  "prepend_buf b data =
     assert_res (length data \<le> prependableBytes b)
       (let r = readerIndex b - length data
        in Inr (b\<lparr>readerIndex := r, store := blit (store b) r data\<rparr>))"

definition shrink :: "buffer \<Rightarrow> nat \<Rightarrow> buffer res" where
  "shrink b reserve =
     bind_res (ensureWritableBytes (new_Buffer kInitialSize) (readableBytes b + reserve))
       (\<lambda>other. bind_res (append_piece other (toStringPiece b))
          (\<lambda>other'. Inr (fst (swap_Buffer b other'))))"

section \<open>Integers in network order\<close>

definition appendInt64 :: "buffer \<Rightarrow> 64 word \<Rightarrow> buffer res" where
  "appendInt64 b x = append_buf b (le_bytes 8 (hton64 x))"

definition appendInt32 :: "buffer \<Rightarrow> 32 word \<Rightarrow> buffer res" where
  "appendInt32 b x = append_buf b (le_bytes 4 (hton32 x))"

definition appendInt16 :: "buffer \<Rightarrow> 16 word \<Rightarrow> buffer res" where
  "appendInt16 b x = append_buf b (le_bytes 2 (hton16 x))"

definition appendInt8 :: "buffer \<Rightarrow> 8 word \<Rightarrow> buffer res" where
  "appendInt8 b x = append_buf b [chr_of x]"

definition peekInt64 :: "buffer \<Rightarrow> 64 word res" where
  "peekInt64 b = assert_res (readableBytes b \<ge> 8) (Inr (ntoh64 (le_load (take 8 (peek b)))))"

definition peekInt32 :: "buffer \<Rightarrow> 32 word res" where
  "peekInt32 b = assert_res (readableBytes b \<ge> 4) (Inr (ntoh32 (le_load (take 4 (peek b)))))"

definition peekInt16 :: "buffer \<Rightarrow> 16 word res" where
  "peekInt16 b = assert_res (readableBytes b \<ge> 2) (Inr (ntoh16 (le_load (take 2 (peek b)))))"

definition peekInt8 :: "buffer \<Rightarrow> 8 word res" where
  "peekInt8 b = assert_res (readableBytes b \<ge> 1) (Inr (byte_of (hd (peek b))))"

definition readInt64 :: "buffer \<Rightarrow> (64 word \<times> buffer) res" where
  "readInt64 b = bind_res (peekInt64 b) (\<lambda>r. bind_res (retrieveInt64 b) (\<lambda>b'. Inr (r, b')))"

definition readInt32 :: "buffer \<Rightarrow> (32 word \<times> buffer) res" where
  "readInt32 b = bind_res (peekInt32 b) (\<lambda>r. bind_res (retrieveInt32 b) (\<lambda>b'. Inr (r, b')))"

definition readInt16 :: "buffer \<Rightarrow> (16 word \<times> buffer) res" where
  "readInt16 b = bind_res (peekInt16 b) (\<lambda>r. bind_res (retrieveInt16 b) (\<lambda>b'. Inr (r, b')))"

definition readInt8 :: "buffer \<Rightarrow> (8 word \<times> buffer) res" where
  "readInt8 b = bind_res (peekInt8 b) (\<lambda>r. bind_res (retrieveInt8 b) (\<lambda>b'. Inr (r, b')))"

definition prependInt64 :: "buffer \<Rightarrow> 64 word \<Rightarrow> buffer res" where
  "prependInt64 b x = prepend_buf b (le_bytes 8 (hton64 x))"

definition prependInt32 :: "buffer \<Rightarrow> 32 word \<Rightarrow> buffer res" where
  "prependInt32 b x = prepend_buf b (le_bytes 4 (hton32 x))"

definition prependInt16 :: "buffer \<Rightarrow> 16 word \<Rightarrow> buffer res" where
  "prependInt16 b x = prepend_buf b (le_bytes 2 (hton16 x))"

definition prependInt8 :: "buffer \<Rightarrow> 8 word \<Rightarrow> buffer res" where
  "prependInt8 b x = prepend_buf b [chr_of x]"

section \<open>Scattered read from a descriptor\<close>

text \<open>
  \<open>readv\<close> is the system call: given the lengths of the vectors it returns the bytes read or
  the error number. What it stores beyond the writable space goes through \<open>extrabuf\<close>. The
  result is the return value of the call (the error number on the left) with the buffer.
\<close>

definition extrabuf_size :: nat where "extrabuf_size = 65536"

definition readFd :: "(nat list \<Rightarrow> nat + bytes) \<Rightarrow> buffer \<Rightarrow> ((nat + nat) \<times> buffer) res" where
  "readFd readv b =
     (let writable = writableBytes b;
          vec = (if writable < extrabuf_size then [writable, extrabuf_size] else [writable])
      in case readv vec of
           Inl err \<Rightarrow> Inr (Inl err, b)
         | Inr data \<Rightarrow>
             (let b1 = b\<lparr>store := blit (store b) (writerIndex b) (take writable data)\<rparr>
              in if length data \<le> writable
                 then Inr (Inr (length data), b1\<lparr>writerIndex := writerIndex b + length data\<rparr>)
                 else bind_res
                   (append_buf (b1\<lparr>writerIndex := length (store b1)\<rparr>) (drop writable data))
                   (\<lambda>b2. Inr (Inr (length data), b2))))"

section \<open>Invariant and abstraction\<close>

definition buffer_inv :: "buffer \<Rightarrow> bool" where
  "buffer_inv b \<longleftrightarrow> readerIndex b \<le> writerIndex b \<and> writerIndex b \<le> length (store b) \<and>
     kCheapPrepend \<le> length (store b)"

text \<open>The concrete buffer \<open>b\<close> holds the byte string \<open>s\<close>.\<close>

definition holds :: "bytes \<Rightarrow> buffer \<Rightarrow> bool" where
  "holds s b \<longleftrightarrow> buffer_inv b \<and> content b = s"

lemma holdsI [intro]: "buffer_inv b \<Longrightarrow> content b = s \<Longrightarrow> holds s b"
  by (simp add: holds_def)

lemma length_content [buf_simps]: "buffer_inv b \<Longrightarrow> length (content b) = readableBytes b"
  by (simp add: content_def readableBytes_def buffer_inv_def)

lemma holds_readable [buf_simps]: "holds s b \<Longrightarrow> readableBytes b = length s"
  by (auto simp: holds_def length_content)

lemma take_peek: "buffer_inv b \<Longrightarrow> take (readableBytes b) (peek b) = content b"
  by (simp add: peek_def content_def readableBytes_def slice_def buffer_inv_def take_drop)

lemma holds_take_peek [buf_simps]: "holds s b \<Longrightarrow> n \<le> length s \<Longrightarrow> take n (peek b) = take n s"
  by (metis holds_def length_content min.absorb1 take_peek take_take)

lemma holds_drop_take_peek [buf_simps]:
  "holds s b \<Longrightarrow> n + k \<le> length s \<Longrightarrow> take k (drop n (peek b)) = take k (drop n s)"
  by (metis add.commute holds_take_peek take_drop)

lemma holds_nth_peek [buf_simps]: "holds s b \<Longrightarrow> n < length s \<Longrightarrow> peek b ! n = s ! n"
  by (metis Suc_leI holds_take_peek lessI nth_take)

lemma holds_hd_peek [buf_simps]: "holds s b \<Longrightarrow> s \<noteq> [] \<Longrightarrow> hd (peek b) = hd s"
  by (metis One_nat_def Suc_leI hd_take holds_take_peek length_greater_0_conv lessI)

lemma new_Buffer_asserts:
  "readableBytes (new_Buffer n) = 0" "writableBytes (new_Buffer n) = n"
  "prependableBytes (new_Buffer n) = kCheapPrepend"
  by (simp_all add: new_Buffer_def readableBytes_def writableBytes_def prependableBytes_def)

lemma holds_new_Buffer [simp, buf_simps]: "holds [] (new_Buffer n)"
  by (simp add: holds_def buffer_inv_def content_def new_Buffer_def)

lemma holds_retrieveAll [buf_simps]: "holds s b \<Longrightarrow> holds [] (retrieveAll b)"
  by (simp add: holds_def buffer_inv_def content_def retrieveAll_def)

lemma holds_retrieve:
  assumes "holds s b" and "n \<le> length s"
  shows "res_ok (retrieve b n) (holds (drop n s))"
proof (cases "n < readableBytes b")
  case True
  with assms show ?thesis
    by (auto simp: retrieve_def holds_def buffer_inv_def content_def slice_def readableBytes_def
        drop_take add.commute intro!: res_okI)
next
  case False
  with assms show ?thesis
    by (auto simp: retrieve_def holds_readable intro!: holds_retrieveAll)
qed

lemma retrieve_fault: "holds s b \<Longrightarrow> length s < n \<Longrightarrow> retrieve b n = Inl Assert_fail"
  by (simp add: retrieve_def holds_readable)

lemma holds_retrieveAsString:
  assumes "holds s b" and "n \<le> length s"
  shows "res_ok (retrieveAsString b n) (\<lambda>(r, b'). r = take n s \<and> holds (drop n s) b')"
  unfolding retrieveAsString_def using assms
  by (auto simp: holds_readable holds_take_peek intro!: res_ok_bind [OF holds_retrieve])

lemma holds_retrieveAllAsString:
  assumes "holds s b"
  shows "res_ok (retrieveAllAsString b) (\<lambda>(r, b'). r = s \<and> holds [] b')"
  using holds_retrieveAsString [OF assms, of "length s"] assms
  by (simp add: retrieveAllAsString_def holds_readable)

lemma holds_makeSpace:
  assumes "holds s b" and "writableBytes b < len"
  shows "res_ok (makeSpace b len) (\<lambda>b'. holds s b' \<and> len \<le> writableBytes b')"
proof (cases "writableBytes b + prependableBytes b < len + kCheapPrepend")
  case True
  with assms show ?thesis
    by (auto simp: makeSpace_def holds_def buffer_inv_def content_def slice_def writableBytes_def)
next
  case False
  with assms have "kCheapPrepend < readerIndex b"
    by (simp add: prependableBytes_def)
  moreover from assms have "length (content b) = readableBytes b"
    by (auto simp: holds_def length_content)
  ultimately show ?thesis
    using assms False
    by (auto simp: makeSpace_def Let_def readableBytes_def holds_def buffer_inv_def writableBytes_def
        prependableBytes_def content_def slice_def take_blit_over blit_def)
qed

lemma holds_ensureWritableBytes:
  assumes "holds s b"
  shows "res_ok (ensureWritableBytes b len) (\<lambda>b'. holds s b' \<and> len \<le> writableBytes b')"
  unfolding ensureWritableBytes_def
  by (rule res_ok_bind [where P = "\<lambda>b'. holds s b' \<and> len \<le> writableBytes b'"])
    (use assms holds_makeSpace [OF assms] in auto)

lemma holds_append_buf:
  assumes "holds s b"
  shows "res_ok (append_buf b data) (holds (s @ data))"
  unfolding append_buf_def
proof (rule res_ok_bind [OF holds_ensureWritableBytes [OF assms]])
  fix b' assume b': "holds s b' \<and> length data \<le> writableBytes b'"
  then have "writerIndex b' + length data \<le> length (store b')"
    by (auto simp: holds_def buffer_inv_def writableBytes_def)
  with b' show "res_ok (hasWritten (b'\<lparr>store := blit (store b') (writerIndex b') data\<rparr>) (length data))
          (holds (s @ data))"
    by (auto simp: hasWritten_def holds_def buffer_inv_def writableBytes_def content_def slice_extend
      intro!: res_okI)
qed

locale byte_queue =
  fixes queue_holds :: "bytes \<Rightarrow> 'b \<Rightarrow> bool"
    and append_q :: "'b \<Rightarrow> bytes \<Rightarrow> 'b res" and retrieve_q :: "'b \<Rightarrow> nat \<Rightarrow> 'b res"
  assumes append_law: "queue_holds s b \<Longrightarrow> res_ok (append_q b data) (queue_holds (s @ data))"
    and retrieve_law: "queue_holds s b \<Longrightarrow> n \<le> length s \<Longrightarrow> res_ok (retrieve_q b n) (queue_holds (drop n s))"
    and retrieve_fault: "queue_holds s b \<Longrightarrow> length s < n \<Longrightarrow> retrieve_q b n = Inl Assert_fail"
begin

text \<open>A loop whose body appends leaves the concatenation behind what was there.\<close>

lemma append_loop:
  assumes "\<And>i s b. i \<in> set is \<Longrightarrow> queue_holds s b \<Longrightarrow> res_ok (f b i) (queue_holds (s @ g i))"
    and "queue_holds s b"
  shows "res_ok (foldl (\<lambda>acc i. bind_res acc (\<lambda>b. f b i)) (Inr b) is)
    (queue_holds (s @ concat (map g is)))"
  using assms
proof (induction "is" rule: rev_induct)
  case Nil
  then show ?case by simp
next
  case (snoc i "is")
  have "res_ok (foldl (\<lambda>acc i. bind_res acc (\<lambda>b. f b i)) (Inr b) is)
      (queue_holds (s @ concat (map g is)))"
    using snoc.prems by (intro snoc.IH) auto
  then have "res_ok (bind_res (foldl (\<lambda>acc i. bind_res acc (\<lambda>b. f b i)) (Inr b) is) (\<lambda>b. f b i))
      (queue_holds ((s @ concat (map g is)) @ g i))"
    by (rule res_ok_bind) (rule snoc.prems(1), simp_all)
  then show ?case by simp
qed

lemma append_chunks:
  "queue_holds s b \<Longrightarrow>
   res_ok (foldl (\<lambda>acc c. bind_res acc (\<lambda>b. append_q b c)) (Inr b) cs) (queue_holds (s @ concat cs))"
  using append_loop [of cs append_q "\<lambda>c. c" s b] append_law by simp

text \<open>First in, first out: what was there before an append is retrieved first.\<close>

lemma append_retrieve:
  assumes "queue_holds s b"
  shows "res_ok (bind_res (append_q b data) (\<lambda>b'. retrieve_q b' (length s))) (queue_holds data)"
proof (rule res_ok_bind [OF append_law [OF assms]])
  fix b' assume "queue_holds (s @ data) b'"
  then show "res_ok (retrieve_q b' (length s)) (queue_holds data)"
    using retrieve_law [of "s @ data" b' "length s"] by simp
qed

end

interpretation buf: byte_queue holds append_buf retrieve
  by unfold_locales (rule holds_append_buf holds_retrieve retrieve_fault; assumption)+

lemma StringPiece_small:
  assumes "length str < 2 ^ 31"
  shows "sint (sp_length (StringPiece_of_string str)) = int (length str)"
  using assms by (simp add: StringPiece_of_string_def sint_uint uint_nat unat_of_nat  signed_take_bit_int_eq_self)

lemma holds_append_piece:
  assumes "holds s b" "length str < 2 ^ 31"
  shows "res_ok (append_piece b (StringPiece_of_string str)) (holds (s @ str))"
  using holds_append_buf [OF assms(1), of str] StringPiece_small [OF assms(2)]
  by (simp add: append_piece_def Let_def) (simp add: StringPiece_of_string_def)


lemma holds_unwrite:
  assumes "holds s b" and "n \<le> length s"
  shows "res_ok (unwrite b n) (holds (take (length s - n) s))"
proof -
  from assms have n: "n \<le> readableBytes b" by (simp add: holds_readable)
  with assms show ?thesis
    by (auto simp: unwrite_def holds_def buffer_inv_def content_def slice_def readableBytes_def
        take_drop)
qed

lemma holds_prepend_buf:
  assumes "holds s b" and "length data \<le> prependableBytes b"
  shows "res_ok (prepend_buf b data)
    (\<lambda>b'. holds (data @ s) b' \<and> prependableBytes b' = prependableBytes b - length data)"
proof -
  let ?r = "readerIndex b - length data"
  from assms have le: "length data \<le> readerIndex b" "readerIndex b \<le> writerIndex b"
    "writerIndex b \<le> length (store b)"
    by (auto simp: prependableBytes_def holds_def buffer_inv_def)
  then have "slice ?r (writerIndex b) (blit (store b) ?r data) = data @ content b"
    by (simp add: slice_def blit_def content_def drop_take)
  with assms le show ?thesis
    by (auto simp: prepend_buf_def Let_def holds_def buffer_inv_def content_def prependableBytes_def
        intro!: res_okI)
qed

lemma holds_shrink:
  assumes "holds s b" and "length s < 2 ^ 31"
  shows "res_ok (shrink b reserve) (holds s)"
proof -
  have piece: "sint (sp_length (toStringPiece b)) = int (length s)"
    using StringPiece_small [OF assms(2)] assms(1)
    by (simp add: toStringPiece_def StringPiece_of_string_def holds_readable)
  have "res_ok (append_piece other (toStringPiece b)) (holds s)" if "holds [] other" for other
    using holds_append_buf [OF that, of s] piece assms(1)
    by (simp add: append_piece_def Let_def toStringPiece_def holds_take_peek)
  then show ?thesis
    unfolding shrink_def
    by (auto intro!: res_ok_bind [OF holds_ensureWritableBytes [OF holds_new_Buffer]]
        res_ok_bind [where P = "holds s"]
        simp: swap_Buffer_def holds_def buffer_inv_def content_def)
qed

section \<open>Integers\<close>

lemma holds_appendInt:
  assumes "holds s b"
  shows "res_ok (appendInt64 b x8) (holds (s @ be_bytes 8 x8))"
    "res_ok (appendInt32 b x4) (holds (s @ be_bytes 4 x4))"
    "res_ok (appendInt16 b x2) (holds (s @ be_bytes 2 x2))"
    "res_ok (appendInt8 b x1) (holds (s @ [chr_of x1]))"
  using holds_append_buf [OF assms]
  by (simp_all add: appendInt64_def appendInt32_def appendInt16_def appendInt8_def
      co64.store_conv co32.store_conv co16.store_conv)

lemma holds_readInt64:
  "holds (be_bytes 8 x @ s) b \<Longrightarrow> res_ok (readInt64 b) (\<lambda>(r, b'). r = x \<and> holds s b')"
  using holds_retrieve [of "be_bytes 8 x @ s" b 8]
  by (auto simp: readInt64_def peekInt64_def retrieveInt64_def holds_readable holds_take_peek
      co64.conv_load intro!: res_ok_bind)

lemma holds_readInt32:
  "holds (be_bytes 4 x @ s) b \<Longrightarrow> res_ok (readInt32 b) (\<lambda>(r, b'). r = x \<and> holds s b')"
  using holds_retrieve [of "be_bytes 4 x @ s" b 4]
  by (auto simp: readInt32_def peekInt32_def retrieveInt32_def holds_readable holds_take_peek
      co32.conv_load intro!: res_ok_bind)

lemma holds_readInt16:
  "holds (be_bytes 2 x @ s) b \<Longrightarrow> res_ok (readInt16 b) (\<lambda>(r, b'). r = x \<and> holds s b')"
  using holds_retrieve [of "be_bytes 2 x @ s" b 2]
  by (auto simp: readInt16_def peekInt16_def retrieveInt16_def holds_readable holds_take_peek
      co16.conv_load intro!: res_ok_bind)

lemma holds_readInt8:
  "holds (c # s) b \<Longrightarrow> res_ok (readInt8 b) (\<lambda>(r, b'). r = byte_of c \<and> holds s b')"
  using holds_retrieve [of "c # s" b 1]
  by (auto simp: readInt8_def peekInt8_def retrieveInt8_def holds_readable holds_hd_peek
      intro!: res_ok_bind)

section \<open>Reading from a descriptor\<close>

lemma holds_readFd:
  assumes "holds s b"
    and ret: "readv (if writableBytes b < extrabuf_size then [writableBytes b, extrabuf_size]
                     else [writableBytes b]) = Inr data"
  shows "res_ok (readFd readv b) (\<lambda>(n, b'). n = Inr (length data) \<and> holds (s @ data) b')"
proof (cases "length data \<le> writableBytes b")
  case True
  with assms show ?thesis
    by (auto simp: readFd_def Let_def holds_def buffer_inv_def writableBytes_def content_def
        slice_extend)
next
  case False
  let ?w = "writableBytes b"
  let ?b = "b\<lparr>store := blit (store b) (writerIndex b) (take ?w data), 
    writerIndex := length (blit (store b) (writerIndex b) (take ?w data))\<rparr>"
  have len: "writerIndex b + length (take ?w data) = length (store b)"
    using False assms(1) by (auto simp: holds_def buffer_inv_def writableBytes_def)
  have "holds (s @ take ?w data) ?b"
    using assms(1) False len slice_extend [of "readerIndex b" "writerIndex b" "store b" "take ?w data"]
    by (auto simp: holds_def buffer_inv_def content_def)
  from holds_append_buf [OF this, of "drop ?w data"] False ret show ?thesis
    by (auto simp: readFd_def Let_def intro!: res_ok_bind)
qed

section \<open>The class as a byte queue\<close>

text \<open>
  The operations of a client, and what each of them means on the queue of readable bytes:
  the specification of the class. A violated precondition is \<open>Inl Assert_fail\<close> in both.
\<close>

datatype buf_op =
    Op_append bytes
  | Op_appendInt64 "64 word"
  | Op_appendInt32 "32 word"
  | Op_appendInt16 "16 word"
  | Op_appendInt8 "8 word"
  | Op_retrieve nat
  | Op_retrieveAll
  | Op_retrieveAsString nat
  | Op_ensureWritableBytes nat
  | Op_unwrite nat

fun buf_step :: "buffer \<Rightarrow> buf_op \<Rightarrow> buffer res" where
  "buf_step b (Op_append s) = append_buf b s"
| "buf_step b (Op_appendInt64 x) = appendInt64 b x"
| "buf_step b (Op_appendInt32 x) = appendInt32 b x"
| "buf_step b (Op_appendInt16 x) = appendInt16 b x"
| "buf_step b (Op_appendInt8 x) = appendInt8 b x"
| "buf_step b (Op_retrieve n) = retrieve b n"
| "buf_step b Op_retrieveAll = Inr (retrieveAll b)"
| "buf_step b (Op_retrieveAsString n) = bind_res (retrieveAsString b n) (\<lambda>r. Inr (snd r))"
| "buf_step b (Op_ensureWritableBytes n) = ensureWritableBytes b n"
| "buf_step b (Op_unwrite n) = unwrite b n"

fun queue_step :: "bytes \<Rightarrow> buf_op \<Rightarrow> bytes res" where
  "queue_step q (Op_append s) = Inr (q @ s)"
| "queue_step q (Op_appendInt64 x) = Inr (q @ be_bytes 8 x)"
| "queue_step q (Op_appendInt32 x) = Inr (q @ be_bytes 4 x)"
| "queue_step q (Op_appendInt16 x) = Inr (q @ be_bytes 2 x)"
| "queue_step q (Op_appendInt8 x) = Inr (q @ [chr_of x])"
| "queue_step q (Op_retrieve n) = assert_res (n \<le> length q) (Inr (drop n q))"
| "queue_step q Op_retrieveAll = Inr []"
| "queue_step q (Op_retrieveAsString n) = assert_res (n \<le> length q) (Inr (drop n q))"
| "queue_step q (Op_ensureWritableBytes n) = Inr q"
| "queue_step q (Op_unwrite n) = assert_res (n \<le> length q) (Inr (take (length q - n) q))"

fun run_ops :: "('s \<Rightarrow> buf_op \<Rightarrow> 's res) \<Rightarrow> 's \<Rightarrow> buf_op list \<Rightarrow> 's res" where
  "run_ops step s [] = Inr s"
| "run_ops step s (op # ops) = bind_res (step s op) (\<lambda>s'. run_ops step s' ops)"

lemma buf_step_simulates:
  assumes "holds q b"
  shows "simulates holds (queue_step q op) (buf_step b op)"
proof (cases op)
  case (Op_retrieve n)
  then show ?thesis
    using holds_retrieve [OF assms, of n] retrieve_fault [OF assms, of n]
    by (cases "n \<le> length q") (auto simp: simulates_def)
next
  case (Op_retrieveAsString n)
  then show ?thesis
    using holds_retrieveAsString [OF assms, of n] assms
    by (cases "n \<le> length q") (auto simp: simulates_def retrieveAsString_def holds_readable)
next
  case (Op_unwrite n)
  then show ?thesis
    using holds_unwrite [OF assms, of n] assms
    by (cases "n \<le> length q") (auto simp: simulates_def unwrite_def holds_readable)
qed (use assms in \<open>auto simp: simulates_def holds_append_buf holds_appendInt holds_retrieveAll
        intro: res_ok_mono [OF holds_ensureWritableBytes]\<close>)

lemma run_ops_simulates:
  "holds q b \<Longrightarrow> simulates holds (run_ops queue_step q ops) (run_ops buf_step b ops)"
proof (induction ops arbitrary: q b)
  case Nil
  then show ?case by (simp add: simulates_def)
next
  case (Cons op ops)
  then show ?case by (auto intro: simulates_bind [OF buf_step_simulates])
qed


text \<open>
  C37. Reading an integer in network order returns the integer that was appended, at every
  width, after whatever was in the buffer before it is consumed.
\<close>

theorem Buffer_int_roundtrip:
  assumes "holds s b"
  shows "res_ok (bind_res (appendInt64 b x) (\<lambda>b1. bind_res (retrieve b1 (length s)) readInt64))
      (\<lambda>(r, b'). r = x \<and> holds [] b')
    \<and> res_ok (bind_res (appendInt32 b y) (\<lambda>b1. bind_res (retrieve b1 (length s)) readInt32))
      (\<lambda>(r, b'). r = y \<and> holds [] b')
    \<and> res_ok (bind_res (appendInt16 b z) (\<lambda>b1. bind_res (retrieve b1 (length s)) readInt16))
      (\<lambda>(r, b'). r = z \<and> holds [] b')
    \<and> res_ok (bind_res (appendInt8 b u) (\<lambda>b1. bind_res (retrieve b1 (length s)) readInt8))
      (\<lambda>(r, b'). r = u \<and> holds [] b')"
proof -
  have step: "res_ok (bind_res app (\<lambda>b1. bind_res (retrieve b1 (length s)) rd)) Q"
    if "res_ok app (holds (s @ d))" and "\<And>b'. holds d b' \<Longrightarrow> res_ok (rd b') Q"
    for app rd Q and d :: bytes
  proof (rule res_ok_bind [OF that(1)])
    fix b1 assume "holds (s @ d) b1"
    from holds_retrieve [OF this, of "length s"]
    show "res_ok (bind_res (retrieve b1 (length s)) rd) Q"
      by (auto intro!: res_ok_bind [where P = "holds d"] that(2))
  qed
  have rd8: "res_ok (readInt8 b') (\<lambda>(r, b'). r = u \<and> holds [] b')" if "holds [chr_of u] b'" for b'
    using holds_readInt8 [OF that] by simp
  show ?thesis
    using step [OF holds_appendInt(1) [OF assms] holds_readInt64 [of _ "[]", unfolded append_Nil2]]
      step [OF holds_appendInt(2) [OF assms] holds_readInt32 [of _ "[]", unfolded append_Nil2]]
      step [OF holds_appendInt(3) [OF assms] holds_readInt16 [of _ "[]", unfolded append_Nil2]]
      step [OF holds_appendInt(4) [OF assms] rd8]
    by (intro conjI) assumption+
qed

theorem Buffer_int_roundtrip_witness:
  "res_ok (bind_res (appendInt32 (new_Buffer 4) 0x12345678)
     (\<lambda>b1. bind_res (retrieve b1 0) readInt32)) (\<lambda>(r, b'). r = 0x12345678 \<and> holds [] b')"
  using Buffer_int_roundtrip [OF holds_new_Buffer [of 4], of 0 "0x12345678" 0 0] by simp

text \<open>
  C38. \<open>readFd\<close> appends exactly the bytes the system call delivered, and reports their
  number, whether they fit the writable space or spill into the stack buffer.
\<close>

theorem readFd_appends:
  assumes "holds s b"
    and "readv (if writableBytes b < extrabuf_size then [writableBytes b, extrabuf_size]
                else [writableBytes b]) = Inr data"
  shows "res_ok (readFd readv b) (\<lambda>(n, b'). n = Inr (length data) \<and> holds (s @ data) b')"
  using assms by (rule holds_readFd)

theorem readFd_appends_witness:
  "res_ok (readFd (\<lambda>vec. Inr ''GET /'') (new_Buffer 2))
     (\<lambda>(n, b'). n = Inr 5 \<and> holds ''GET /'' b')"
  using readFd_appends [OF holds_new_Buffer [of 2], of "\<lambda>vec. Inr ''GET /''" "''GET /''"]
  by (simp add: numeral_eq_Suc)

end
