(* ===== verification/Fcgi_Wire.thy ===== *)
theory Fcgi_Wire
  imports Endian
begin

text \<open>
  The FastCGI protocol on byte strings, the specification both codecs are measured against:
  the layout of a record, the split of a byte stream into records and an incomplete rest, the
  name-value pairs of the parameter stream, and the effect of a record on the state of a
  connection. The layouts are those quoted in the comments of \<^verbatim>\<open>cocgi/fastcgi.cpp\<close> from
  the FastCGI specification. Nothing here models code; every function is executable.
\<close>

section \<open>Name-value pairs on the wire\<close>

text \<open>
  A length as the FastCGI specification defines it: one byte below 128, or four bytes in
  network order with the top bit set.
\<close>

fun nv_len :: "bytes \<Rightarrow> (nat \<times> bytes) option" where
  "nv_len [] = None"
| "nv_len (c # cs) =
     (if (of_char c :: nat) < 128 then Some (of_char c, cs)
      else case cs of
        b2 # b1 # b0 # rest \<Rightarrow>
          Some ((of_char c mod 128) * 2 ^ 24 + of_char b2 * 2 ^ 16 + of_char b1 * 2 ^ 8 + of_char b0, rest)
      | _ \<Rightarrow> None)"

lemma nv_len_length: "nv_len s = Some (n, s') \<Longrightarrow> length s' < length s"
  by (cases s) (auto split: if_splits list.splits)

lemma four_bytes_bound:
  "(a :: nat) < 128 \<Longrightarrow> b < 256 \<Longrightarrow> c < 256 \<Longrightarrow> d < 256 \<Longrightarrow>
   a * 2 ^ 24 + b * 2 ^ 16 + c * 2 ^ 8 + d < 2 ^ 31"
  by simp

lemma four_bytes_mod:
  assumes "(b :: nat) < 256" "c < 256" "d < 256"
  shows "(a * 2 ^ 24 + b * 2 ^ 16 + c * 2 ^ 8 + d) mod 2 ^ 31
    = a mod 128 * 2 ^ 24 + b * 2 ^ 16 + c * 2 ^ 8 + d"
proof -
  have "a * 2 ^ 24 = (a div 128 * 128 + a mod 128) * 2 ^ 24" by simp
  also have "\<dots> = a div 128 * 2 ^ 31 + a mod 128 * 2 ^ 24" by (simp only: distrib_right) simp
  finally have eq: "a * 2 ^ 24 + b * 2 ^ 16 + c * 2 ^ 8 + d
      = (a mod 128 * 2 ^ 24 + b * 2 ^ 16 + c * 2 ^ 8 + d) + (a div 128) * 2 ^ 31" by simp
  have "a mod 128 * 2 ^ 24 + b * 2 ^ 16 + c * 2 ^ 8 + d < 2 ^ 31"
    using assms by (intro four_bytes_bound) simp_all
  then show ?thesis unfolding eq by (simp only: mod_mult_self1 mod_less)
qed

lemma nv_len_bound: "nv_len s = Some (n, s') \<Longrightarrow> n < 2 ^ 31"
proof (cases s)
  case (Cons c cs)
  assume *: "nv_len s = Some (n, s')"
  have b: "(of_char x :: nat) < 256" for x by simp
  show ?thesis
  proof (cases "(of_char c :: nat) < 128")
    case False
    with * Cons obtain b2 b1 b0 where
      n: "n = (of_char c mod 128) * 2 ^ 24 + of_char b2 * 2 ^ 16 + of_char b1 * 2 ^ 8 + of_char b0"
      by (auto split: list.splits)
    show ?thesis unfolding n by (rule four_bytes_bound) simp_all
  qed (use * Cons in auto)
qed simp

function nv_parse :: "bytes \<Rightarrow> param_map \<Rightarrow> bool \<times> bytes \<times> param_map" where
  "nv_parse s m =
     (if s = [] then (True, s, m)
      else case nv_len s of
        None \<Rightarrow> (False, s, m)
      | Some (n, s1) \<Rightarrow>
          (case nv_len s1 of
             None \<Rightarrow> (False, s1, m)
           | Some (v, s2) \<Rightarrow>
               if n + v \<le> length s2
               then nv_parse (drop (n + v) s2) (m(take n s2 \<mapsto> take v (drop n s2)))
               else (False, s2, m)))"
  by pat_completeness auto
termination
  by (relation "measure (\<lambda>(s, m). length s)") (auto dest!: nv_len_length)

declare nv_parse.simps [simp del]

definition encode_len :: "nat \<Rightarrow> bytes" where
  "encode_len n =
     (if n < 128 then [char_of n]
      else [char_of (128 + n div 2 ^ 24), char_of (n div 2 ^ 16 mod 256), char_of (n div 2 ^ 8 mod 256),
            char_of (n mod 256)])"

definition encode_pair :: "string \<times> string \<Rightarrow> bytes" where
  "encode_pair kv = encode_len (length (fst kv)) @ encode_len (length (snd kv)) @ fst kv @ snd kv"

lemma base256_digits:
  "n div 2 ^ 24 * 2 ^ 24 + n div 2 ^ 16 mod 256 * 2 ^ 16 + n div 2 ^ 8 mod 256 * 2 ^ 8 + n mod 256
    = (n :: nat)"
proof -
  have digits: "q3 * 2 ^ 24 + r2 * 2 ^ 16 + r1 * 2 ^ 8 + r0 = n"
    if "n = q1 * 256 + r0" "q1 = q2 * 256 + r1" "q2 = q3 * 256 + r2" for q1 q2 q3 r0 r1 r2 :: nat
    using that by simp
  have "n div 2 ^ 16 = n div 2 ^ 8 div 256" "n div 2 ^ 24 = n div 2 ^ 16 div 256"
    by (simp_all add: div_mult2_eq [symmetric])
  then show ?thesis by (intro digits [of "n div 2 ^ 8" _ "n div 2 ^ 16"]) simp_all
qed

lemma nv_len_encode:
  assumes "n < 2 ^ 31"
  shows "nv_len (encode_len n @ s) = Some (n, s)"
proof (cases "n < 128")
  case True
  then show ?thesis by (simp add: encode_len_def)
next
  case False
  have top: "n div 2 ^ 24 < 128" using assms by (simp add: div_less_iff_less_mult)
  from False top base256_digits [of n] show ?thesis by (simp add: encode_len_def)
qed

lemma nv_parse_encode:
  assumes "\<forall>(k, v) \<in> set kvs. length k < 2 ^ 31 \<and> length v < 2 ^ 31"
  shows "nv_parse (concat (map encode_pair kvs)) m = (True, [], map_assign m kvs)"
  using assms
proof (induction kvs arbitrary: m)
  case Nil
  then show ?case by (simp add: nv_parse.simps)
next
  case (Cons kv kvs)
  obtain k v where kv: "kv = (k, v)" by (cases kv)
  have "encode_len n \<noteq> []" for n by (simp add: encode_len_def)
  with Cons.prems kv show ?case
    by (subst nv_parse.simps) (simp add: encode_pair_def nv_len_encode Cons.IH fun_upd_def)
qed

section \<open>Records on the wire\<close>

record fcgi_record =
  r_version :: "8 word"
  r_type :: "8 word"
  r_id :: "16 word"
  r_content :: bytes
  r_padding :: bytes
  r_reserved :: "8 word"

definition wf_record :: "fcgi_record \<Rightarrow> bool" where
  "wf_record r \<longleftrightarrow> length (r_content r) < 2 ^ 16 \<and> length (r_padding r) < 2 ^ 8"

definition encode_record :: "fcgi_record \<Rightarrow> bytes" where
  "encode_record r =
     [chr_of (r_version r), chr_of (r_type r)] @ be_bytes 2 (r_id r)
     @ be_bytes 2 (of_nat (length (r_content r)) :: 16 word)
     @ [chr_of (of_nat (length (r_padding r))), chr_of (r_reserved r)]
     @ r_content r @ r_padding r"

text \<open>The lengths in the header at the front of a byte string of at least eight bytes.\<close>

definition wire_len :: "bytes \<Rightarrow> nat" where
  "wire_len bs = unat (hton16 (le_load (take 2 (drop 4 bs))))"

definition wire_pad :: "bytes \<Rightarrow> nat" where
  "wire_pad bs = of_char (bs ! 6)"

definition complete :: "bytes \<Rightarrow> bool" where
  "complete bs \<longleftrightarrow> 8 \<le> length bs \<and> 8 + wire_len bs + wire_pad bs \<le> length bs"

definition first_record :: "bytes \<Rightarrow> fcgi_record" where
  "first_record bs =
     \<lparr>r_version = byte_of (bs ! 0), r_type = byte_of (bs ! 1),
      r_id = hton16 (le_load (take 2 (drop 2 bs))),
      r_content = take (wire_len bs) (drop 8 bs),
      r_padding = take (wire_pad bs) (drop (8 + wire_len bs) bs),
      r_reserved = byte_of (bs ! 7)\<rparr>"

function wire_records :: "bytes \<Rightarrow> fcgi_record list \<times> bytes" where
  "wire_records bs =
     (if complete bs
      then let (rs, rest) = wire_records (drop (8 + wire_len bs + wire_pad bs) bs)
           in (first_record bs # rs, rest)
      else ([], bs))"
  by pat_completeness auto
termination
  by (relation "measure length") (auto simp: complete_def)

declare wire_records.simps [simp del]

lemma length_encode_record: "length (encode_record r) = 8 + length (r_content r) + length (r_padding r)"
  by (simp add: encode_record_def)

lemma wire_len_bound: "wire_len bs < 2 ^ 16"
  using unsigned_less [of "hton16 (le_load (take 2 (drop 4 bs)))"] by (simp add: wire_len_def)

lemma header8: "8 \<le> length bs \<Longrightarrow>
  \<exists>a b c d e f g h cs. bs = a # b # c # d # e # f # g # h # cs"
  by (auto simp: numeral_eq_Suc Suc_le_length_iff)

lemma first_record_encode:
  assumes "wf_record r"
  shows "complete (encode_record r @ rest)" "first_record (encode_record r @ rest) = r"
    "wire_len (encode_record r @ rest) = length (r_content r)"
    "wire_pad (encode_record r @ rest) = length (r_padding r)"
proof -
  from assms have len: "unat (of_nat (length (r_content r)) :: 16 word) = length (r_content r)"
    and pad: "unat (of_nat (length (r_padding r)) :: 8 word) = length (r_padding r)"
    by (simp_all add: wf_record_def unat_of_nat)
  show l: "wire_len (encode_record r @ rest) = length (r_content r)"
    using len co16.conv_load by (simp add: wire_len_def encode_record_def numeral_eq_Suc be_bytes_2)
  show p: "wire_pad (encode_record r @ rest) = length (r_padding r)"
    using pad by (simp add: wire_pad_def encode_record_def be_bytes_2)
  show "complete (encode_record r @ rest)"
    by (simp add: complete_def l p length_encode_record)
  show "first_record (encode_record r @ rest) = r"
    using co16.conv_load [of "r_id r"]
    by (simp add: first_record_def l p, unfold encode_record_def be_bytes_2, simp add: numeral_eq_Suc)
qed

lemma encode_first_record:
  assumes "complete bs"
  shows "wf_record (first_record bs)"
    "encode_record (first_record bs) = take (8 + wire_len bs + wire_pad bs) bs"
proof -
  let ?n = "wire_len bs" and ?p = "wire_pad bs"
  from assms have le: "8 + ?n + ?p \<le> length bs" by (simp add: complete_def)
  then obtain c0 c1 c2 c3 c4 c5 c6 c7 cs where bs: "bs = c0 # c1 # c2 # c3 # c4 # c5 # c6 # c7 # cs"
    using header8 [of bs] by auto
  have len: "length (r_content (first_record bs)) = ?n" "length (r_padding (first_record bs)) = ?p"
    using le by (simp_all add: first_record_def)
  then show "wf_record (first_record bs)"
    using wire_len_bound [of bs] by (simp add: wf_record_def wire_pad_def)
  have "be_bytes 2 (of_nat ?n :: 16 word) = [c4, c5]"
    using co16.be_bytes_conv_load [of "[c4, c5]"] by (simp add: wire_len_def bs numeral_eq_Suc)
  moreover have "be_bytes 2 (r_id (first_record bs)) = [c2, c3]"
    using co16.be_bytes_conv_load [of "[c2, c3]"] by (simp add: first_record_def bs numeral_eq_Suc)
  moreover have "chr_of (of_nat ?p) = c6"
    by (simp add: wire_pad_def bs chr_of_def unat_of_nat)
  moreover have "take (8 + ?n + ?p) bs
      = take 8 bs @ take ?n (drop 8 bs) @ take ?p (drop (8 + ?n) bs)"
    by (metis add.assoc append.assoc take_add)
  ultimately show "encode_record (first_record bs) = take (8 + ?n + ?p) bs"
    by (simp add: encode_record_def len) (simp add: first_record_def bs numeral_eq_Suc)
qed

text \<open>The split is exact: it loses no byte and its rest holds no complete record.\<close>

lemma wire_records_exact:
  "concat (map encode_record (fst (wire_records bs))) @ snd (wire_records bs) = bs
   \<and> (\<forall>r \<in> set (fst (wire_records bs)). wf_record r) \<and> \<not> complete (snd (wire_records bs))"
proof (induction bs rule: wire_records.induct)
  case (1 bs)
  show ?case
  proof (cases "complete bs")
    case True
    with 1 encode_first_record [OF True] show ?thesis
      by (subst (1 2 3 4) wire_records.simps) (simp add: split_beta append_take_drop_id)
  qed (simp add: wire_records.simps [of bs])
qed

text \<open>The split is unique: the records that were written are the records that are read.\<close>

lemma wire_records_Cons:
  assumes "wf_record r"
  shows "wire_records (encode_record r @ bs) = (r # fst (wire_records bs), snd (wire_records bs))"
  using first_record_encode [OF assms]
  by (subst wire_records.simps) (simp add: split_beta length_encode_record [symmetric])

lemma wire_records_encode:
  assumes "\<forall>r \<in> set rs. wf_record r" and "\<not> complete rest"
  shows "wire_records (concat (map encode_record rs) @ rest) = (rs, rest)"
  using assms
  by (induction rs) (auto simp: wire_records_Cons wire_records.simps [of rest])

lemma wire_records_append:
  "wire_records (bs @ cs) =
     (fst (wire_records bs) @ fst (wire_records (snd (wire_records bs) @ cs)),
      snd (wire_records (snd (wire_records bs) @ cs)))"
proof -
  have "wire_records (concat (map encode_record rs) @ rest @ cs)
      = (rs @ fst (wire_records (rest @ cs)), snd (wire_records (rest @ cs)))"
    if "\<forall>r \<in> set rs. wf_record r" for rs rest
    using that by (induction rs) (auto simp: wire_records_Cons)
  from this [of "fst (wire_records bs)" "snd (wire_records bs)"] wire_records_exact [of bs]
  show ?thesis by (metis append_assoc)
qed

section \<open>The effect of a record\<close>

record fcgi_state =
  s_got :: bool
  s_keep :: bool
  s_stdin :: bytes
  s_stream :: bytes
  s_params :: param_map

definition init_state :: fcgi_state where
  "init_state = \<lparr>s_got = False, s_keep = False, s_stdin = [], s_stream = [], s_params = Map.empty\<rparr>"

text \<open>
  Type 1 begins a request (role and flags in the first three bytes of its body), type 4 is a
  piece of the parameter stream and type 5 a piece of the standard input; an empty record ends
  its stream. Every other type is ignored.
\<close>

definition fcgi_step :: "fcgi_state \<Rightarrow> fcgi_record \<Rightarrow> fcgi_state" where
  "fcgi_step s r =
     (let body = r_content r
      in if r_type r = 1 then
           (if 8 \<le> length body \<and> take 2 body = [CHR 0x00, CHR 0x01]
            then s\<lparr>s_keep := (body ! 2 = CHR 0x01)\<rparr> else s)
         else if r_type r = 4 then
           (if body \<noteq> [] then s\<lparr>s_stream := s_stream s @ body\<rparr>
            else case nv_parse (s_stream s) (s_params s) of
                   (_, rest, m) \<Rightarrow> s\<lparr>s_stream := rest, s_params := m\<rparr>)
         else if r_type r = 5 then
           (if body \<noteq> [] then s\<lparr>s_stdin := s_stdin s @ body\<rparr> else s\<lparr>s_got := True\<rparr>)
         else s)"

definition fcgi_run :: "fcgi_state \<Rightarrow> bytes \<Rightarrow> fcgi_state \<times> bytes" where
  "fcgi_run s bs = (foldl fcgi_step s (fst (wire_records bs)), snd (wire_records bs))"

lemma fcgi_run_append:
  "fcgi_run s (bs @ cs) = fcgi_run (fst (fcgi_run s bs)) (snd (fcgi_run s bs) @ cs)"
  by (simp add: fcgi_run_def wire_records_append [of bs cs])

section \<open>A response on the wire\<close>

fun chunks :: "nat \<Rightarrow> 'a list \<Rightarrow> 'a list list" where
  "chunks n xs = (if n = 0 \<or> xs = [] then [] else take n xs # chunks n (drop n xs))"

declare chunks.simps [simp del]

definition stdout_record :: "bytes \<Rightarrow> fcgi_record" where
  "stdout_record text =
     \<lparr>r_version = 1, r_type = 6, r_id = 1, r_content = text,
      r_padding = replicate ((8 - length text mod 8) mod 8) (CHR 0x00), r_reserved = 0\<rparr>"

definition end_request_record :: fcgi_record where
  "end_request_record =
     \<lparr>r_version = 1, r_type = 3, r_id = 1, r_content = replicate 8 (CHR 0x00), r_padding = [],
      r_reserved = 0\<rparr>"

definition response_records :: "string \<Rightarrow> fcgi_record list" where
  "response_records text =
     map stdout_record (chunks 65535 text) @ [stdout_record [], end_request_record]"

lemma chunks_Nil [simp]: "chunks n [] = []"
  by (simp add: chunks.simps)

lemma concat_chunks: "0 < n \<Longrightarrow> concat (chunks n xs) = xs"
proof (induction n xs rule: chunks.induct)
  case (1 n xs)
  then show ?case by (cases "xs = []") (simp_all add: chunks.simps [of n xs])
qed

lemma chunks_bound: "c \<in> set (chunks n xs) \<Longrightarrow> length c \<le> n \<and> c \<noteq> []"
proof (induction n xs rule: chunks.induct)
  case (1 n xs)
  then show ?case by (subst (asm) (2) chunks.simps) (auto split: if_splits)
qed

lemma chunks_short: "xs \<noteq> [] \<Longrightarrow> length xs \<le> n \<Longrightarrow> chunks n xs = [xs]"
  by (cases "n = 0") (simp_all add: chunks.simps)

lemma chunks_blocks:
  assumes "0 < n"
  shows "chunks n xs = map (\<lambda>i. take n (drop (i * n) xs)) [0..<length xs div n]
    @ (if length xs mod n = 0 then [] else [drop (n * (length xs div n)) xs])"
proof (induction "length xs div n" arbitrary: xs)
  case 0
  then have "length xs < n" using assms by (simp add: div_eq_0_iff)
  then show ?case using assms chunks_short [of xs n] by auto
next
  case (Suc k)
  from Suc.hyps(2) have n: "n \<le> length xs" by (metis div_less not_less nat.distinct(1))
  then have k: "length (drop n xs) div n = k" "length (drop n xs) mod n = length xs mod n"
    using Suc.hyps(2) assms by (simp_all add: le_div_geq le_mod_geq)
  have ne: "xs \<noteq> []" using n assms by auto
  have "[0..<Suc k] = 0 # map Suc [0..<k]" by (simp add: upt_conv_Cons map_Suc_upt)
  then have "map (\<lambda>i. take n (drop (i * n) xs)) [0..<Suc k]
      = take n xs # map (\<lambda>i. take n (drop (i * n) (drop n xs))) [0..<k]"
    by (simp add: add.commute)
  moreover have "drop (n * k) (drop n xs) = drop (n * Suc k) xs"
    by (simp add: add.commute)
  ultimately show ?case
    using Suc.hyps(1) [of "drop n xs"] Suc.hyps(2) k ne assms
    by (subst chunks.simps) simp
qed

lemma wf_stdout_record: "length text < 2 ^ 16 \<Longrightarrow> wf_record (stdout_record text)"
  by (simp add: wf_record_def stdout_record_def less_le_trans [OF mod_less_divisor])

lemma wf_end_request_record: "wf_record end_request_record"
  by (simp add: wf_record_def end_request_record_def)

lemma wf_response_records: "r \<in> set (response_records text) \<Longrightarrow> wf_record r"
  by (auto simp: response_records_def wf_end_request_record dest!: chunks_bound
      intro!: wf_stdout_record)

lemma pad_aligned: "8 dvd n + (8 - n mod 8) mod (8 :: nat)"
proof (cases "n mod 8 = 0")
  case True
  then show ?thesis by (simp add: mod_0_imp_dvd)
next
  case False
  then have "n + (8 - n mod 8) mod 8 = 8 * (n div 8) + n mod 8 + (8 - n mod 8)" by simp
  also have "\<dots> = 8 * (n div 8) + 8"
    using mod_less_divisor [of 8 n] by (simp only: add.assoc le_add_diff_inverse less_imp_le zero_less_numeral)
  finally show ?thesis by (simp only: dvd_add dvd_triv_left dvd_refl)
qed

lemma aligned_stdout_record: "8 dvd length (encode_record (stdout_record text))"
  using pad_aligned [of "length text"]
  by (simp add: length_encode_record stdout_record_def add.assoc)

section \<open>A request on the wire\<close>

text \<open>
  The types and contents of the records of a request: the begin record, the pieces of the
  parameter stream and of the standard input, each stream closed by an empty record. Versions,
  ids, paddings and the places where the streams are cut are the sender's choice.
\<close>

definition record_part :: "fcgi_record \<Rightarrow> 8 word \<times> bytes" where
  "record_part r = (r_type r, r_content r)"

definition request_parts :: "bytes \<Rightarrow> bytes list \<Rightarrow> bytes list \<Rightarrow> (8 word \<times> bytes) list" where
  "request_parts body ps ss = (1, body) # map (Pair 4) ps @ [(4, [])] @ map (Pair 5) ss @ [(5, [])]"

definition step_part :: "fcgi_state \<Rightarrow> 8 word \<times> bytes \<Rightarrow> fcgi_state" where
  "step_part s p = fcgi_step s \<lparr>r_version = 1, r_type = fst p, r_id = 1, r_content = snd p,
     r_padding = [], r_reserved = 0\<rparr>"

lemma foldl_step_part: "foldl fcgi_step s rs = foldl step_part s (map record_part rs)"
  by (induction rs arbitrary: s) (simp_all add: step_part_def record_part_def fcgi_step_def Let_def)

lemma foldl_params_parts:
  "[] \<notin> set ps \<Longrightarrow>
   foldl step_part s (map (Pair 4) ps) = s\<lparr>s_stream := s_stream s @ concat ps\<rparr>"
  by (induction ps arbitrary: s) (auto simp: step_part_def fcgi_step_def)

lemma foldl_stdin_parts:
  "[] \<notin> set ss \<Longrightarrow>
   foldl step_part s (map (Pair 5) ss) = s\<lparr>s_stdin := s_stdin s @ concat ss\<rparr>"
  by (induction ss arbitrary: s) (auto simp: step_part_def fcgi_step_def)

lemma fcgi_request:
  assumes "map record_part rs = request_parts body ps ss"
    and "[] \<notin> set ps" and "[] \<notin> set ss"
    and "8 \<le> length body" and "take 2 body = [CHR 0x00, CHR 0x01]"
    and "concat ps = concat (map encode_pair kvs)"
    and "\<forall>(k, v) \<in> set kvs. length k < 2 ^ 31 \<and> length v < 2 ^ 31"
  shows "foldl fcgi_step init_state rs =
    \<lparr>s_got = True, s_keep = (body ! 2 = CHR 0x01), s_stdin = concat ss, s_stream = [],
     s_params = map_of (rev kvs)\<rparr>"
  unfolding foldl_step_part assms(1) request_parts_def
  using assms(2-6) nv_parse_encode [OF assms(7), of Map.empty]
  by (simp add: foldl_params_parts foldl_stdin_parts)
    (simp add: step_part_def fcgi_step_def init_state_def map_assign_eq)

section \<open>Decoders\<close>

text \<open>
  What a codec promises to the connection that feeds it: the state \<open>st\<close> represents a
  protocol state and the bytes received but not yet decoded, and receiving \<open>data\<close> advances
  both as the specification does, without a fault.
\<close>

locale fcgi_decoder =
  fixes rel :: "fcgi_state \<Rightarrow> bytes \<Rightarrow> 's \<Rightarrow> bool"
    and receive :: "'s \<Rightarrow> bytes \<Rightarrow> cxx_fault + 's"
  assumes receive_ok: "rel s bs st \<Longrightarrow>
    res_ok (receive st data) (rel (fst (fcgi_run s (bs @ data))) (snd (fcgi_run s (bs @ data))))"
begin

lemma receive_all:
  "rel s bs st \<Longrightarrow> bs = snd (fcgi_run s bs) \<Longrightarrow> s = fst (fcgi_run s bs) \<Longrightarrow>
   res_ok (run_all receive st ds)
    (rel (fst (fcgi_run s (bs @ concat ds))) (snd (fcgi_run s (bs @ concat ds))))"
proof (induction ds arbitrary: s bs st)
  case Nil
  then show ?case by simp
next
  case (Cons d ds)
  let ?s = "fst (fcgi_run s (bs @ d))" and ?bs = "snd (fcgi_run s (bs @ d))"
  have "wire_records ?bs = ([], ?bs)"
    using wire_records_exact [of "bs @ d"] by (simp add: fcgi_run_def wire_records.simps [of "snd _"])
  then have stable: "?bs = snd (fcgi_run ?s ?bs)" "?s = fst (fcgi_run ?s ?bs)"
    by (simp_all add: fcgi_run_def)
  have "fcgi_run s (bs @ concat (d # ds)) = fcgi_run ?s (?bs @ concat ds)"
    using fcgi_run_append [of s "bs @ d" "concat ds"] by simp
  then show ?case
    using res_ok_bind [OF receive_ok [OF Cons.prems(1)] Cons.IH [OF _ stable]] by simp
qed

text \<open>How the input is cut into reads does not matter.\<close>

lemma receive_stream:
  assumes "rel init_state [] st"
  shows "res_ok (run_all receive st ds)
    (rel (fst (fcgi_run init_state (concat ds))) (snd (fcgi_run init_state (concat ds))))"
proof -
  have "\<not> complete []" by (simp add: complete_def)
  then have "fcgi_run init_state [] = (init_state, [])"
    by (simp add: fcgi_run_def wire_records.simps)
  with receive_all [OF assms] show ?thesis by simp
qed

lemma receive_request:
  assumes "rel init_state [] st"
    and "concat ds = concat (map encode_record rs)" and "\<forall>r \<in> set rs. wf_record r"
    and "map record_part rs = request_parts body ps ss" and "[] \<notin> set ps" and "[] \<notin> set ss"
    and "8 \<le> length body" and "take 2 body = [CHR 0x00, CHR 0x01]"
    and "concat ps = concat (map encode_pair kvs)"
    and "\<forall>(k, v) \<in> set kvs. length k < 2 ^ 31 \<and> length v < 2 ^ 31"
  shows "res_ok (run_all receive st ds)
    (rel \<lparr>s_got = True, s_keep = (body ! 2 = CHR 0x01), s_stdin = concat ss, s_stream = [],
          s_params = map_of (rev kvs)\<rparr> [])"
proof -
  have "wire_records (concat ds) = (rs, [])"
    using wire_records_encode [OF assms(3), of "[]"] assms(2) by (simp add: complete_def)
  with receive_stream [OF assms(1), of ds] fcgi_request [OF assms(4-10)] show ?thesis
    by (simp add: fcgi_run_def)
qed

end

lemma got_parts:
  "(5, []) \<notin> set parts \<Longrightarrow> s_got (foldl step_part s parts) = s_got s"
proof (induction parts arbitrary: s)
  case Nil
  then show ?case by simp
next
  case (Cons p ps)
  then have "s_got (step_part s p) = s_got s"
    by (cases p) (auto simp: step_part_def fcgi_step_def Let_def split: prod.splits)
  with Cons show ?case by simp
qed

text \<open>No proper prefix of a request completes it.\<close>

lemma proper_prefix_incomplete:
  assumes "concat (map encode_record rs) = p @ q" and "q \<noteq> []" and "\<forall>r \<in> set rs. wf_record r"
    and "map record_part rs = request_parts body ps ss" and "[] \<notin> set ss"
  shows "\<not> s_got (fst (fcgi_run init_state p))"
proof -
  let ?rs = "fst (wire_records p)"
  have "wire_records (p @ q) = (rs, [])"
    using wire_records_encode [OF assms(3), of "[]"] assms(1) by (simp add: complete_def)
  then obtain rs' where rs': "rs = ?rs @ rs'" "snd (wire_records (snd (wire_records p) @ q)) = []"
    "rs' = fst (wire_records (snd (wire_records p) @ q))"
    by (metis fst_conv snd_conv wire_records_append)
  have "rs' \<noteq> []"
  proof
    assume "rs' = []"
    with rs' wire_records_exact [of "snd (wire_records p) @ q"] have "snd (wire_records p) @ q = []" by simp
    with assms(2) show False by simp
  qed
  then have pre: "prefix (map record_part ?rs) (butlast (request_parts body ps ss))"
    using assms(4) rs'(1) by (metis (no_types, lifting) append_butlast_last_id butlast_append map_append
        map_is_Nil_conv prefixI)
  have "(5, []) \<notin> set (butlast (request_parts body ps ss))"
    using assms(5) by (auto simp: request_parts_def butlast_append)
  with pre have "(5, []) \<notin> set (map record_part ?rs)" by (meson set_mono_prefix subsetD)
  from got_parts [OF this, of init_state] show ?thesis
    by (simp add: fcgi_run_def foldl_step_part init_state_def)
qed

end
