(* ===== verification/Fcgi_Codec.thy ===== *)
theory Fcgi_Codec
  imports Buffer Fcgi_Wire
begin

text \<open>
  The FastCGI codec of cocgi (\<^verbatim>\<open>cocgi/fastcgi.h\<close> and \<^verbatim>\<open>cocgi/fastcgi.cpp\<close> without the
  request handling, which is in \<open>Co_Request\<close>): the state of the class, the record parser, the
  decoding of the name-value pairs and the response encoder. The second part proves
  that the parser and the encoder implement the protocol as theory \<open>Fcgi_Wire\<close> specifies it on byte strings.
\<close>

section \<open>Data\<close>

record FcgiRecordHeader =
  h_version :: "8 word"
  h_type :: "8 word"
  h_id :: "16 word"
  h_length :: "16 word"
  h_padding :: "8 word"
  h_unused :: "8 word"

definition FCGI_MAX_CONTENT_LENGTH :: nat where "FCGI_MAX_CONTENT_LENGTH = 0xffff"

definition kRecordHeader :: nat where "kRecordHeader = 8"

datatype FcgiType =
    kFcgiInvalid | kFcgiBeginRequest | kFcgiAbortRequest | kFcgiEndRequest | kFcgiParams
  | kFcgiStdin | kFcgiStdout | kFcgiStderr | kFcgiData | kFcgiGetValues | kFcgiGetValuesResult

fun type_code :: "FcgiType \<Rightarrow> 8 word" where
  "type_code kFcgiInvalid = 0"
| "type_code kFcgiBeginRequest = 1"
| "type_code kFcgiAbortRequest = 2"
| "type_code kFcgiEndRequest = 3"
| "type_code kFcgiParams = 4"
| "type_code kFcgiStdin = 5"
| "type_code kFcgiStdout = 6"
| "type_code kFcgiStderr = 7"
| "type_code kFcgiData = 8"
| "type_code kFcgiGetValues = 9"
| "type_code kFcgiGetValuesResult = 10"

datatype FcgiRole = kFcgiResponder | kFcgiAuthorizer

fun role_code :: "FcgiRole \<Rightarrow> 16 word" where
  "role_code kFcgiResponder = 1"
| "role_code kFcgiAuthorizer = 2"

definition kFcgiKeepConn :: "8 word" where "kFcgiKeepConn = 1"

text \<open>The header object in memory: what \<open>memcpy\<close> reads into it and \<open>append\<close> writes from it.\<close>

definition load_header :: "bytes \<Rightarrow> FcgiRecordHeader" where
  "load_header m =
     \<lparr>h_version = byte_of (m ! 0), h_type = byte_of (m ! 1),
      h_id = le_load (take 2 (drop 2 m)), h_length = le_load (take 2 (drop 4 m)),
      h_padding = byte_of (m ! 6), h_unused = byte_of (m ! 7)\<rparr>"

definition header_bytes :: "FcgiRecordHeader \<Rightarrow> bytes" where
  "header_bytes h =
     [chr_of (h_version h), chr_of (h_type h)] @ le_bytes 2 (h_id h) @ le_bytes 2 (h_length h)
     @ [chr_of (h_padding h), chr_of (h_unused h)]"

record codec =
  m_gotRequest :: bool
  m_keepConn :: bool
  m_buf :: buffer
  m_stdin :: buffer
  m_paramsStream :: buffer
  m_params :: param_map

definition new_FastCgiCodec :: codec where
  "new_FastCgiCodec =
     \<lparr>m_gotRequest = False, m_keepConn = False, m_buf = new_Buffer kInitialSize,
      m_stdin = new_Buffer kInitialSize, m_paramsStream = new_Buffer kInitialSize,
      m_params = Map.empty\<rparr>"

section \<open>Parsing\<close>

definition readInt16_at :: "bytes \<Rightarrow> 16 word" where
  "readInt16_at p = ntoh16 (le_load (take 2 p))"

text \<open>\<open>readLen\<close> works on \<open>m_paramsStream\<close> only; it returns \<open>-1\<close> as a \<open>uint32_t\<close> on error.\<close>

definition readLen :: "buffer \<Rightarrow> (32 word \<times> buffer) res" where
  "readLen b =
     (if readableBytes b \<ge> 1 then
        bind_res (peekInt8 b) (\<lambda>byte.
          if byte AND 0x80 \<noteq> 0 then
            (if readableBytes b \<ge> 4
             then bind_res (readInt32 b) (\<lambda>(x, b'). Inr (x AND 0x7fffffff, b'))
             else Inr (-1, b))
          else bind_res (readInt8 b) (\<lambda>(x, b'). Inr (scast x, b')))
      else Inr (-1, b))"

lemma retrieve_readable: "retrieve b n = Inr b' \<Longrightarrow> readableBytes b' = readableBytes b - n"
  by (auto simp: retrieve_def retrieveAll_def readableBytes_def res_simps split: if_splits)

lemma retrieve_le: "retrieve b n = Inr b' \<Longrightarrow> n \<le> readableBytes b"
  by (simp add: retrieve_def res_simps)

lemma retrieveAsString_readable:
  "retrieveAsString b n = Inr (s, b') \<Longrightarrow> readableBytes b' = readableBytes b - n"
  by (auto simp: retrieveAsString_def Let_def res_simps dest: retrieve_readable)

lemma readLen_decreases:
  "readLen b = Inr (n, b') \<Longrightarrow> n \<noteq> -1 \<Longrightarrow> readableBytes b' < readableBytes b"
  by (auto simp: readLen_def readInt32_def readInt8_def retrieveInt32_def retrieveInt8_def res_simps
      split: if_splits dest!: retrieve_readable)

text \<open>
  The loop of \<open>parseAllParams\<close> reads and writes two members only, \<open>m_paramsStream\<close> and
  \<open>m_params\<close>; the sum of the two lengths is a \<open>uint32_t\<close>.
\<close>

function params_loop :: "buffer \<Rightarrow> param_map \<Rightarrow> (bool \<times> buffer \<times> param_map) res" where
  "params_loop b m =
     (if readableBytes b > 0 then
        bind_res (readLen b) (\<lambda>(nameLen, b1).
          if nameLen = -1 then Inr (False, b1, m)
          else bind_res (readLen b1) (\<lambda>(valueLen, b2).
            if valueLen = -1 then Inr (False, b2, m)
            else if readableBytes b2 \<ge> unat (nameLen + valueLen) then
              bind_res (retrieveAsString b2 (unat nameLen)) (\<lambda>(name, b3).
                bind_res (retrieveAsString b3 (unat valueLen)) (\<lambda>(value, b4).
                  params_loop b4 (m(name \<mapsto> value))))
            else Inr (False, b2, m)))
      else Inr (True, b, m))"
  by pat_completeness auto
termination
  by (relation "measure (\<lambda>(b, m). readableBytes b)")
    (fastforce dest!: readLen_decreases retrieveAsString_readable)+

declare params_loop.simps [simp del]

definition parseAllParams :: "codec \<Rightarrow> (bool \<times> codec) res" where
  "parseAllParams st =
     bind_res (params_loop (m_paramsStream st) (m_params st))
       (\<lambda>(ok, b, m). Inr (ok, st\<lparr>m_paramsStream := b, m_params := m\<rparr>))"

definition onParams :: "codec \<Rightarrow> bytes \<Rightarrow> 16 word \<Rightarrow> (bool \<times> codec) res" where
  "onParams st data len =
     (if len > 0 then
        bind_res (append_buf (m_paramsStream st) (take (unat len) data))
          (\<lambda>b. Inr (True, st\<lparr>m_paramsStream := b\<rparr>))
      else bind_res (parseAllParams st) (\<lambda>(ok, st'). if \<not> ok then Inr (False, st') else Inr (True, st')))"

definition onStdin :: "codec \<Rightarrow> bytes \<Rightarrow> 16 word \<Rightarrow> codec res" where
  "onStdin st data len =
     (if len > 0 then
        bind_res (append_buf (m_stdin st) (take (unat len) data)) (\<lambda>b. Inr (st\<lparr>m_stdin := b\<rparr>))
      else Inr (st\<lparr>m_gotRequest := True\<rparr>))"

definition onBeginRequest :: "codec \<Rightarrow> FcgiRecordHeader \<Rightarrow> buffer \<Rightarrow> (bool \<times> codec) res" where
  "onBeginRequest st header buf =
     assert_res (readableBytes buf \<ge> unat (h_length header))
      (assert_res (h_type header = type_code kFcgiBeginRequest)
        (if unat (h_length header) \<ge> kRecordHeader then
           let role = readInt16_at (drop kRecordHeader (peek buf));
               flags = byte_of (peek buf ! (kRecordHeader + 2))
           in if role = role_code kFcgiResponder
              then Inr (True, st\<lparr>m_keepConn := (flags = kFcgiKeepConn)\<rparr>)
              else Inr (False, st)
         else Inr (False, st)))"

text \<open>
  The \<open>switch\<close> on the record type. The loop ignores the Boolean results of the handlers;
  \<open>kFcgiData\<close>, \<open>kFcgiGetValues\<close> and every other type are skipped.
\<close>

definition dispatch :: "codec \<Rightarrow> FcgiRecordHeader \<Rightarrow> codec res" where
  "dispatch st header =
     (let data = drop kRecordHeader (peek (m_buf st))
      in if h_type header = type_code kFcgiBeginRequest
         then bind_res (onBeginRequest st header (m_buf st)) (\<lambda>(_, st'). Inr st')
         else if h_type header = type_code kFcgiParams
         then bind_res (onParams st data (h_length header)) (\<lambda>(_, st'). Inr st')
         else if h_type header = type_code kFcgiStdin
         then onStdin st data (h_length header)
         else Inr st)"

lemma dispatch_m_buf: "dispatch st h = Inr st' \<Longrightarrow> m_buf st' = m_buf st"
  by (auto simp: dispatch_def Let_def onBeginRequest_def onParams_def onStdin_def
      parseAllParams_def res_simps split: if_splits prod.splits)

text \<open>\<open>parseFcgiPackage\<close> always returns \<open>true\<close>; its result is the new state.\<close>

definition record_total :: "FcgiRecordHeader \<Rightarrow> nat" where
  "record_total header = kRecordHeader + unat (h_length header) + unat (h_padding header)"

function parseFcgiPackage :: "codec \<Rightarrow> codec res" where
  "parseFcgiPackage st =
     (if readableBytes (m_buf st) \<ge> kRecordHeader then
        let raw = load_header (take kRecordHeader (peek (m_buf st)));
            header = raw\<lparr>h_id := ntoh16 (h_id raw), h_length := ntoh16 (h_length raw)\<rparr>;
            total = record_total header
        in if readableBytes (m_buf st) \<ge> total then
             bind_res (dispatch st header) (\<lambda>st1.
               bind_res (retrieve (m_buf st1) total) (\<lambda>b.
                 parseFcgiPackage (st1\<lparr>m_buf := b\<rparr>)))
           else Inr st
      else Inr st)"
  by pat_completeness auto
termination
  by (relation "measure (\<lambda>st. readableBytes (m_buf st))")
    (auto simp: record_total_def kRecordHeader_def dest!: dispatch_m_buf retrieve_readable)

declare parseFcgiPackage.simps [simp del]

section \<open>Reading the parameter stream\<close>

lemma holds_readInt32_raw:
  assumes "holds s b" and "4 \<le> length s"
  shows "res_ok (readInt32 b) (\<lambda>(r, b'). r = hton32 (le_load (take 4 s)) \<and> holds (drop 4 s) b')"
  using holds_retrieve [OF assms] assms
  by (auto simp: readInt32_def peekInt32_def retrieveInt32_def holds_readable holds_take_peek
      intro!: res_ok_bind)

lemma and_0x80: "(w :: 8 word) AND 0x80 \<noteq> 0 \<longleftrightarrow> 128 \<le> unat w"
proof -
  have w: "unat w < 256" using unsigned_less [of w] by simp
  have "w AND 0x80 = w AND 2 ^ 7" by simp
  then have "w AND 0x80 \<noteq> 0 \<longleftrightarrow> bit w 7"
    by (simp only: and_exp_eq_0_iff_not_bit not_not)
  also have "\<dots> \<longleftrightarrow> bit (unat w) 7" by (simp add: bit_unsigned_iff)
  also have "\<dots> \<longleftrightarrow> odd (unat w div 2 ^ 7)" by (rule bit_iff_odd)
  also have "\<dots> \<longleftrightarrow> 128 \<le> unat w"
  proof (cases "unat w < 128")
    case True
    then show ?thesis by simp
  next
    case False
    then have "unat w div 128 = 1" using w by (intro div_nat_eqI) simp_all
    with False show ?thesis by simp
  qed
  finally show ?thesis .
qed

lemma scast_small: "unat (w :: 8 word) < 128 \<Longrightarrow> unat (scast w :: 32 word) = unat w"
proof -
  assume w: "unat w < 128"
  then have "int (unat w) < int 128" by (simp only: of_nat_less_iff)
  then have "uint w < 128" by simp
  moreover have "-128 \<le> uint w" using uint_ge_0 [of w] by linarith
  ultimately have "sint w = uint w"
    by (simp add: sint_uint signed_take_bit_int_eq_self)
  then have "(scast w :: 32 word) = ucast w" by (metis scast_eq ucast_eq)
  then show ?thesis using w by (simp add: unsigned_ucast_eq take_bit_nat_eq_self)
qed

lemma small_not_minus_one: "unat (x :: 32 word) < 2 ^ 31 \<Longrightarrow> x \<noteq> -1"
  by (auto simp: unsigned_minus_1_eq_mask mask_eq_exp_minus_1)

lemma readLen_spec:
  assumes "holds s b"
  shows "res_ok (readLen b) (\<lambda>(n, b'). case nv_len s of
      None \<Rightarrow> n = -1 \<and> holds s b'
    | Some (k, s') \<Rightarrow> n \<noteq> -1 \<and> unat n = k \<and> holds s' b')"
proof (cases s)
  case Nil
  with assms show ?thesis by (simp add: readLen_def holds_readable)
next
  case (Cons c cs)
  have peek: "peekInt8 b = Inr (byte_of c)"
    using assms Cons by (simp add: peekInt8_def holds_readable holds_hd_peek)
  show ?thesis
  proof (cases "(of_char c :: nat) < 128")
    case True
    then have "unat (scast (byte_of c) :: 32 word) = of_char c" by (simp add: scast_small)
    moreover from this have "(scast (byte_of c) :: 32 word) \<noteq> -1"
      using True by (intro small_not_minus_one) simp
    ultimately show ?thesis
      using holds_readInt8 [of c cs b] assms Cons True peek
      by (auto simp: readLen_def holds_readable and_0x80 intro!: res_ok_bind)
  next
    case False
    show ?thesis
    proof (cases "length s < 4")
      case True
      with False assms Cons peek show ?thesis
        by (auto simp: readLen_def holds_readable and_0x80 split: list.splits)
    next
      case long: False
      then obtain b2 b1 b0 rest where s: "s = c # b2 # b1 # b0 # rest"
        using Cons by (auto simp: not_less numeral_eq_Suc Suc_le_length_iff)
      let ?r = "hton32 (le_load (take 4 s)) AND 0x7fffffff"
      have "le_value (rev [c, b2, b1, b0]) mod 2 ^ 31
          = of_char c mod 128 * 2 ^ 24 + of_char b2 * 2 ^ 16 + of_char b1 * 2 ^ 8 + of_char b0"
        using four_bytes_mod [of "of_char b2" "of_char b1" "of_char b0" "of_char c"]
        by (simp add: algebra_simps)
      then have r: "unat ?r
          = of_char c mod 128 * 2 ^ 24 + of_char b2 * 2 ^ 16 + of_char b1 * 2 ^ 8 + of_char b0"
        using hton32_load [of "[c, b2, b1, b0]"] by (simp add: s unat_and_mask31)
      have "unat ?r < 2 ^ 31" by (simp add: unat_and_mask31)
      then have "?r \<noteq> -1" by (rule small_not_minus_one)
      with r False s long assms peek holds_readInt32_raw [OF assms] show ?thesis
        by (auto simp: readLen_def holds_readable and_0x80 intro!: res_ok_bind)
    qed
  qed
qed

lemma params_loop_spec:
  "holds s b \<Longrightarrow> res_ok (params_loop b m)
     (\<lambda>(ok, b', m'). case nv_parse s m of (ok0, s', m0) \<Rightarrow> ok = ok0 \<and> holds s' b' \<and> m' = m0)"
proof (induction s m arbitrary: b rule: nv_parse.induct)
  case (1 s m)
  show ?case
  proof (cases "s = []")
    case True
    with "1.prems" show ?thesis
      by (simp add: params_loop.simps nv_parse.simps holds_readable)
  next
    case s: False
    obtain n b1 where b1: "readLen b = Inr (n, b1)" and n: "case nv_len s of
        None \<Rightarrow> n = -1 \<and> holds s b1 | Some (k, s') \<Rightarrow> n \<noteq> -1 \<and> unat n = k \<and> holds s' b1"
      using readLen_spec [OF "1.prems"] by auto
    show ?thesis
    proof (cases "nv_len s")
      case None
      with b1 n s "1.prems" show ?thesis
        by (simp add: params_loop.simps [of b] nv_parse.simps [of s] holds_readable)
    next
      case (Some p)
      then obtain k s1 where k: "nv_len s = Some (k, s1)" by (cases p) auto
      with n have h1: "n \<noteq> -1" "unat n = k" "holds s1 b1" by auto
      obtain v b2 where b2: "readLen b1 = Inr (v, b2)" and v: "case nv_len s1 of
          None \<Rightarrow> v = -1 \<and> holds s1 b2 | Some (k, s') \<Rightarrow> v \<noteq> -1 \<and> unat v = k \<and> holds s' b2"
        using readLen_spec [OF h1(3)] by auto
      show ?thesis
      proof (cases "nv_len s1")
        case None
        with b1 b2 k h1 v s "1.prems" show ?thesis
          by (simp add: params_loop.simps [of b] nv_parse.simps [of s] holds_readable)
      next
        case (Some p)
        then obtain l s2 where l: "nv_len s1 = Some (l, s2)" by (cases p) auto
        with v have h2: "v \<noteq> -1" "unat v = l" "holds s2 b2" by auto
        have sum: "unat (n + v) = k + l"
          using nv_len_bound [OF k] nv_len_bound [OF l] h1 h2 by (simp add: unat_word_ariths)
        show ?thesis
        proof (cases "k + l \<le> length s2")
          case False
          with b1 b2 k l h1 h2 s sum "1.prems" show ?thesis
            by (simp add: params_loop.simps [of b] nv_parse.simps [of s] holds_readable)
        next
          case True
          then have l': "l \<le> length (drop k s2)" by simp
          obtain b3 where b3: "retrieveAsString b2 k = Inr (take k s2, b3)" "holds (drop k s2) b3"
            using holds_retrieveAsString [OF h2(3), of k] True by auto
          obtain b4 where b4: "retrieveAsString b3 l = Inr (take l (drop k s2), b4)"
              "holds (drop (k + l) s2) b4"
            using holds_retrieveAsString [OF b3(2), of l] l' by (auto simp: add.commute)
          from "1.IH" [OF s k refl l refl True b4(2)] b1 b2 b3 b4 k l h1 h2 s sum True "1.prems"
          show ?thesis
            by (simp add: params_loop.simps [of b] nv_parse.simps [of s] holds_readable fun_upd_def)
        qed
      qed
    qed
  qed
qed

section \<open>The parser implements the protocol\<close>

text \<open>
  The codec represents the connection state \<open>s\<close> with the unparsed input \<open>bs\<close>.
\<close>

definition codec_rel :: "fcgi_state \<Rightarrow> bytes \<Rightarrow> codec \<Rightarrow> bool" where
  "codec_rel s bs st \<longleftrightarrow>
     m_gotRequest st = s_got s \<and> m_keepConn st = s_keep s \<and> holds (s_stdin s) (m_stdin st) \<and>
     holds (s_stream s) (m_paramsStream st) \<and> m_params st = s_params s \<and> holds bs (m_buf st)"

lemma codec_rel_new [simp]: "codec_rel init_state [] new_FastCgiCodec"
  by (simp add: codec_rel_def init_state_def new_FastCgiCodec_def)

lemma load_header_fields:
  assumes "holds bs b" and "8 \<le> length bs"
  shows "h_type (load_header (take kRecordHeader (peek b))) = byte_of (bs ! 1)"
    "unat (hton16 (h_length (load_header (take kRecordHeader (peek b))))) = wire_len bs"
    "unat (h_padding (load_header (take kRecordHeader (peek b)))) = wire_pad bs"
  using assms
  by (simp_all add: load_header_def kRecordHeader_def holds_take_peek wire_len_def wire_pad_def drop_take)

lemma role_responder:
  assumes "length cs = 2"
  shows "hton16 (le_load cs) = 1 \<longleftrightarrow> cs = [CHR 0x00, CHR 0x01]"
proof -
  have one: "be_bytes 2 (1 :: 16 word) = [CHR 0x00, CHR 0x01]" by code_simp
  show ?thesis
    using co16.be_bytes_conv_load [OF assms] co16.conv_load [of 1] one by metis
qed

lemma flag_keep: "byte_of c = kFcgiKeepConn \<longleftrightarrow> c = CHR 0x01"
proof -
  have "chr_of 1 = CHR 0x01" by code_simp
  then show ?thesis by (metis byte_of_chr_of chr_of_byte_of kFcgiKeepConn_def)
qed

lemma onBeginRequest_spec:
  assumes "codec_rel s bs st" and "complete bs" and "h_type h = 1" and "unat (h_length h) = wire_len bs"
  shows "res_ok (onBeginRequest st h (m_buf st))
    (\<lambda>(_, st'). codec_rel (if 8 \<le> wire_len bs \<and> take 2 (drop 8 bs) = [CHR 0x00, CHR 0x01]
       then s\<lparr>s_keep := (drop 8 bs ! 2 = CHR 0x01)\<rparr> else s) bs st')"
proof -
  from assms(1) have buf: "holds bs (m_buf st)" by (simp add: codec_rel_def)
  from assms(2) have le: "8 + wire_len bs \<le> length bs" by (simp add: complete_def)
  have role: "readInt16_at (drop 8 (peek (m_buf st))) = 1 \<longleftrightarrow> take 2 (drop 8 bs) = [CHR 0x00, CHR 0x01]"
    and flags: "byte_of (peek (m_buf st) ! 10) = kFcgiKeepConn \<longleftrightarrow> drop 8 bs ! 2 = CHR 0x01"
    if "8 \<le> wire_len bs"
    using that le buf role_responder [of "take 2 (drop 8 bs)"]
    by (simp_all add: readInt16_at_def holds_drop_take_peek holds_nth_peek flag_keep)
  show ?thesis
    using assms le buf role flags
    by (auto simp: onBeginRequest_def kRecordHeader_def Let_def codec_rel_def holds_readable)
qed

lemma word_pos_iff: "(0 :: 'a::len word) < w \<longleftrightarrow> unat w \<noteq> 0"
  by (simp add: word_less_nat_alt)

lemma onParams_spec:
  assumes "codec_rel s bs st"
  shows "res_ok (onParams st data len)
    (\<lambda>(_, st'). codec_rel (if unat len \<noteq> 0 then s\<lparr>s_stream := s_stream s @ take (unat len) data\<rparr>
       else case nv_parse (s_stream s) (s_params s) of
              (_, rest, m) \<Rightarrow> s\<lparr>s_stream := rest, s_params := m\<rparr>) bs st')"
proof (cases "unat len = 0")
  case False
  from assms have "holds (s_stream s) (m_paramsStream st)" by (simp add: codec_rel_def)
  from holds_append_buf [OF this, of "take (unat len) data"] False assms show ?thesis
    by (auto simp: onParams_def word_pos_iff codec_rel_def intro!: res_ok_bind)
next
  case True
  from assms have "holds (s_stream s) (m_paramsStream st)" "m_params st = s_params s"
    by (simp_all add: codec_rel_def)
  moreover obtain ok rest m where nv: "nv_parse (s_stream s) (s_params s) = (ok, rest, m)"
    by (cases "nv_parse (s_stream s) (s_params s)")
  ultimately obtain b where "params_loop (m_paramsStream st) (m_params st) = Inr (ok, b, m)"
      "holds rest b"
    using params_loop_spec [of "s_stream s" "m_paramsStream st" "s_params s"] by auto
  with True assms nv show ?thesis
    by (simp add: onParams_def parseAllParams_def word_pos_iff codec_rel_def)
qed

lemma onStdin_spec:
  assumes "codec_rel s bs st"
  shows "res_ok (onStdin st data len)
    (codec_rel (if unat len \<noteq> 0 then s\<lparr>s_stdin := s_stdin s @ take (unat len) data\<rparr>
       else s\<lparr>s_got := True\<rparr>) bs)"
proof (cases "unat len = 0")
  case False
  from assms have "holds (s_stdin s) (m_stdin st)" by (simp add: codec_rel_def)
  from holds_append_buf [OF this, of "take (unat len) data"] False assms show ?thesis
    by (auto simp: onStdin_def word_pos_iff codec_rel_def intro!: res_ok_bind)
qed (use assms in \<open>simp add: onStdin_def word_pos_iff codec_rel_def\<close>)

lemma dispatch_spec:
  assumes "codec_rel s bs st" and "complete bs"
    and type: "h_type h = byte_of (bs ! 1)" and len: "unat (h_length h) = wire_len bs"
  shows "res_ok (dispatch st h) (codec_rel (fcgi_step s (first_record bs)) bs)"
proof -
  from assms(1,2) have le: "8 + wire_len bs \<le> length bs" and buf: "holds bs (m_buf st)"
    by (simp_all add: complete_def codec_rel_def)
  have body: "take (wire_len bs) (drop 8 (peek (m_buf st))) = r_content (first_record bs)"
    using le buf by (simp add: first_record_def holds_drop_take_peek)
  have n: "length (r_content (first_record bs)) = wire_len bs"
    using le by (simp add: first_record_def)
  then have ne: "r_content (first_record bs) = [] \<longleftrightarrow> wire_len bs = 0" by auto
  have t: "r_type (first_record bs) = byte_of (bs ! 1)" by (simp add: first_record_def)
  consider "byte_of (bs ! 1) = 1" | "byte_of (bs ! 1) = 4" | "byte_of (bs ! 1) = 5"
    | "byte_of (bs ! 1) \<noteq> 1" "byte_of (bs ! 1) \<noteq> 4" "byte_of (bs ! 1) \<noteq> 5" by blast
  then show ?thesis
  proof cases
    case 1
    have "8 \<le> wire_len bs \<Longrightarrow> take 2 (drop 8 bs) = take 2 (r_content (first_record bs))
        \<and> drop 8 bs ! 2 = r_content (first_record bs) ! 2"
      using le by (simp add: first_record_def)
    with 1 onBeginRequest_spec [OF assms(1,2) _ len] type t n show ?thesis
      by (auto simp: dispatch_def fcgi_step_def Let_def intro!: res_ok_bind split: if_splits)
  next
    case 2
    with onParams_spec [OF assms(1), of "drop 8 (peek (m_buf st))" "h_length h"] type t ne len body
    show ?thesis
      by (auto simp: dispatch_def fcgi_step_def kRecordHeader_def Let_def intro!: res_ok_bind)
  next
    case 3
    with onStdin_spec [OF assms(1), of "drop 8 (peek (m_buf st))" "h_length h"] type t ne len body
    show ?thesis
      by (auto simp: dispatch_def fcgi_step_def kRecordHeader_def Let_def split: if_splits)
  next
    case 4
    with assms t show ?thesis by (simp add: dispatch_def fcgi_step_def)
  qed
qed

lemma parseFcgiPackage_spec:
  "codec_rel s bs st \<Longrightarrow>
   res_ok (parseFcgiPackage st) (codec_rel (fst (fcgi_run s bs)) (snd (fcgi_run s bs)))"
proof (induction bs arbitrary: s st rule: wire_records.induct)
  case (1 bs)
  from "1.prems" have buf: "holds bs (m_buf st)" by (simp add: codec_rel_def)
  let ?raw = "load_header (take kRecordHeader (peek (m_buf st)))"
  let ?h = "?raw\<lparr>h_id := ntoh16 (h_id ?raw), h_length := ntoh16 (h_length ?raw)\<rparr>"
  let ?n = "8 + wire_len bs + wire_pad bs"
  have total: "record_total ?h = ?n" if "8 \<le> length bs"
    using load_header_fields [OF buf that] by (simp add: record_total_def kRecordHeader_def)
  show ?case
  proof (cases "complete bs")
    case False
    then have "parseFcgiPackage st = Inr st"
      using total buf
      by (subst parseFcgiPackage.simps) (auto simp: holds_readable kRecordHeader_def complete_def Let_def)
    with False "1.prems" show ?thesis by (simp add: fcgi_run_def wire_records.simps [of bs])
  next
    case True
    then have len: "8 \<le> length bs" "?n \<le> length bs" by (auto simp: complete_def)
    obtain st1 where st1: "dispatch st ?h = Inr st1" "codec_rel (fcgi_step s (first_record bs)) bs st1"
      using dispatch_spec [OF "1.prems" True, of ?h] load_header_fields [OF buf len(1)] by auto
    then have "holds bs (m_buf st1)" by (simp add: codec_rel_def)
    with holds_retrieve [OF this len(2)] obtain b
      where b: "retrieve (m_buf st1) ?n = Inr b" "holds (drop ?n bs) b" by auto
    then have rel: "codec_rel (fcgi_step s (first_record bs)) (drop ?n bs) (st1\<lparr>m_buf := b\<rparr>)"
      using st1 by (simp add: codec_rel_def)
    have "parseFcgiPackage st = parseFcgiPackage (st1\<lparr>m_buf := b\<rparr>)"
      using total [OF len(1)] len buf st1(1) b(1)
      by (subst parseFcgiPackage.simps) (simp add: holds_readable kRecordHeader_def Let_def)
    with "1.IH" [OF True rel] True show ?thesis
      by (simp add: fcgi_run_def wire_records.simps [of bs] split_beta)
  qed
qed

section \<open>Building the response\<close>

definition crlf :: string where "crlf = [CHR 0x0D, CHR 0x0A]"

definition stdout_header :: "16 word \<Rightarrow> 8 word \<Rightarrow> FcgiRecordHeader" where
  "stdout_header len padding =
     \<lparr>h_version = 1, h_type = type_code kFcgiStdout, h_id = hton16 1, h_length = len,
      h_padding = padding, h_unused = 0\<rparr>"

definition endStdout :: "buffer \<Rightarrow> buffer res" where
  "endStdout buf = append_buf buf (header_bytes (stdout_header 0 0))"

definition endRequest :: "buffer \<Rightarrow> buffer res" where
  "endRequest buf =
     (let header = \<lparr>h_version = 1, h_type = type_code kFcgiEndRequest, h_id = hton16 1,
                    h_length = hton16 (of_nat kRecordHeader), h_padding = 0, h_unused = 0\<rparr>
      in bind_res (append_buf buf (header_bytes header))
           (\<lambda>b1. bind_res (appendInt32 b1 0) (\<lambda>b2. appendInt32 b2 0)))"

text \<open>\<open>static_cast<uint8_t>(-len & 7)\<close> at the width of \<open>size_t\<close>.\<close>

definition pad_len :: "nat \<Rightarrow> 8 word" where
  "pad_len len = ucast ((- of_nat len :: 64 word) AND 7)"

text \<open>
  The three appends that write one \<open>STDOUT\<close> record: the header, the text (through the
  \<open>StringPiece\<close> overload) and the padding.
\<close>

definition append_stdout :: "buffer \<Rightarrow> 16 word \<Rightarrow> 8 word \<Rightarrow> string \<Rightarrow> buffer res" where
  "append_stdout response slength padding text =
     bind_res (append_buf response (header_bytes (stdout_header slength padding))) (\<lambda>b1.
       bind_res (append_piece b1 (StringPiece_of_string text)) (\<lambda>b2.
         append_buf b2 (take (unat padding) (replicate 8 (CHR 0x00)))))"

definition empty_result :: string where
  "empty_result =
     (let content = ''Empty Result!''
      in ''Content-Type: text/html; charset=UTF-8'' @ crlf
         @ ''Content-Length: '' @ dec_string (length content) @ crlf @ crlf @ content)"

definition response_text :: "string \<Rightarrow> string" where
  "response_text out = (if out = [] then empty_result else out)"

definition respond :: "string \<Rightarrow> buffer \<Rightarrow> (string \<times> buffer) res" where
  "respond out0 response =
     (let out = response_text out0;
          body =
            (if length out \<le> FCGI_MAX_CONTENT_LENGTH then
               append_stdout response (hton16 (of_nat (length out))) (pad_len (length out)) out
             else
               let numSubstrings = length out div FCGI_MAX_CONTENT_LENGTH
               in bind_res
                 (foldl (\<lambda>acc i. bind_res acc (\<lambda>b.
                      bind_res (str_substr out (i * FCGI_MAX_CONTENT_LENGTH) (Some FCGI_MAX_CONTENT_LENGTH))
                        (\<lambda>outSubString.
                          append_stdout b (hton16 (of_nat FCGI_MAX_CONTENT_LENGTH))
                            (ucast ((- of_nat FCGI_MAX_CONTENT_LENGTH :: 32 word) AND 7)) outSubString)))
                    (Inr response) [0..<numSubstrings])
                 (\<lambda>b. if length out mod FCGI_MAX_CONTENT_LENGTH \<noteq> 0 then
                    bind_res (str_substr out (FCGI_MAX_CONTENT_LENGTH * numSubstrings) None)
                      (\<lambda>outSubString.
                        append_stdout b (hton16 (of_nat (length outSubString)))
                          (pad_len (length outSubString)) outSubString)
                    else Inr b))
      in bind_res body (\<lambda>b. bind_res (endStdout b) (\<lambda>b1. bind_res (endRequest b1)
           (\<lambda>b2. Inr (out, b2)))))"

section \<open>The response is the specified record sequence\<close>

lemma unat_pad_len: "unat (pad_len n) = (8 - n mod 8) mod 8"
proof -
  have m: "(7 :: 64 word) = mask 3" by (simp add: mask_eq_exp_minus_1)
  have "uint (take_bit 3 (word_of_int k :: 64 word)) = take_bit 3 k" for k
    by (simp add: unsigned_take_bit_eq unsigned_of_int)
  from this [of "- int n"] have "uint (pad_len n) = (- int n) mod 8"
    unfolding pad_len_def m take_bit_eq_mask [symmetric]
    by (simp add: unsigned_ucast_eq) (simp add: take_bit_eq_mod)
  moreover have "(- int n) mod 8 = int ((8 - n mod 8) mod 8)"
    by (simp add: zmod_zminus1_eq_if of_nat_diff zmod_int)
  ultimately have "int (unat (pad_len n)) = int ((8 - n mod 8) mod 8)" by simp
  then show ?thesis by (simp only: of_nat_eq_iff)
qed

lemma pad_len_eq: "pad_len n = of_nat ((8 - n mod 8) mod 8)"
  by (simp flip: unat_pad_len)

lemma header_bytes_stdout:
  assumes "length text < 2 ^ 16"
  shows "header_bytes (stdout_header (hton16 (of_nat (length text))) (pad_len (length text)))
      @ text @ take (unat (pad_len (length text))) (replicate 8 (CHR 0x00))
    = encode_record (stdout_record text)"
proof -
  have "(8 - length text mod 8) mod 8 \<le> 8" by (simp add: less_imp_le)
  then have "take (unat (pad_len (length text))) (replicate 8 (CHR 0x00))
      = replicate ((8 - length text mod 8) mod 8) (CHR 0x00)"
    unfolding unat_pad_len take_replicate by (simp only: min.absorb1)
  then show ?thesis
    by (simp add: header_bytes_def stdout_header_def encode_record_def stdout_record_def
        co16.store_conv pad_len_eq)
qed

lemma append_stdout_spec:
  assumes "holds s b" "length text < 2 ^ 16"
  shows "res_ok (append_stdout b (hton16 (of_nat (length text))) (pad_len (length text)) text)
    (holds (s @ encode_record (stdout_record text)))"
proof -
  note enc = header_bytes_stdout [OF assms(2), symmetric]
  have len: "length text < 2 ^ 31" using assms(2) by simp
  show ?thesis
    unfolding append_stdout_def enc
    by (rule res_ok_bind [OF holds_append_buf [OF assms(1)]],
      rule res_ok_bind [OF holds_append_piece [OF _ len]], assumption)
      (metis append_assoc holds_append_buf)
qed

lemma endStdout_spec: "holds s b \<Longrightarrow> res_ok (endStdout b) (holds (s @ encode_record (stdout_record [])))"
  using holds_append_buf [of s b "header_bytes (stdout_header 0 0)"]
    header_bytes_stdout [of "[]"] 
  by (simp add: endStdout_def hton16_def pad_len_def)

lemma endRequest_spec:
  assumes "holds s b"
  shows "res_ok (endRequest b) (holds (s @ encode_record end_request_record))"
proof -
  have z: "be_bytes 4 (0 :: 32 word) = replicate 4 (CHR 0x00)" by code_simp
  have "encode_record end_request_record =
    (header_bytes \<lparr>h_version = 1, h_type = type_code kFcgiEndRequest, h_id = hton16 1,
       h_length = hton16 (of_nat kRecordHeader), h_padding = 0, h_unused = 0\<rparr>
     @ be_bytes 4 (0 :: 32 word)) @ be_bytes 4 (0 :: 32 word)"
    unfolding z by (simp add: header_bytes_def encode_record_def end_request_record_def
        kRecordHeader_def co16.store_conv, simp add: numeral_eq_Suc)
  then show ?thesis
    unfolding endRequest_def Let_def
    by (auto intro!: res_ok_bind [OF holds_append_buf [OF assms]] res_ok_bind [OF holds_appendInt(2)]
        intro: res_ok_mono [OF holds_appendInt(2)])
qed

lemma respond_body_long:
  assumes "holds s b" and "FCGI_MAX_CONTENT_LENGTH < length out"
  defines "n \<equiv> length out div FCGI_MAX_CONTENT_LENGTH"
  shows "res_ok (foldl (\<lambda>acc i. bind_res acc (\<lambda>b.
      bind_res (str_substr out (i * FCGI_MAX_CONTENT_LENGTH) (Some FCGI_MAX_CONTENT_LENGTH))
        (\<lambda>outSubString.
          append_stdout b (hton16 (of_nat FCGI_MAX_CONTENT_LENGTH))
            (ucast ((- of_nat FCGI_MAX_CONTENT_LENGTH :: 32 word) AND 7)) outSubString)))
      (Inr b) [0..<n])
    (holds (s @ concat (map (\<lambda>i. encode_record (stdout_record (take 65535 (drop (i * 65535) out)))) [0..<n])))"
proof (rule buf.append_loop [OF _ assms(1)])
  have pad: "ucast ((- of_nat FCGI_MAX_CONTENT_LENGTH :: 32 word) AND 7) = pad_len 65535"
    by (simp add: FCGI_MAX_CONTENT_LENGTH_def pad_len_def)
  fix i s b
  assume i: "i \<in> set [0..<n]" and "holds s b"
  then have "Suc i * 65535 \<le> length out"
    by (simp add: n_def FCGI_MAX_CONTENT_LENGTH_def less_eq_div_iff_mult_less_eq Suc_le_eq [symmetric])
  then have "length (take 65535 (drop (i * 65535) out)) = 65535" "i * 65535 \<le> length out" by simp_all
  with append_stdout_spec [OF \<open>holds s b\<close>, of "take 65535 (drop (i * 65535) out)"]
  show "res_ok (bind_res (str_substr out (i * FCGI_MAX_CONTENT_LENGTH) (Some FCGI_MAX_CONTENT_LENGTH))
      (\<lambda>outSubString. append_stdout b (hton16 (of_nat FCGI_MAX_CONTENT_LENGTH))
            (ucast ((- of_nat FCGI_MAX_CONTENT_LENGTH :: 32 word) AND 7)) outSubString))
     (holds (s @ encode_record (stdout_record (take 65535 (drop (i * 65535) out)))))"
    unfolding pad by (simp add: str_substr_def FCGI_MAX_CONTENT_LENGTH_def)
qed

lemma empty_result_not_Nil [simp]: "empty_result \<noteq> []"
  by (simp add: empty_result_def)

lemma respond_spec:
  assumes "holds s b"
  shows "res_ok (respond out0 b) (\<lambda>(out', b'). out' = response_text out0 \<and>
     holds (s @ concat (map encode_record (response_records (response_text out0)))) b')"
proof -
  define out where "out = response_text out0"
  define enc where "enc = (\<lambda>text. encode_record (stdout_record text))"
  have ne: "out \<noteq> []" by (simp add: out_def response_text_def)
  have finish: "res_ok (bind_res body (\<lambda>b. bind_res (endStdout b) (\<lambda>b1. bind_res (endRequest b1)
           (\<lambda>b2. Inr (out, b2)))))
      (\<lambda>(out', b'). out' = out \<and> holds (s @ concat (map encode_record (response_records out))) b')"
    if "res_ok body (holds (s @ concat (map enc (chunks 65535 out))))" for body
    using that
    by (auto simp: response_records_def enc_def comp_def
        intro!: res_ok_bind [OF that] res_ok_bind [OF endStdout_spec] res_ok_bind [OF endRequest_spec])
  show ?thesis
  proof (cases "length out \<le> FCGI_MAX_CONTENT_LENGTH")
    case True
    then have "chunks 65535 out = [out]" "length out < 2 ^ 16"
      using ne by (simp_all add: FCGI_MAX_CONTENT_LENGTH_def chunks_short)
    with append_stdout_spec [OF assms, of out] True show ?thesis
      unfolding respond_def out_def [symmetric] Let_def
      by (intro finish) (simp add: enc_def)
  next
    case False
    then have long: "FCGI_MAX_CONTENT_LENGTH < length out" by simp
    let ?n = "length out div FCGI_MAX_CONTENT_LENGTH"
    let ?r = "drop (65535 * ?n) out"
    have r: "length ?r = length out mod 65535"
      by (simp add: FCGI_MAX_CONTENT_LENGTH_def minus_mult_div_eq_mod)
    then have rb: "length ?r < 2 ^ 16" using mod_less_divisor [of 65535 "length out"] by simp
    have ch: "chunks 65535 out = map (\<lambda>i. take 65535 (drop (i * 65535) out)) [0..<?n]
        @ (if length out mod 65535 = 0 then [] else [?r])"
      by (simp add: chunks_blocks FCGI_MAX_CONTENT_LENGTH_def)
    have le: "65535 * ?n \<le> length out" by (simp add: FCGI_MAX_CONTENT_LENGTH_def)
    from False show ?thesis
      unfolding respond_def out_def [symmetric] Let_def if_not_P [OF False]
      apply (intro finish)
      apply (rule res_ok_bind [OF respond_body_long [OF assms long]])
      subgoal for b'
        using append_stdout_spec [of "s @ concat (map (\<lambda>i. enc (take 65535 (drop (i * 65535) out))) [0..<?n])" b' ?r] rb le
        by (auto simp: ch enc_def comp_def str_substr_def FCGI_MAX_CONTENT_LENGTH_def)
      done
  qed
qed
section \<open>Receiving\<close>

text \<open>
  The first half of \<open>readData\<close> when the system call delivered \<open>data\<close>: the bytes enter the
  input buffer and the complete records leave it.
\<close>

definition receive :: "codec \<Rightarrow> bytes \<Rightarrow> codec res" where
  "receive st data =
     bind_res (readFd (\<lambda>_. Inr data) (m_buf st)) (\<lambda>(_, b). parseFcgiPackage (st\<lparr>m_buf := b\<rparr>))"

interpretation co: fcgi_decoder codec_rel receive
proof
  fix s bs st data
  assume rel: "codec_rel s bs st"
  then have "holds bs (m_buf st)" by (simp add: codec_rel_def)
  from holds_readFd [OF this, of "\<lambda>_. Inr data" data, OF refl] obtain n b
    where b: "readFd (\<lambda>_. Inr data) (m_buf st) = Inr (n, b)" "holds (bs @ data) b"
    by (auto simp: res_ok_def)
  with rel have "codec_rel s (bs @ data) (st\<lparr>m_buf := b\<rparr>)" by (simp add: codec_rel_def)
  from parseFcgiPackage_spec [OF this] b(1)
  show "res_ok (receive st data)
      (codec_rel (fst (fcgi_run s (bs @ data))) (snd (fcgi_run s (bs @ data))))"
    by (simp add: receive_def)
qed

section \<open>Properties of the codec\<close>



definition demo_record :: "8 word \<Rightarrow> bytes \<Rightarrow> bytes \<Rightarrow> fcgi_record" where
  "demo_record t body pad =
     \<lparr>r_version = 1, r_type = t, r_id = 1, r_content = body, r_padding = pad, r_reserved = 0\<rparr>"

definition demo_request :: "fcgi_record list" where
  "demo_request =
     [demo_record 1 [CHR 0x00, CHR 0x01, CHR 0x01, CHR 0x00, CHR 0x00, CHR 0x00, CHR 0x00, CHR 0x00] [],
      demo_record 4 [CHR 0x01, CHR 0x02, CHR ''A''] ''zz'', demo_record 4 ''bc'' [], demo_record 4 [] [],
      demo_record 5 ''body'' ''pad'', demo_record 5 [] []]"

text \<open>
  The parameter decoder inverts the name-value encoding of the FastCGI specification: on a
  stream that holds the encodings of \<open>kvs\<close> it succeeds, consumes the whole stream and assigns
  the pairs in order.
\<close>

lemma parseAllParams_roundtrip:
  assumes "holds (concat (map encode_pair kvs)) (m_paramsStream st)"
    and "\<forall>(k, v) \<in> set kvs. length k < 2 ^ 31 \<and> length v < 2 ^ 31"
  shows "res_ok (parseAllParams st) (\<lambda>(ok, st'). ok \<and> content (m_paramsStream st') = [] \<and>
    m_params st' = map_assign (m_params st) kvs)"
  using params_loop_spec [OF assms(1), of "m_params st"] nv_parse_encode [OF assms(2), of "m_params st"]
  by (auto simp: parseAllParams_def holds_def)

lemma parseAllParams_roundtrip_witness:
  "res_ok (parseAllParams (new_FastCgiCodec\<lparr>m_paramsStream :=
      \<lparr>store = [CHR 0x02, CHR 0x00] @ ''KK.....'', readerIndex = 0, writerIndex = 4\<rparr>\<rparr>))
     (\<lambda>(ok, st'). ok \<and> content (m_paramsStream st') = [] \<and> m_params st' = [''KK'' \<mapsto> ''''])"
proof -
  let ?st = "new_FastCgiCodec\<lparr>m_paramsStream :=
      \<lparr>store = [CHR 0x02, CHR 0x00] @ ''KK.....'', readerIndex = 0, writerIndex = 4\<rparr>\<rparr>"
  have enc: "concat (map encode_pair [(''KK'', '''')]) = [CHR 0x02, CHR 0x00] @ ''KK''" by code_simp
  have "holds (concat (map encode_pair [(''KK'', '''')])) (m_paramsStream ?st)"
    unfolding enc by (simp add: holds_def buffer_inv_def content_def slice_def kCheapPrepend_def)
  from parseAllParams_roundtrip [OF this] show ?thesis by (simp add: new_FastCgiCodec_def)
qed
text \<open>
  C8. A response is the record sequence the protocol asks for: read back with the wire format
  it is \<open>STDOUT\<close> records of at most 65535 bytes and a multiple of eight bytes long, none of
  them empty before the closing one, whose contents concatenate to the text (or to the
  substitute page when the text is empty), then one \<open>END_REQUEST\<close>.
\<close>

theorem respond_wire_format:
  "res_ok (respond out (new_Buffer kInitialSize)) (\<lambda>(out', b). out' = response_text out \<and>
     (\<exists>texts. wire_records (content b) =
          (map stdout_record texts @ [stdout_record [], end_request_record], []) \<and>
        concat texts = response_text out \<and>
        list_all (\<lambda>t. t \<noteq> [] \<and> length t \<le> FCGI_MAX_CONTENT_LENGTH \<and>
          8 dvd length (encode_record (stdout_record t))) texts))"
proof -
  let ?rs = "response_records (response_text out)"
  have "wire_records (concat (map encode_record ?rs) @ []) = (?rs, [])"
    by (rule wire_records_encode) (auto simp: wf_response_records complete_def)
  then have w: "wire_records (concat (map encode_record ?rs)) = (?rs, [])" by simp
  let ?ts = "chunks 65535 (response_text out)"
  have "list_all (\<lambda>t. t \<noteq> [] \<and> length t \<le> FCGI_MAX_CONTENT_LENGTH \<and>
      8 dvd length (encode_record (stdout_record t))) ?ts"
    by (auto simp: list_all_iff FCGI_MAX_CONTENT_LENGTH_def aligned_stdout_record dest: chunks_bound)
  with w have "\<exists>texts. wire_records (concat (map encode_record ?rs)) =
          (map stdout_record texts @ [stdout_record [], end_request_record], []) \<and>
        concat texts = response_text out \<and>
        list_all (\<lambda>t. t \<noteq> [] \<and> length t \<le> FCGI_MAX_CONTENT_LENGTH \<and>
          8 dvd length (encode_record (stdout_record t))) texts"
    by (intro exI [of _ ?ts]) (simp add: response_records_def concat_chunks)
  then show ?thesis
    by (intro res_ok_mono [OF respond_spec [OF holds_new_Buffer]]) (auto simp: holds_def)
qed

text \<open>
  The flag byte is compared with 1, not masked with it: a begin record whose flags have the
  keep-connection bit and another bit set closes the connection.
\<close>

lemma keep_conn_other_bits:
  "s_keep (fcgi_step s \<lparr>r_version = 1, r_type = 1, r_id = 1, r_content =
      [CHR 0x00, CHR 0x01, CHR 0x03, CHR 0x00, CHR 0x00, CHR 0x00, CHR 0x00, CHR 0x00],
      r_padding = [], r_reserved = 0\<rparr>) = False"
  by (simp add: fcgi_step_def)

end
