(* ===== verification/Cgi_Utils.thy ===== *)
theory Cgi_Utils
  imports Prelude
begin

text \<open>
  The string utilities of the form library (\<^verbatim>\<open>cgicc_lib/CgiUtils.cpp\<close>): the comparison
  that ignores case, URL encoding and decoding, the extraction between separators and the
  textual reading and writing of strings and numbers. The character classes are those of the
  C locale, in which the programs run (neither calls \<open>setlocale\<close>).
\<close>

section \<open>Characters\<close>

definition toupper :: "char \<Rightarrow> char" where
  "toupper c = (if 97 \<le> (of_char c :: nat) \<and> of_char c \<le> (122 :: nat) then char_of (of_char c - 32 :: nat) else c)"

definition isspace :: "char \<Rightarrow> bool" where
  "isspace c \<longleftrightarrow> c = CHR '' '' \<or> 9 \<le> (of_char c :: nat) \<and> of_char c \<le> (13 :: nat)"

definition isdigit :: "char \<Rightarrow> bool" where
  "isdigit c \<longleftrightarrow> 48 \<le> (of_char c :: nat) \<and> of_char c \<le> (57 :: nat)"

definition isalpha :: "char \<Rightarrow> bool" where
  "isalpha c \<longleftrightarrow> 65 \<le> (of_char c :: nat) \<and> of_char c \<le> (90 :: nat)
     \<or> 97 \<le> (of_char c :: nat) \<and> of_char c \<le> (122 :: nat)"

definition isxdigit :: "char \<Rightarrow> bool" where
  "isxdigit c \<longleftrightarrow> isdigit c \<or> 65 \<le> (of_char c :: nat) \<and> of_char c \<le> (70 :: nat)
     \<or> 97 \<le> (of_char c :: nat) \<and> of_char c \<le> (102 :: nat)"

section \<open>Comparison\<close>

fun equal_chars :: "string \<Rightarrow> string \<Rightarrow> bool" where
  "equal_chars (a # as) (b # bs) = (if toupper a \<noteq> toupper b then False else equal_chars as bs)"
| "equal_chars _ _ = True"

definition stringsAreEqual :: "string \<Rightarrow> string \<Rightarrow> bool" where
  "stringsAreEqual s1 s2 =
     (if \<not> equal_chars s1 s2 then False else length s2 = length s1)"

definition stringsAreEqual_n :: "string \<Rightarrow> string \<Rightarrow> nat \<Rightarrow> bool" where
  "stringsAreEqual_n s1 s2 n =
     (let good = (n \<le> length s1 \<and> n \<le> length s2);
          t1 = (if good then take n s1 else s1);
          t2 = (if good then take n s2 else s2)
      in if \<not> equal_chars t1 t2 then False else good)"

section \<open>URL encoding\<close>

definition charToHex :: "char \<Rightarrow> string" where
  "charToHex c =
     (let first = (schar_of c AND 0xF0) div 16;
          second = schar_of c AND 0x0F
      in [chr_of (word_of_int (first + (if first > 9 then 65 - 10 else 48))),
          chr_of (word_of_int (second + (if second > 9 then 65 - 10 else 48)))])"

definition hexToChar :: "char \<Rightarrow> char \<Rightarrow> char" where
  "hexToChar first second =
     (let digit1 = (if schar_of first \<ge> 65 then ((schar_of first AND 0xDF) - 65) + 10
                    else schar_of first - 48);
          digit2 = digit1 * 16 +
                   (if schar_of second \<ge> 65 then ((schar_of second AND 0xDF) - 65) + 10
                    else schar_of second - 48)
      in chr_of (word_of_int digit2))"

definition url_mark :: string where "url_mark = ''-_.!~*'' @ [CHR 0x27] @ ''()''"

definition form_urlencode :: "string \<Rightarrow> string" where
  "form_urlencode src =
     concat (map (\<lambda>c.
       if c = CHR '' '' then ''+''
       else if isalpha c \<or> isdigit c \<or> c \<in> set url_mark then [c]
       else CHR ''%'' # charToHex c) src)"

text \<open>
  The iterator may read one position past the last character, which is the terminating
  \<open>NUL\<close> of the string: \<open>distance >= 2\<close> guarantees \<open>iter + 1\<close> only.
\<close>

fun form_urldecode :: "string \<Rightarrow> string" where
  "form_urldecode [] = []"
| "form_urldecode (c # rest) =
     (if c = CHR ''+'' then CHR '' '' # form_urldecode rest
      else if c = CHR ''%'' then
        (if length rest + 1 \<ge> 2 \<and> isxdigit ((rest @ [CHR 0x00]) ! 0) \<and> isxdigit ((rest @ [CHR 0x00]) ! 1)
         then hexToChar ((rest @ [CHR 0x00]) ! 0) ((rest @ [CHR 0x00]) ! 1) # form_urldecode (drop 2 rest)
         else CHR ''%'' # form_urldecode rest)
      else c # form_urldecode rest)"

section \<open>Extraction\<close>

definition extractBetween :: "string \<Rightarrow> string \<Rightarrow> string \<Rightarrow> string res" where
  "extractBetween data separator1 separator2 =
     (case str_find data separator1 0 of
        None \<Rightarrow> Inr []
      | Some start \<Rightarrow>
          (let start = start + length separator1
           in case str_find data separator2 start of
                None \<Rightarrow> Inr []
              | Some limit \<Rightarrow> str_substr data start (Some (limit - start))))"

section \<open>Streams\<close>

text \<open>
  The part of \<open>std::istream\<close> the readers use: the characters not yet read and the two error
  bits. Formatted extraction of an unsigned integer skips white space, accepts a sign and
  decimal digits, negates modulo the width and saturates; it leaves its target alone
  (\<^term>\<open>None\<close>) when the stream is not good or has no character left.
\<close>

record istream =
  in_rest :: string
  in_eof :: bool
  in_fail :: bool

definition in_good :: "istream \<Rightarrow> bool" where
  "in_good i \<longleftrightarrow> \<not> in_eof i \<and> \<not> in_fail i"

definition digits_value :: "string \<Rightarrow> nat" where
  "digits_value ds = foldl (\<lambda>n c. 10 * n + (of_char c - 48)) 0 ds"

definition extract_ulong :: "istream \<Rightarrow> nat option \<times> istream" where
  "extract_ulong i =
     (if \<not> in_good i then (None, i\<lparr>in_fail := True\<rparr>)
      else let s = dropWhile isspace (in_rest i)
      in if s = [] then (None, i\<lparr>in_rest := [], in_eof := True, in_fail := True\<rparr>)
      else let neg = (hd s = CHR ''-'');
               t = (if hd s = CHR ''-'' \<or> hd s = CHR ''+'' then tl s else s);
               ds = takeWhile isdigit t;
               r = dropWhile isdigit t;
               i' = i\<lparr>in_rest := r, in_eof := (r = [])\<rparr>
      in if ds = [] then (Some 0, i'\<lparr>in_fail := True\<rparr>)
         else if digits_value ds \<ge> 2 ^ 64 then (Some (2 ^ 64 - 1), i'\<lparr>in_fail := True\<rparr>)
         else (Some (if neg then (2 ^ 64 - digits_value ds) mod 2 ^ 64 else digits_value ds), i'))"

definition in_get :: "istream \<Rightarrow> istream" where
  "in_get i =
     (if \<not> in_good i then i\<lparr>in_fail := True\<rparr>
      else if in_rest i = [] then i\<lparr>in_eof := True, in_fail := True\<rparr>
      else i\<lparr>in_rest := tl (in_rest i)\<rparr>)"

definition in_read :: "istream \<Rightarrow> nat \<Rightarrow> string \<times> istream" where
  "in_read i n =
     (if \<not> in_good i then ([], i\<lparr>in_fail := True\<rparr>)
      else if length (in_rest i) < n
      then (in_rest i, i\<lparr>in_rest := [], in_eof := True, in_fail := True\<rparr>)
      else (take n (in_rest i), i\<lparr>in_rest := drop n (in_rest i)\<rparr>))"

definition writeString :: "string \<Rightarrow> string \<Rightarrow> string" where
  "writeString out s = out @ dec_string (length s) @ '' '' @ s"

definition writeLong :: "string \<Rightarrow> nat \<Rightarrow> string" where
  "writeLong out l = out @ dec_string l @ '' ''"

text \<open>A vector of more than \<open>PTRDIFF_MAX\<close> characters is refused with \<open>std::length_error\<close>.\<close>

definition readString :: "istream \<Rightarrow> (string \<times> istream) res" where
  "readString i0 =
     (let (v, i1) = extract_ulong i0;
          dataSize = (case v of None \<Rightarrow> 0 | Some n \<Rightarrow> n);
          i2 = in_get i1
      in if dataSize = 0 then Inr ([], i2)
         else if dataSize > 2 ^ 63 - 1 then Inl Length_error
         else let (temp, i3) = in_read i2 dataSize
              in if length temp \<noteq> dataSize then Inl (Runtime_error ''I/O error'')
                 else Inr (temp, i3))"

text \<open>The result is the uninitialised local (\<^term>\<open>None\<close>) when the extraction left it alone.\<close>

definition readLong :: "istream \<Rightarrow> nat option \<times> istream" where
  "readLong i = (let (v, i1) = extract_ulong i in (v, in_get i1))"

section \<open>Comparison is equality up to case\<close>

lemma equal_chars_iff:
  "length s1 = length s2 \<Longrightarrow> equal_chars s1 s2 \<longleftrightarrow> map toupper s1 = map toupper s2"
  by (induction s1 s2 rule: list_induct2) auto

lemma stringsAreEqual_iff: "stringsAreEqual s1 s2 \<longleftrightarrow> map toupper s1 = map toupper s2"
  using equal_chars_iff [of s1 s2] map_eq_imp_length_eq [of toupper s1 toupper s2]
  by (auto simp: stringsAreEqual_def)

lemma stringsAreEqual_n_iff:
  "stringsAreEqual_n s1 s2 n \<longleftrightarrow>
     n \<le> length s1 \<and> n \<le> length s2 \<and> map toupper (take n s1) = map toupper (take n s2)"
  using equal_chars_iff [of "take n s1" "take n s2"] by (auto simp: stringsAreEqual_n_def Let_def)

section \<open>URL encoding is invertible\<close>

definition hex_digit :: "int \<Rightarrow> char" where
  "hex_digit n = chr_of (word_of_int (n + (if n > 9 then 65 - 10 else 48)))"

lemma schar_and:
  assumes "take_bit 8 k = k"
  shows "schar_of c AND k = int (of_char c) AND k"
proof -
  have "take_bit 8 (schar_of c) = uint (byte_of c)"
    using take_bit_word_eq_self [of 8 "byte_of c"]
    by (simp add: schar_of_def sint_uint take_bit_signed_take_bit flip: unsigned_take_bit_eq)
  also have "\<dots> = int (of_char c)" by (metis of_nat_unat unat_byte_of)
  finally have "take_bit 8 (schar_of c AND k) = take_bit 8 (int (of_char c) AND k)"
    using assms by (metis take_bit_and take_bit_take_bit min.idem)
  moreover have "take_bit 8 (x AND k) = x AND k" for x
    using assms by (metis and.assoc take_bit_eq_mask)
  ultimately show ?thesis by metis
qed

lemma and_high: "(n AND 0xF0) div 16 = (n div 16) mod (16 :: int)"
proof -
  have "(n AND 0xF0) div 16 = drop_bit 4 (n AND 0xF0)" by (simp add: drop_bit_eq_div)
  also have "\<dots> = drop_bit 4 n AND 15" unfolding drop_bit_and by (simp add: drop_bit_eq_div)
  also have "\<dots> = take_bit 4 (drop_bit 4 n)" by (simp add: take_bit_eq_mask mask_eq_exp_minus_1)
  finally show ?thesis by (simp add: take_bit_eq_mod drop_bit_eq_div)
qed

lemma and_low: "n AND 0x0F = n mod (16 :: int)"
proof -
  have "n AND 0x0F = take_bit 4 n" by (simp add: take_bit_eq_mask mask_eq_exp_minus_1)
  then show ?thesis by (simp add: take_bit_eq_mod)
qed

lemma charToHex_eq:
  "charToHex c = [hex_digit (int (of_char c) div 16), hex_digit (int (of_char c) mod 16)]"
proof -
  have "int (of_char c) div 16 < 16"
    using nat_of_char_less_256 [of c] by linarith
  moreover have "0 \<le> int (of_char c) div 16" by simp
  ultimately have "int (of_char c) div 16 mod 16 = int (of_char c) div 16"
    by (rule mod_pos_pos_trivial [rotated])
  moreover have "schar_of c AND 0x0F = int (of_char c) AND 0x0F" "schar_of c AND 0xF0 = int (of_char c) AND 0xF0"
    by (rule schar_and, simp add: take_bit_eq_mod)+
  ultimately show ?thesis
    by (simp only: charToHex_def hex_digit_def Let_def and_high and_low)
qed

definition hex_value :: "char \<Rightarrow> int" where
  "hex_value c = (if schar_of c \<ge> 65 then ((schar_of c AND 0xDF) - 65) + 10 else schar_of c - 48)"

lemma hex_digit_value:
  assumes "0 \<le> n" "n < 16"
  shows "isxdigit (hex_digit n) \<and> hex_value (hex_digit n) = n"
proof -
  have "n \<in> {0, 1, 2, 3, 4, 5, 6, 7, 8, 9, 10, 11, 12, 13, 14, 15}"
    using assms by simp presburger
  then show ?thesis
    by (auto simp: hex_digit_def hex_value_def schar_of_def isxdigit_def isdigit_def)
qed

lemma charToHex_digits:
  "length (charToHex c) = 2 \<and> isxdigit (charToHex c ! 0) \<and> isxdigit (charToHex c ! 1)
   \<and> hexToChar (charToHex c ! 0) (charToHex c ! 1) = c"
proof -
  let ?n = "int (of_char c)"
  have "?n div 16 < 16" "0 \<le> ?n div 16" "?n mod 16 < 16" "0 \<le> ?n mod 16"
    using nat_of_char_less_256 [of c] by linarith+
  note d = hex_digit_value [OF this(2,1)] hex_digit_value [OF this(4,3)]
  have "hexToChar (hex_digit (?n div 16)) (hex_digit (?n mod 16))
      = chr_of (word_of_int (?n div 16 * 16 + ?n mod 16))"
    using d by (simp only: hexToChar_def Let_def hex_value_def [symmetric])
  also have "\<dots> = chr_of (word_of_int ?n)" by simp
  also have "\<dots> = c" by (simp flip: byte_of_def)
  finally show ?thesis using d by (simp add: charToHex_eq)
qed

lemma form_urldecode_encode: "form_urldecode (form_urlencode s @ t) = s @ form_urldecode t"
proof (induction s)
  case Nil
  then show ?case by (simp add: form_urlencode_def)
next
  case (Cons c s)
  obtain h l where hl: "charToHex c = [h, l]"
    using charToHex_digits [of c] by (auto simp: length_Suc_conv numeral_2_eq_2)
  have step: "form_urlencode (c # s) = (if c = CHR '' '' then ''+''
       else if isalpha c \<or> isdigit c \<or> c \<in> set url_mark then [c]
       else CHR ''%'' # charToHex c) @ form_urlencode s"
    by (simp add: form_urlencode_def)
  have marks: "CHR ''+'' \<notin> set url_mark" "CHR ''%'' \<notin> set url_mark"
    "\<not> isalpha (CHR ''+'')" "\<not> isalpha (CHR ''%'')" "\<not> isdigit (CHR ''+'')" "\<not> isdigit (CHR ''%'')"
    by code_simp+
  show ?case
    unfolding step using charToHex_digits [of c] hl Cons.IH marks
    by (auto simp: nth_append)
qed

section \<open>Numbers survive writing and reading\<close>

lemma dec_string_digits: "dec_string n \<noteq> [] \<and> (\<forall>c \<in> set (dec_string n). isdigit c)"
proof (induction n rule: dec_string.induct)
  case (1 n)
  have m: "n mod 10 < 10" by simp
  show ?case
  proof (cases "n < 10")
    case True
    then show ?thesis by (simp add: dec_string.simps [of n] isdigit_def)
  next
    case False
    with 1 m show ?thesis by (simp add: dec_string.simps [of n] isdigit_def)
  qed
qed

lemma digits_value_snoc [simp]: "digits_value (ds @ [c]) = 10 * digits_value ds + (of_char c - 48)"
  by (simp add: digits_value_def)

lemma digits_value_dec_string [simp]: "digits_value (dec_string n) = n"
proof (induction n rule: dec_string.induct)
  case (1 n)
  have m: "n mod 10 < 10" by simp
  show ?case
  proof (cases "n < 10")
    case True
    then show ?thesis by (simp add: dec_string.simps [of n] digits_value_def)
  next
    case False
    with 1 m show ?thesis by (simp add: dec_string.simps [of n])
  qed
qed

lemma extract_ulong_dec_string:
  assumes "in_good i" and "in_rest i = dec_string n @ CHR '' '' # r" and "n < 2 ^ 64"
  shows "extract_ulong i = (Some n, i\<lparr>in_rest := CHR '' '' # r\<rparr>)"
proof -
  from dec_string_digits [of n] obtain d ds
    where ds: "dec_string n = d # ds" "isdigit d" "\<forall>c \<in> set ds. isdigit c"
    by (cases "dec_string n") auto
  then have d: "\<not> isspace d" "d \<noteq> CHR ''-''" "d \<noteq> CHR ''+''"
    by (auto simp: isspace_def isdigit_def)
  have sp: "\<not> isdigit (CHR '' '')" by code_simp
  from ds(1) have v: "digits_value (d # ds) = n" by (metis digits_value_dec_string)
  show ?thesis
    using assms ds d sp v
    by (cases i) (auto simp: extract_ulong_def in_good_def Let_def takeWhile_append2 dropWhile_append2)
qed

section \<open>Properties\<close>

text \<open>
  The comparison of strings that ignores case is equality of the upper-cased strings, and
  its bounded form compares prefixes of the given length that both strings must have.
\<close>

lemma stringsAreEqual_ignores_case:
  "stringsAreEqual s1 s2 = (map toupper s1 = map toupper s2) \<and>
   stringsAreEqual_n s1 s2 n = (n \<le> length s1 \<and> n \<le> length s2 \<and>
     map toupper (take n s1) = map toupper (take n s2))"
  by (simp add: stringsAreEqual_iff stringsAreEqual_n_iff)


lemma form_urlencode_chars:
  assumes "c \<in> set (form_urlencode s)"
  shows "c = CHR ''+'' \<or> c = CHR ''%'' \<or> isalpha c \<or> isdigit c \<or> c \<in> set url_mark"
proof -
  have hex: "isalpha x \<or> isdigit x" if "x \<in> set (charToHex d)" for x d
  proof -
    from charToHex_digits [of d] that have "isxdigit x"
      by (auto simp: in_set_conv_nth less_2_cases_iff)
    then show ?thesis by (auto simp: isxdigit_def isalpha_def)
  qed
  from assms show ?thesis by (auto simp: form_urlencode_def dest: hex split: if_splits)
qed

lemma form_urlencode_no_separator:
  "CHR ''='' \<notin> set (form_urlencode s)" "CHR ''&'' \<notin> set (form_urlencode s)"
proof -
  have "\<not> isalpha (CHR ''='')" "\<not> isdigit (CHR ''='')" "CHR ''='' \<notin> set url_mark"
    "\<not> isalpha (CHR ''&'')" "\<not> isdigit (CHR ''&'')" "CHR ''&'' \<notin> set url_mark" by code_simp+
  then show "CHR ''='' \<notin> set (form_urlencode s)" "CHR ''&'' \<notin> set (form_urlencode s)"
    by (auto dest!: form_urlencode_chars)
qed

text \<open>
  C39. Decoding inverts URL encoding for every string, bytes above 127 included, and the encoded
  form contains no separator of a query string.
\<close>

theorem urlencode_roundtrip:
  "form_urldecode (form_urlencode s) = s \<and>
   CHR ''='' \<notin> set (form_urlencode s) \<and> CHR ''&'' \<notin> set (form_urlencode s)"
  using form_urldecode_encode [of s "[]"] form_urlencode_no_separator by simp

text \<open>
  What the library writes to a stream it reads back: a string of any bytes with its length
  prefix, and an unsigned long, leaving the rest of the stream to be read.
\<close>

lemma stream_roundtrip:
  assumes "length s < 2 ^ 63" and "l < 2 ^ 64"
  shows "readString \<lparr>in_rest = writeString [] s @ rest, in_eof = False, in_fail = False\<rparr>
      = Inr (s, \<lparr>in_rest = rest, in_eof = False, in_fail = False\<rparr>) \<and>
    readLong \<lparr>in_rest = writeLong [] l @ rest, in_eof = False, in_fail = False\<rparr>
      = (Some l, \<lparr>in_rest = rest, in_eof = False, in_fail = False\<rparr>)"
proof -
  have "extract_ulong \<lparr>in_rest = writeString [] s @ rest, in_eof = False, in_fail = False\<rparr>
      = (Some (length s), \<lparr>in_rest = CHR '' '' # s @ rest, in_eof = False, in_fail = False\<rparr>)"
    using assms
    by (subst extract_ulong_dec_string) (simp_all add: writeString_def in_good_def)
  moreover have "extract_ulong \<lparr>in_rest = writeLong [] l @ rest, in_eof = False, in_fail = False\<rparr>
      = (Some l, \<lparr>in_rest = CHR '' '' # rest, in_eof = False, in_fail = False\<rparr>)"
    using assms
    by (subst extract_ulong_dec_string) (simp_all add: writeLong_def in_good_def)
  ultimately show ?thesis
    using assms by (auto simp: readString_def readLong_def in_get_def in_read_def in_good_def Let_def)
qed

lemma stream_roundtrip_witness:
  "readString \<lparr>in_rest = writeString [] ''a b'' @ ''tail'', in_eof = False, in_fail = False\<rparr>
      = Inr (''a b'', \<lparr>in_rest = ''tail'', in_eof = False, in_fail = False\<rparr>) \<and>
    readLong \<lparr>in_rest = writeLong [] 1024 @ ''tail'', in_eof = False, in_fail = False\<rparr>
      = (Some 1024, \<lparr>in_rest = ''tail'', in_eof = False, in_fail = False\<rparr>)"
  by (rule stream_roundtrip) simp_all

end
