(* ===== verification/Cgicc.thy ===== *)
theory Cgicc
  imports Cgi_Utils
begin

text \<open>
  The form library (\<^verbatim>\<open>cgicc_lib/FormEntry\<close>, \<^verbatim>\<open>FormFile\<close>,
  \<^verbatim>\<open>HTTPCookie\<close>, \<^verbatim>\<open>Cgicc\<close>): form entries, uploaded files, cookies, and
  the parsers of query strings, URL-encoded and multipart bodies and cookie headers. The
  conversions to \<open>double\<close> are not modelled.
\<close>

section \<open>Form entries\<close>

record FormEntry =
  entry_name :: string
  entry_value :: string

definition eq_FormEntry :: "FormEntry \<Rightarrow> FormEntry \<Rightarrow> bool" where
  "eq_FormEntry e1 e2 = stringsAreEqual (entry_name e1) (entry_name e2)"

text \<open>\<open>std::atol\<close> as glibc defines it: white space, sign, digits, saturation at the limits.\<close>

definition atol :: "string \<Rightarrow> int" where
  "atol s =
     (let s1 = dropWhile isspace s;
          neg = (s1 \<noteq> [] \<and> hd s1 = CHR ''-'');
          s2 = (if s1 \<noteq> [] \<and> (hd s1 = CHR ''-'' \<or> hd s1 = CHR ''+'') then tl s1 else s1);
          v = int (digits_value (takeWhile isdigit s2))
      in if neg then max (- v) (- (2 ^ 63)) else min v (2 ^ 63 - 1))"

definition getIntegerValue :: "FormEntry \<Rightarrow> int \<Rightarrow> int \<Rightarrow> int" where
  "getIntegerValue e min_v max_v =
     (let v = atol (entry_value e)
      in if v > max_v then max_v else if v < min_v then min_v else v)"

definition getIntegerValue_bounded :: "FormEntry \<Rightarrow> int \<Rightarrow> int \<Rightarrow> int \<times> bool" where
  "getIntegerValue_bounded e min_v max_v =
     (let v = atol (entry_value e)
      in if v > max_v then (max_v, True) else if v < min_v then (min_v, True) else (v, False))"

definition is_newline :: "char \<Rightarrow> bool" where
  "is_newline c \<longleftrightarrow> c = CHR 0x0D \<or> c = CHR 0x0A"

function makeString_loop :: "nat \<Rightarrow> bool \<Rightarrow> nat \<Rightarrow> string \<Rightarrow> string \<Rightarrow> string" where
  "makeString_loop avail allowNewlines len src dst =
     (if src \<noteq> [] \<and> len < avail then
        if is_newline (hd src) then
          let breaks = takeWhile is_newline src;
              src1 = dropWhile is_newline src;
              crCount = length (filter (\<lambda>c. c = CHR 0x0D) breaks);
              lfCount = length (filter (\<lambda>c. c \<noteq> CHR 0x0D) breaks);
              lfsAdd = (if crCount > lfCount then crCount else lfCount)
          in if allowNewlines
             then makeString_loop avail allowNewlines (len + lfsAdd) src1 (dst @ replicate lfsAdd (CHR 0x0A))
             else makeString_loop avail allowNewlines len src1 dst
        else makeString_loop avail allowNewlines (len + 1) (tl src) (dst @ [hd src])
      else dst)"
  by pat_completeness auto
termination
  by (relation "measure (\<lambda>(avail, allow, len, src, dst). length src)")
    (auto simp: neq_Nil_conv le_imp_less_Suc length_dropWhile_le)

declare makeString_loop.simps [simp del]

definition makeString :: "FormEntry \<Rightarrow> nat \<Rightarrow> bool \<Rightarrow> string" where
  "makeString e maxLen allowNewlines = makeString_loop maxLen allowNewlines 0 (entry_value e) []"

definition getValue_max :: "FormEntry \<Rightarrow> nat \<Rightarrow> string" where
  "getValue_max e maxChars = makeString e maxChars True"

definition getStrippedValue_max :: "FormEntry \<Rightarrow> nat \<Rightarrow> string" where
  "getStrippedValue_max e maxChars = makeString e maxChars False"

definition getStrippedValue :: "FormEntry \<Rightarrow> string" where
  "getStrippedValue e = getStrippedValue_max e (2 ^ 31 - 1)"

definition isEmpty :: "FormEntry \<Rightarrow> bool" where
  "isEmpty e \<longleftrightarrow> length (entry_value e) = 0"

section \<open>Uploaded files\<close>

record FormFile =
  file_name :: string
  file_filename :: string
  file_dataType :: string
  file_data :: string

definition new_FormFile :: "string \<Rightarrow> string \<Rightarrow> string \<Rightarrow> string \<Rightarrow> FormFile" where
  "new_FormFile name filename dataType data =
     \<lparr>file_name = name, file_filename = filename,
      file_dataType = (if dataType = [] then ''text/plain'' else dataType), file_data = data\<rparr>"

definition eq_FormFile :: "FormFile \<Rightarrow> FormFile \<Rightarrow> bool" where
  "eq_FormFile f g \<longleftrightarrow>
     stringsAreEqual (file_name f) (file_name g) \<and>
     stringsAreEqual (file_filename f) (file_filename g) \<and>
     stringsAreEqual (file_dataType f) (file_dataType g)"

definition writeToStream :: "FormFile \<Rightarrow> string \<Rightarrow> string" where
  "writeToStream f out = out @ take (length (file_data f)) (file_data f)"

section \<open>Cookies\<close>

record HTTPCookie =
  ck_name :: string
  ck_value :: string
  ck_comment :: string
  ck_domain :: string
  ck_maxAge :: nat
  ck_path :: string
  ck_secure :: bool
  ck_removed :: bool

definition new_HTTPCookie :: "string \<Rightarrow> string \<Rightarrow> HTTPCookie" where
  "new_HTTPCookie name value =
     \<lparr>ck_name = name, ck_value = value, ck_comment = [], ck_domain = [], ck_maxAge = 0,
      ck_path = [], ck_secure = False, ck_removed = False\<rparr>"

definition new_HTTPCookie_full ::
  "string \<Rightarrow> string \<Rightarrow> string \<Rightarrow> string \<Rightarrow> nat \<Rightarrow> string \<Rightarrow> bool \<Rightarrow> HTTPCookie" where
  "new_HTTPCookie_full name value comment domain maxAge path secure =
     \<lparr>ck_name = name, ck_value = value, ck_comment = comment, ck_domain = domain,
      ck_maxAge = maxAge, ck_path = path, ck_secure = secure, ck_removed = False\<rparr>"

definition eq_HTTPCookie :: "HTTPCookie \<Rightarrow> HTTPCookie \<Rightarrow> bool" where
  "eq_HTTPCookie c d \<longleftrightarrow>
     stringsAreEqual (ck_name c) (ck_name d) \<and> stringsAreEqual (ck_value c) (ck_value d) \<and>
     stringsAreEqual (ck_comment c) (ck_comment d) \<and> stringsAreEqual (ck_domain c) (ck_domain d) \<and>
     ck_maxAge c = ck_maxAge d \<and> stringsAreEqual (ck_path c) (ck_path d) \<and>
     ck_secure c = ck_secure d \<and> ck_removed c = ck_removed d"

definition render :: "HTTPCookie \<Rightarrow> string" where
  "render c =
     ''Set-Cookie:'' @ ck_name c @ ''='' @ ck_value c
     @ (if ck_comment c \<noteq> [] then ''; Comment='' @ ck_comment c else [])
     @ (if ck_domain c \<noteq> [] then ''; Domain='' @ ck_domain c else [])
     @ (if ck_removed c then ''; Expires=Fri, 01-Jan-1971 01:00:00 GMT;''
        else if ck_maxAge c \<noteq> 0 then ''; Max-Age='' @ dec_string (ck_maxAge c) else [])
     @ (if ck_path c \<noteq> [] then ''; Path='' @ ck_path c else [])
     @ (if ck_secure c then ''; Secure'' else [])
     @ ''; Version=1''"

section \<open>The request object\<close>

record Cgicc =
  fFormData :: "FormEntry list"
  fFormFiles :: "FormFile list"
  fCookies :: "HTTPCookie list"
  fQueryString :: string
  fCookie :: string
  fPostData :: string
  fQueryType :: string

record MultipartHeader =
  mh_disposition :: string
  mh_name :: string
  mh_filename :: string
  mh_contentType :: string

definition standard_type :: string where "standard_type = ''application/x-www-form-urlencoded''"
definition multipart_type :: string where "multipart_type = ''multipart/form-data''"

text \<open>The loop over a URL-encoded body; it appends to \<open>fFormData\<close> only.\<close>

function pairs_loop :: "string \<Rightarrow> nat \<Rightarrow> FormEntry list \<Rightarrow> FormEntry list res" where
  "pairs_loop data oldPos acc =
     (case str_find data ''='' oldPos of
        None \<Rightarrow> Inr acc
      | Some pos \<Rightarrow>
          bind_res (str_substr data oldPos (Some (pos - oldPos))) (\<lambda>n.
            let name = form_urldecode n;
                oldPos1 = pos + 1;
                pos1 = str_find data ''&'' oldPos1
            in bind_res (str_substr data oldPos1 (map_option (\<lambda>p. p - oldPos1) pos1)) (\<lambda>v.
                 let acc1 = acc @ [\<lparr>entry_name = name, entry_value = form_urldecode v\<rparr>]
                 in case pos1 of None \<Rightarrow> Inr acc1 | Some p \<Rightarrow> pairs_loop data (p + 1) acc1)))"
  by pat_completeness auto
termination
  by (relation "measure (\<lambda>(data, oldPos, acc). length data - oldPos)")
    (auto dest!: str_find_bound str_find_bound [OF sym])

declare pairs_loop.simps [simp del]

definition parseHeader :: "string \<Rightarrow> MultipartHeader res" where
  "parseHeader data =
     bind_res (extractBetween data ''Content-Disposition: '' '';'') (\<lambda>disposition.
     bind_res (extractBetween data (''name='' @ [CHR 0x22]) [CHR 0x22]) (\<lambda>name.
     bind_res (extractBetween data (''filename='' @ [CHR 0x22]) [CHR 0x22]) (\<lambda>filename.
     bind_res (extractBetween data ''Content-Type: '' [CHR 0x0D, CHR 0x0A, CHR 0x0D, CHR 0x0A]) (\<lambda>cType.
       Inr \<lparr>mh_disposition = disposition, mh_name = name, mh_filename = form_urldecode filename,
            mh_contentType = cType\<rparr>))))"

text \<open>
  \<open>data.length() - valueStart - 2\<close> is a \<open>size_t\<close>: when fewer than two characters
  follow the header the count wraps to a number no smaller than what is left.
\<close>

definition parseMIME :: "Cgicc \<Rightarrow> string \<Rightarrow> Cgicc res" where
  "parseMIME st data =
     (let end = [CHR 0x0D, CHR 0x0A, CHR 0x0D, CHR 0x0A]
      in case str_find data end 0 of
           None \<Rightarrow> Inl (Runtime_error ''Malformed input'')
         | Some headLimit \<Rightarrow>
             (let valueStart = headLimit + length end
              in bind_res (str_substr data valueStart
                    (if length data - valueStart \<ge> 2 then Some (length data - valueStart - 2) else None))
                  (\<lambda>value.
                    bind_res (str_substr data 0 (Some valueStart)) (\<lambda>h.
                      bind_res (parseHeader h) (\<lambda>head.
                        if mh_filename head = []
                        then Inr (st\<lparr>fFormData := fFormData st @
                               [\<lparr>entry_name = mh_name head, entry_value = value\<rparr>]\<rparr>)
                        else Inr (st\<lparr>fFormFiles := fFormFiles st @
                               [new_FormFile (mh_name head) (mh_filename head) (mh_contentType head) value]\<rparr>))))))"

definition sep1_of :: "string \<Rightarrow> string" where
  "sep1_of boundary = ''--'' @ boundary @ [CHR 0x0D, CHR 0x0A]"

definition sep2_of :: "string \<Rightarrow> string" where
  "sep2_of boundary = ''--'' @ boundary @ ''--'' @ [CHR 0x0D, CHR 0x0A]"

function mime_loop :: "Cgicc \<Rightarrow> string \<Rightarrow> string \<Rightarrow> nat \<Rightarrow> (nat \<times> Cgicc) res" where
  "mime_loop st data boundary oldPos =
     (case str_find data (sep1_of boundary) oldPos of
        None \<Rightarrow> Inr (oldPos, st)
      | Some pos \<Rightarrow>
          bind_res (str_substr data oldPos (Some (pos - oldPos))) (\<lambda>part.
            bind_res (parseMIME st part) (\<lambda>st1.
              mime_loop st1 data boundary (pos + length (sep1_of boundary)))))"
  by pat_completeness auto
termination
  by (relation "measure (\<lambda>(st, data, boundary, oldPos). length data - oldPos)")
    (auto simp: sep1_of_def dest!: str_find_bound)

declare mime_loop.simps [simp del]

definition parseFormInput :: "Cgicc \<Rightarrow> string \<Rightarrow> string \<Rightarrow> Cgicc res" where
  "parseFormInput st data content_type =
     (if data = [] then Inr st
      else if content_type = [] \<or> stringsAreEqual_n content_type standard_type (length standard_type)
      then bind_res (pairs_loop data 0 (fFormData st)) (\<lambda>es. Inr (st\<lparr>fFormData := es\<rparr>))
      else if stringsAreEqual_n multipart_type content_type (length multipart_type) then
        (let bType = ''boundary='';
             pos = str_find content_type bType 0
         in bind_res (str_substr content_type (pos_add pos (length bType)) None) (\<lambda>boundary.
              let start = str_find data (sep1_of boundary) 0
              in bind_res (mime_loop st data boundary (pos_add start (length (sep1_of boundary))))
                   (\<lambda>(oldPos, st1).
                     case str_find data (sep2_of boundary) oldPos of
                       None \<Rightarrow> Inr st1
                     | Some pos2 \<Rightarrow>
                         bind_res (str_substr data oldPos (Some (pos2 - oldPos))) (parseMIME st1))))
      else Inr st)"

definition parseCookie :: "Cgicc \<Rightarrow> string \<Rightarrow> Cgicc res" where
  "parseCookie st data =
     (case str_find data ''='' 0 of
        None \<Rightarrow> Inr st
      | Some pos \<Rightarrow>
          (let wscount = length (takeWhile isspace data)
           in bind_res (str_substr data wscount (if wscount \<le> pos then Some (pos - wscount) else None))
                (\<lambda>name. bind_res (str_substr data (pos + 1) None) (\<lambda>value.
                   Inr (st\<lparr>fCookies := fCookies st @ [new_HTTPCookie name value]\<rparr>)))))"

function cookies_loop :: "Cgicc \<Rightarrow> string \<Rightarrow> nat \<Rightarrow> Cgicc res" where
  "cookies_loop st data oldPos =
     (case str_find data '';'' oldPos of
        None \<Rightarrow> bind_res (str_substr data oldPos None) (parseCookie st)
      | Some pos \<Rightarrow>
          bind_res (str_substr data oldPos (Some (pos - oldPos))) (\<lambda>c.
            bind_res (parseCookie st c) (\<lambda>st1. cookies_loop st1 data (pos + 1))))"
  by pat_completeness auto
termination
  by (relation "measure (\<lambda>(st, data, oldPos). length data - oldPos)") (auto dest!: str_find_bound)

declare cookies_loop.simps [simp del]

definition parseCookies :: "Cgicc \<Rightarrow> string \<Rightarrow> Cgicc res" where
  "parseCookies st data = (if data \<noteq> [] then cookies_loop st data 0 else Inr st)"

definition new_Cgicc :: "string \<Rightarrow> string \<Rightarrow> string \<Rightarrow> string \<Rightarrow> Cgicc res" where
  "new_Cgicc query cookie data type =
     (let st = \<lparr>fFormData = [], fFormFiles = [], fCookies = [], fQueryString = query,
                fCookie = cookie, fPostData = data, fQueryType = type\<rparr>
      in bind_res (parseFormInput st (fPostData st) (fQueryType st)) (\<lambda>st1.
           bind_res (parseFormInput st1 (fQueryString st1) standard_type) (\<lambda>st2.
             parseCookies st2 (fCookie st2))))"

text \<open>The assignment operator reads nothing of its argument, and the copy constructor calls it.\<close>

definition assign_Cgicc :: "Cgicc \<Rightarrow> Cgicc \<Rightarrow> Cgicc res" where
  "assign_Cgicc st cgi =
     (let st0 = st\<lparr>fFormData := [], fFormFiles := []\<rparr>
      in bind_res (parseFormInput st0 (fPostData st0) (fQueryType st0)) (\<lambda>st1.
           parseFormInput st1 (fQueryString st1) standard_type))"

definition copy_Cgicc :: "Cgicc \<Rightarrow> Cgicc res" where
  "copy_Cgicc cgi =
     assign_Cgicc \<lparr>fFormData = [], fFormFiles = [], fCookies = [], fQueryString = fQueryString cgi,
        fCookie = fCookie cgi, fPostData = fPostData cgi, fQueryType = fQueryType cgi\<rparr> cgi"

definition eq_Cgicc :: "Cgicc \<Rightarrow> Cgicc \<Rightarrow> bool" where
  "eq_Cgicc a b \<longleftrightarrow> fPostData a = fPostData b \<and> fCookie a = fCookie b \<and>
     fQueryType a = fQueryType b \<and> fQueryString a = fQueryString b"

text \<open>An iterator is the element it points to, or \<^term>\<open>None\<close> at the end.\<close>

definition getElement :: "Cgicc \<Rightarrow> string \<Rightarrow> FormEntry option" where
  "getElement st name = List.find (\<lambda>e. stringsAreEqual name (entry_name e)) (fFormData st)"

definition getElementByValue :: "Cgicc \<Rightarrow> string \<Rightarrow> FormEntry option" where
  "getElementByValue st v = List.find (\<lambda>e. stringsAreEqual v (entry_value e)) (fFormData st)"

definition getFile :: "Cgicc \<Rightarrow> string \<Rightarrow> FormFile option" where
  "getFile st name = List.find (\<lambda>f. stringsAreEqual name (file_name f)) (fFormFiles st)"

fun copy_if :: "('a \<Rightarrow> bool) \<Rightarrow> 'a list \<Rightarrow> 'a list \<Rightarrow> 'a list" where
  "copy_if p [] res = res"
| "copy_if p (x # xs) res = copy_if p xs (if p x then res @ [x] else res)"

definition findEntries :: "Cgicc \<Rightarrow> string \<Rightarrow> bool \<Rightarrow> bool \<times> FormEntry list" where
  "findEntries st param byName =
     (let result =
        (if byName then copy_if (\<lambda>e. stringsAreEqual param (entry_name e)) (fFormData st) []
         else copy_if (\<lambda>e. stringsAreEqual param (entry_value e)) (fFormData st) [])
      in (result \<noteq> [], result))"

definition queryCheckbox :: "Cgicc \<Rightarrow> string \<Rightarrow> bool" where
  "queryCheckbox st elementName =
     (case getElement st elementName of None \<Rightarrow> False | Some e \<Rightarrow> stringsAreEqual (entry_value e) ''on'')"

definition apply_Cgicc :: "Cgicc \<Rightarrow> string \<Rightarrow> string" where
  "apply_Cgicc st name =
     (case getElement st name of None \<Rightarrow> [] | Some e \<Rightarrow> if \<not> isEmpty e then entry_value e else [])"

section \<open>Values of form entries\<close>

lemma makeString_loop_stripped:
  "makeString_loop avail False len src dst
     = dst @ take (avail - len) (filter (\<lambda>c. \<not> is_newline c) src)"
proof (induction "length src" arbitrary: len src dst rule: less_induct)
  case less
  show ?case
  proof (cases "src \<noteq> [] \<and> len < avail")
    case False
    then show ?thesis by (subst makeString_loop.simps) auto
  next
    case True
    then obtain c cs where src: "src = c # cs" by (cases src) auto
    have "filter (\<lambda>c. \<not> is_newline c) (dropWhile is_newline cs) = filter (\<lambda>c. \<not> is_newline c) cs"
      by (induction cs) auto
    with less [of "dropWhile is_newline src" len dst] less [of cs "len + 1" "dst @ [c]"] True src
    show ?thesis
      by (subst makeString_loop.simps)
        (auto simp: Let_def le_imp_less_Suc length_dropWhile_le take_Cons' Suc_diff_le)
  qed
qed

lemma makeString_loop_no_cr:
  "CHR 0x0D \<notin> set dst \<Longrightarrow> CHR 0x0D \<notin> set (makeString_loop avail allow len src dst)"
proof (induction avail allow len src dst rule: makeString_loop.induct)
  case (1 avail allow len src dst)
  then show ?case
    by (subst makeString_loop.simps) (auto simp: Let_def is_newline_def)
qed

lemma copy_if_eq: "copy_if p xs res = res @ filter p xs"
  by (induction xs arbitrary: res) auto

section \<open>Query strings\<close>

text \<open>
  The pairs of a URL-encoded string: a name runs to the next \<open>=\<close>, a value to the next
  \<open>&\<close> or to the end; what follows the last \<open>&\<close> without a \<open>=\<close> is dropped.
\<close>

function query_pairs :: "string \<Rightarrow> (string \<times> string) list" where
  "query_pairs s =
     (case search ''='' s of
        None \<Rightarrow> []
      | Some i \<Rightarrow>
          (let rest = drop (i + 1) s
           in case search ''&'' rest of
                None \<Rightarrow> [(form_urldecode (take i s), form_urldecode rest)]
              | Some j \<Rightarrow> (form_urldecode (take i s), form_urldecode (take j rest))
                          # query_pairs (drop (j + 1) rest)))"
  by pat_completeness auto
termination
  by (relation "measure length") (auto dest!: search_bound)

declare query_pairs.simps [simp del]

definition entry_of :: "string \<times> string \<Rightarrow> FormEntry" where
  "entry_of kv = \<lparr>entry_name = fst kv, entry_value = snd kv\<rparr>"

lemma str_find_drop: "pos \<le> length s \<Longrightarrow> str_find s pat pos = map_option ((+) pos) (search pat (drop pos s))"
  by (simp add: str_find_def)

lemma pairs_loop_spec:
  "oldPos \<le> length data \<Longrightarrow>
   pairs_loop data oldPos acc = Inr (acc @ map entry_of (query_pairs (drop oldPos data)))"
proof (induction data oldPos acc rule: pairs_loop.induct)
  case (1 data oldPos acc)
  show ?case
  proof (cases "search ''='' (drop oldPos data)")
    case None
    with "1.prems" show ?thesis
      by (simp add: pairs_loop.simps [of data oldPos] query_pairs.simps [of "drop oldPos data"] str_find_drop)
  next
    case (Some i)
    with search_bound [OF Some] "1.prems" have i: "oldPos + i + 1 \<le> length data" by simp
    have f: "str_find data ''='' oldPos = Some (oldPos + i)"
      using Some "1.prems" by (simp add: str_find_drop)
    show ?thesis
    proof (cases "search ''&'' (drop (oldPos + i + 1) data)")
      case None
      with f Some i "1.prems" show ?thesis
        by (simp add: pairs_loop.simps [of data oldPos] query_pairs.simps [of "drop oldPos data"]
            str_find_drop str_substr_def entry_of_def ac_simps)
    next
      case amp: (Some j)
      with search_bound [OF amp] i have j: "oldPos + i + 1 + j + 1 \<le> length data" by simp
      from "1.IH" [OF f _ refl refl refl _ refl, of "take i (drop oldPos data)"
          "take j (drop (oldPos + i + 1) data)" "oldPos + i + 1 + j"] f Some i j amp "1.prems"
      show ?thesis
        by (simp add: pairs_loop.simps [of data oldPos] query_pairs.simps [of "drop oldPos data"]
            str_find_drop str_substr_def entry_of_def ac_simps)
    qed
  qed
qed

fun encode_query :: "(string \<times> string) list \<Rightarrow> string" where
  "encode_query [] = []"
| "encode_query [(k, v)] = form_urlencode k @ ''='' @ form_urlencode v"
| "encode_query ((k, v) # kvs) = form_urlencode k @ ''='' @ form_urlencode v @ ''&'' @ encode_query kvs"

lemma query_pairs_encode: "query_pairs (encode_query kvs) = kvs"
proof (induction kvs rule: encode_query.induct)
  case 1
  then show ?case by (simp add: query_pairs.simps)
next
  case (2 k v)
  have "search ''='' (form_urlencode k @ ''='' @ form_urlencode v) = Some (length (form_urlencode k))"
    "search ''&'' (form_urlencode v) = None"
    by (simp_all add: search_char form_urlencode_no_separator search_char_None)
  then show ?case
    using form_urldecode_encode [of k "[]"] form_urldecode_encode [of v "[]"]
    by (subst query_pairs.simps) simp
next
  case (3 k v kv kvs)
  have "search ''='' (form_urlencode k @ ''='' @ form_urlencode v @ ''&'' @ encode_query (kv # kvs))
      = Some (length (form_urlencode k))"
    by (simp add: search_char form_urlencode_no_separator)
  moreover have "search ''&'' (form_urlencode v @ ''&'' @ encode_query (kv # kvs))
      = Some (length (form_urlencode v))"
    by (simp add: search_char form_urlencode_no_separator)
  ultimately show ?case
    using 3 form_urldecode_encode [of k "[]"] form_urldecode_encode [of v "[]"]
    by (subst query_pairs.simps) simp
qed

section \<open>Cookies\<close>

definition cookie_of :: "string \<Rightarrow> HTTPCookie list" where
  "cookie_of d =
     (case search ''='' d of
        None \<Rightarrow> []
      | Some i \<Rightarrow> [new_HTTPCookie (dropWhile isspace (take i d)) (drop (i + 1) d)])"

function split_cookies :: "string \<Rightarrow> string list" where
  "split_cookies s =
     (case search '';'' s of None \<Rightarrow> [s] | Some i \<Rightarrow> take i s # split_cookies (drop (i + 1) s))"
  by pat_completeness auto
termination
  by (relation "measure length") (auto dest!: search_bound)

declare split_cookies.simps [simp del]

lemma drop_takeWhile: "drop (length (takeWhile p xs)) xs = dropWhile p xs"
  by (metis append_eq_conv_conj takeWhile_dropWhile_id)

lemma parseCookie_spec:
  "parseCookie st d = Inr (st\<lparr>fCookies := fCookies st @ cookie_of d\<rparr>)"
proof (cases "search ''='' d")
  case None
  then show ?thesis by (simp add: parseCookie_def cookie_of_def str_find_drop)
next
  case (Some i)
  then obtain us vs where d: "d = us @ ''='' @ vs" and i: "length us = i"
    using search_Some_split by blast
  have eq: "\<not> isspace (CHR ''='')" by code_simp
  then have ws: "takeWhile isspace d = takeWhile isspace us" unfolding d by (simp add: takeWhile_append)
      (metis takeWhile_eq_all_conv)
  moreover have "length (takeWhile isspace us) \<le> i" using i length_takeWhile_le by metis
  moreover have "take (i - length (takeWhile isspace us)) (drop (length (takeWhile isspace us)) d)
      = dropWhile isspace (take i d)"
    using i by (simp add: d take_drop drop_takeWhile [symmetric])
  ultimately show ?thesis
    using Some i by (simp add: parseCookie_def cookie_of_def str_find_drop str_substr_def Let_def)
       (simp add: d)
qed

lemma cookies_loop_spec:
  "oldPos \<le> length data \<Longrightarrow> cookies_loop st data oldPos
     = Inr (st\<lparr>fCookies := fCookies st @ concat (map cookie_of (split_cookies (drop oldPos data)))\<rparr>)"
proof (induction st data oldPos rule: cookies_loop.induct)
  case (1 st data oldPos)
  show ?case
  proof (cases "search '';'' (drop oldPos data)")
    case None
    with "1.prems" show ?thesis
      by (simp add: cookies_loop.simps [of st data oldPos] split_cookies.simps [of "drop oldPos data"]
          str_find_drop str_substr_def parseCookie_spec)
  next
    case (Some i)
    with search_bound [OF Some] "1.prems" have i: "oldPos + i + 1 \<le> length data" by simp
    have f: "str_find data '';'' oldPos = Some (oldPos + i)"
      using Some "1.prems" by (simp add: str_find_drop)
    from "1.IH" [OF f _ parseCookie_spec, of "take i (drop oldPos data)"] f Some i "1.prems"
    show ?thesis
      by (simp add: cookies_loop.simps [of st data oldPos] split_cookies.simps [of "drop oldPos data"]
          str_substr_def parseCookie_spec ac_simps)
  qed
qed

section \<open>Cookie headers\<close>

lemma split_cookies_single: "CHR '';'' \<notin> set c \<Longrightarrow> split_cookies c = [c]"
  using search_char_None [of "CHR '';''" c] by (simp add: split_cookies.simps [of c])

lemma split_cookies_Cons: "CHR '';'' \<notin> set c \<Longrightarrow> split_cookies (c @ CHR '';'' # r) = c # split_cookies r"
  by (simp add: split_cookies.simps [of "c @ CHR '';'' # r"] search_char)

fun encode_cookies :: "(string \<times> string) list \<Rightarrow> string" where
  "encode_cookies [] = []"
| "encode_cookies [(k, v)] = k @ ''='' @ v"
| "encode_cookies ((k, v) # kvs) = k @ ''='' @ v @ ''; '' @ encode_cookies kvs"

definition cookie_ok :: "string \<times> string \<Rightarrow> bool" where
  "cookie_ok kv \<longleftrightarrow> CHR '';'' \<notin> set (fst kv) \<and> CHR ''='' \<notin> set (fst kv) \<and> CHR '';'' \<notin> set (snd kv) \<and>
     (fst kv = [] \<or> \<not> isspace (hd (fst kv)))"

lemma isspace_blank [simp]: "isspace (CHR '' '')"
  by code_simp

lemma cookie_of_pair:
  assumes "cookie_ok (k, v)"
  shows "cookie_of (k @ CHR ''='' # v) = [new_HTTPCookie k v]"
    "cookie_of (CHR '' '' # k @ CHR ''='' # v) = [new_HTTPCookie k v]"
proof -
  have k: "dropWhile isspace k = k" using assms by (cases k) (auto simp: cookie_ok_def)
  have "search ''='' (k @ CHR ''='' # v) = Some (length k)"
    using assms by (intro search_char) (simp add: cookie_ok_def)
  then show "cookie_of (k @ CHR ''='' # v) = [new_HTTPCookie k v]"
    "cookie_of (CHR '' '' # k @ CHR ''='' # v) = [new_HTTPCookie k v]"
    using k by (simp_all add: cookie_of_def)
qed

lemma cookies_encode:
  assumes "\<forall>kv \<in> set kvs. cookie_ok kv"
  shows "concat (map cookie_of (split_cookies (encode_cookies kvs))) = map (\<lambda>(k, v). new_HTTPCookie k v) kvs
    \<and> concat (map cookie_of (split_cookies (CHR '' '' # encode_cookies kvs))) = map (\<lambda>(k, v). new_HTTPCookie k v) kvs"
  using assms
proof (induction kvs rule: encode_cookies.induct)
  case 1
  then show ?case by (simp add: split_cookies_single cookie_of_def)
next
  case (2 k v)
  then have "CHR '';'' \<notin> set (k @ CHR ''='' # v)" by (auto simp: cookie_ok_def)
  with 2 show ?case by (simp add: split_cookies_single cookie_of_pair)
next
  case (3 k v kv kvs)
  then have "CHR '';'' \<notin> set (k @ CHR ''='' # v)" by (auto simp: cookie_ok_def)
  with 3 split_cookies_Cons [of "k @ CHR ''='' # v" "CHR '' '' # encode_cookies (kv # kvs)"]
    split_cookies_Cons [of "CHR '' '' # k @ CHR ''='' # v" "CHR '' '' # encode_cookies (kv # kvs)"]
  show ?case by (simp add: cookie_of_pair)
qed

section \<open>Faults\<close>

lemma str_substr_ok: "pos \<le> length s \<Longrightarrow> \<exists>r. str_substr s pos n = Inr r"
  by (simp add: str_substr_def)

lemma extractBetween_ok: "\<exists>r. extractBetween d s1 s2 = Inr r"
  by (auto simp: extractBetween_def Let_def split: option.splits dest!: str_find_bound intro!: str_substr_ok)

lemma parseHeader_ok: "\<exists>h. parseHeader d = Inr h"
proof -
  obtain r1 r2 r3 r4 where "extractBetween d ''Content-Disposition: '' '';'' = Inr r1"
    "extractBetween d (''name='' @ [CHR 0x22]) [CHR 0x22] = Inr r2"
    "extractBetween d (''filename='' @ [CHR 0x22]) [CHR 0x22] = Inr r3"
    "extractBetween d ''Content-Type: '' [CHR 0x0D, CHR 0x0A, CHR 0x0D, CHR 0x0A] = Inr r4"
    using extractBetween_ok by metis
  then show ?thesis by (simp add: parseHeader_def)
qed

definition crlf2 :: string where "crlf2 = [CHR 0x0D, CHR 0x0A, CHR 0x0D, CHR 0x0A]"

text \<open>The only fault of the parser is the exception for a part without an end of its header.\<close>

lemma parseMIME_malformed:
  "search crlf2 d = None \<Longrightarrow> parseMIME st d = Inl (Runtime_error ''Malformed input'')"
  by (simp add: parseMIME_def str_find_drop crlf2_def Let_def)

lemma parseMIME_ok:
  assumes "search crlf2 d = Some i"
  shows "\<exists>st'. parseMIME st d = Inr st'"
proof -
  from search_bound [OF assms] have "i + 4 \<le> length d" by (simp add: crlf2_def)
  moreover obtain h where "parseHeader (take (Suc (Suc (Suc (Suc i)))) d) = Inr h"
    using parseHeader_ok by blast
  ultimately show ?thesis
    using assms by (simp add: parseMIME_def str_find_drop str_substr_def Let_def crlf2_def)
qed

lemma parseMIME_fault: "parseMIME st d = Inl e \<Longrightarrow> e = Runtime_error ''Malformed input''"
  using parseMIME_malformed [of d st] parseMIME_ok [of d _ st] by (cases "search crlf2 d") auto
lemma mime_loop_fault: "mime_loop st data b oldPos = Inl e \<Longrightarrow> e = Runtime_error ''Malformed input''"
proof (induction st data b oldPos rule: mime_loop.induct)
  case (1 st data b oldPos)
  show ?case
  proof (cases "str_find data (sep1_of b) oldPos")
    case None
    with "1.prems" show ?thesis by (simp add: mime_loop.simps [of st])
  next
    case (Some pos)
    then obtain part where part: "str_substr data oldPos (Some (pos - oldPos)) = Inr part"
      using str_substr_ok [of oldPos data] str_find_bound [OF Some] by auto
    with "1.prems" Some have "bind_res (parseMIME st part)
        (\<lambda>st1. mime_loop st1 data b (pos + length (sep1_of b))) = Inl e"
      by (simp add: mime_loop.simps [of st])
    then show ?thesis
      using "1.IH" [OF Some part] parseMIME_fault by (auto simp: bind_res_eq_Inl)
  qed
qed

lemma parseFormInput_fault:
  assumes "parseFormInput st data type = Inl e"
  shows "e = Runtime_error ''Malformed input'' \<and> stringsAreEqual_n multipart_type type (length multipart_type)"
proof (cases "data = [] \<or> type = [] \<or> stringsAreEqual_n type standard_type (length standard_type)
    \<or> \<not> stringsAreEqual_n multipart_type type (length multipart_type)")
  case True
  with assms show ?thesis
    using pairs_loop_spec [of 0 data "fFormData st"] by (auto simp: parseFormInput_def split: if_splits)
next
  case False
  then have m: "stringsAreEqual_n multipart_type type (length multipart_type)" by simp
  then have len: "19 \<le> length type" by (simp add: stringsAreEqual_n_iff multipart_type_def)
  define pos where "pos = pos_add (str_find type ''boundary='' 0) (length ''boundary='')"
  have "pos \<le> length type"
    using len by (auto simp: pos_def pos_add_def split: option.splits dest!: str_find_bound)
  then obtain b where b: "str_substr type pos None = Inr b" using str_substr_ok by blast
  let ?start = "pos_add (str_find data (sep1_of b) 0) (length (sep1_of b))"
  from assms False b have "bind_res (mime_loop st data b ?start) (\<lambda>(oldPos, st1).
      case str_find data (sep2_of b) oldPos of None \<Rightarrow> Inr st1
      | Some pos2 \<Rightarrow> bind_res (str_substr data oldPos (Some (pos2 - oldPos))) (parseMIME st1)) = Inl e"
    unfolding parseFormInput_def Let_def pos_def [symmetric] by simp
  then have "mime_loop st data b ?start = Inl e \<or> (\<exists>st1 d. parseMIME st1 d = Inl e)"
    by (auto simp: bind_res_eq_Inl str_substr_def split: option.splits if_splits dest!: str_find_bound)
  with m show ?thesis using mime_loop_fault parseMIME_fault by blast
qed

lemma parseCookies_ok: "\<exists>st'. parseCookies st data = Inr st'"
  using cookies_loop_spec [of 0 data st] by (simp add: parseCookies_def)

lemma parseFormInput_standard:
  "parseFormInput st data standard_type = Inr (st\<lparr>fFormData := fFormData st @ map entry_of (query_pairs data)\<rparr>)"
proof -
  have "query_pairs [] = []" by (simp add: query_pairs.simps)
  then show ?thesis
    using pairs_loop_spec [of 0 data "fFormData st"]
    by (auto simp: parseFormInput_def stringsAreEqual_n_iff)
qed

section \<open>Multipart bodies\<close>

lemma search_skip_if:
  "(\<And>j. j < length p \<Longrightarrow> \<not> prefix pat (drop j p @ t)) \<Longrightarrow>
   search pat (p @ t) = map_option ((+) (length p)) (search pat t)"
proof (induction p)
  case Nil
  then show ?case by (simp add: option.map_ident)
next
  case (Cons x p)
  from Cons.prems [of 0] Cons.prems [of "Suc j" for j] show ?case
    by (simp add: Cons.IH option.map_comp comp_def)
qed

lemma search_hd:
  assumes "c \<notin> set p"
  shows "search (c # cs) (p @ t) = map_option ((+) (length p)) (search (c # cs) t)"
proof (rule search_skip_if)
  fix j assume "j < length p"
  then have "drop j p = p ! j # drop (Suc j) p" "p ! j \<in> set p" by (simp_all add: Cons_nth_drop_Suc)
  with assms show "\<not> prefix (c # cs) (drop j p @ t)" by auto
qed

lemma search_absent: "c \<in> set pat \<Longrightarrow> c \<notin> set xs \<Longrightarrow> search pat xs = None"
  by (auto simp: search_None_iff)

text \<open>
  A separator whose last character occurs nowhere else in it cannot straddle the end of a text
  that ends with that character.
\<close>

lemma occurrence_not_straddling:
  assumes "us @ sep @ vs = p @ t" and "c \<notin> set (butlast sep)" and "last p = c"
    and "length us < length p"
  shows "length us + length sep \<le> length p"
proof (rule ccontr)
  assume "\<not> length us + length sep \<le> length p"
  then have k: "length p - 1 - length us < length (butlast sep)" using assms(4) by simp
  have p: "length p - 1 < length p" using assms(4) by linarith
  from assms(3,4) have "c = p ! (length p - 1)" by (metis last_conv_nth length_0_conv less_nat_zero_code)
  also have "\<dots> = (p @ t) ! (length p - 1)" using p by (simp add: nth_append)
  also have "\<dots> = (us @ sep @ vs) ! (length p - 1)" by (simp add: assms(1))
  also have "\<dots> = sep ! (length p - 1 - length us)"
  proof -
    have "\<not> length p - 1 < length us" "length p - 1 - length us < length sep"
      using k assms(4) by simp_all
    then show ?thesis by (simp add: nth_append del: One_nat_def)
  qed
  also have "\<dots> = butlast sep ! (length p - 1 - length us)" using k by (simp add: nth_butlast)
  finally show False using k assms(2) nth_mem by metis
qed

lemma occurrence_in_prefix:
  assumes "us @ sep @ vs = p @ t" and "length us + length sep \<le> length p"
  shows "\<exists>ws. p = us @ sep @ ws"
proof -
  have "p = take (length p) (us @ sep @ vs)" using assms(1) by simp
  also have "\<dots> = us @ sep @ take (length p - length us - length sep) vs"
    using assms(2) by simp
  finally show ?thesis by blast
qed

lemma search_skip:
  assumes "c \<notin> set (butlast sep)" and "last p = c" and "search sep p = None"
  shows "search sep (p @ t) = map_option ((+) (length p)) (search sep t)"
proof (rule search_skip_if)
  fix j assume j: "j < length p"
  show "\<not> prefix sep (drop j p @ t)"
  proof
    assume "prefix sep (drop j p @ t)"
    then obtain vs where "drop j p @ t = sep @ vs" by (auto simp: prefix_def)
    then have occ: "take j p @ sep @ vs = p @ t" by (metis append.assoc append_take_drop_id)
    have "length (take j p) < length p" using j by simp
    from occurrence_in_prefix [OF occ occurrence_not_straddling [OF occ assms(1,2) this]]
    show False using assms(3) by (auto simp: search_None_iff)
  qed
qed
text \<open>The body of a form with the given parts: each part ends its last line.\<close>

fun mime_body :: "string \<Rightarrow> string list \<Rightarrow> string" where
  "mime_body b [] = []"
| "mime_body b [p] = p @ sep2_of b"
| "mime_body b (p # ps) = p @ sep1_of b @ mime_body b ps"

definition boundary_ok :: "string \<Rightarrow> bool" where
  "boundary_ok b \<longleftrightarrow> CHR 0x0A \<notin> set b \<and> b @ ''--'' \<noteq> ''--'' @ b"

definition part_ok :: "string \<Rightarrow> string \<Rightarrow> bool" where
  "part_ok b p \<longleftrightarrow> last p = CHR 0x0A \<and> search (sep1_of b) p = None \<and> search (sep2_of b) p = None"

lemma sep_butlast:
  "boundary_ok b \<Longrightarrow> CHR 0x0A \<notin> set (butlast (sep1_of b))"
  "boundary_ok b \<Longrightarrow> CHR 0x0A \<notin> set (butlast (sep2_of b))"
  by (simp_all add: boundary_ok_def sep1_of_def sep2_of_def butlast_append)

lemma sep1_not_in_sep2:
  assumes "boundary_ok b"
  shows "search (sep1_of b) (sep2_of b) = None"
proof (rule ccontr)
  assume "search (sep1_of b) (sep2_of b) \<noteq> None"
  then obtain us vs where occ: "sep2_of b = us @ sep1_of b @ vs" by (metis search_None_iff)
  have "vs = []"
  proof (rule ccontr)
    assume "vs \<noteq> []"
    then have "butlast (sep2_of b) = us @ sep1_of b @ butlast vs" unfolding occ
      by (simp add: butlast_append sep1_of_def)
    then have "CHR 0x0A \<in> set (butlast (sep2_of b))" by (simp add: sep1_of_def)
    with sep_butlast [OF assms] show False by simp
  qed
  with occ have o: "us @ ''--'' @ b = ''--'' @ b @ ''--''" by (simp add: sep1_of_def sep2_of_def)
  have us: "length us = length ''--''" using arg_cong [OF o, of length] by simp
  with o have "''--'' @ b = b @ ''--''" unfolding append_eq_append_conv [OF disjI1, OF us] by simp
  with assms show False unfolding boundary_ok_def by metis
qed

lemma mime_loop_parts:
  assumes "boundary_ok b" and "\<forall>p \<in> set ps. part_ok b p" and "ps \<noteq> []"
    and "drop oldPos data = mime_body b ps" and "oldPos \<le> length data"
  shows "bind_res (mime_loop st data b oldPos) (\<lambda>(oldPos, st1).
      case str_find data (sep2_of b) oldPos of None \<Rightarrow> Inr st1
      | Some pos2 \<Rightarrow> bind_res (str_substr data oldPos (Some (pos2 - oldPos))) (parseMIME st1))
    = run_all parseMIME st ps"
  using assms
proof (induction b ps arbitrary: st oldPos rule: mime_body.induct)
  case (1 b)
  then show ?case by simp
next
  case (2 b p)
  have "search (sep1_of b) (p @ sep2_of b) = None"
    using 2 sep_butlast [of b] sep1_not_in_sep2 [of b]
    by (subst search_skip [of "CHR 0x0A"]) (auto simp: part_ok_def)
  moreover have "search (sep2_of b) (p @ sep2_of b) = Some (length p)"
    using 2 sep_butlast [of b] search_prefix [of "sep2_of b" "[]"]
    by (subst search_skip [of "CHR 0x0A"]) (auto simp: part_ok_def)
  ultimately show ?case
    using 2 by (cases "parseMIME st p") (simp_all add: mime_loop.simps [of st] str_find_drop str_substr_def)
next
  case (3 b p q ps)
  let ?r = "mime_body b (q # ps)"
  have s: "search (sep1_of b) (p @ sep1_of b @ ?r) = Some (length p)"
    using "3.prems" sep_butlast [of b] search_prefix [of "sep1_of b" ?r]
    by (subst search_skip [of "CHR 0x0A"]) (auto simp: part_ok_def)
  have d: "drop oldPos data = p @ sep1_of b @ ?r" using "3.prems"(4) by simp
  then have "drop (oldPos + length p + length (sep1_of b)) data = ?r"
    by (metis append.assoc append_eq_conv_conj drop_drop add.commute length_append add.assoc)
  moreover have "oldPos + length p + length (sep1_of b) \<le> length data"
    using "3.prems"(5) arg_cong [OF d, of length] by simp
  ultimately have rec: "bind_res (mime_loop st' data b (oldPos + length p + length (sep1_of b)))
      (\<lambda>(oldPos, st1). case str_find data (sep2_of b) oldPos of None \<Rightarrow> Inr st1
      | Some pos2 \<Rightarrow> bind_res (str_substr data oldPos (Some (pos2 - oldPos))) (parseMIME st1))
    = run_all parseMIME st' (q # ps)" for st'
    using "3.prems" by (intro "3.IH") auto
  show ?case
    using s d rec "3.prems"(5)
    by (cases "parseMIME st p")
      (simp_all add: mime_loop.simps [of st] str_find_drop str_substr_def bind_res_assoc del: mime_body.simps)
qed


section \<open>Parts\<close>

text \<open>
  The parts a browser sends: a field, or a file with its name and type. The file name is
  encoded as the parser expects it.
\<close>

datatype mime_part =
    Field string string
  | Upload string string string string


fun part_bytes :: "mime_part \<Rightarrow> string" where
  "part_bytes (Field n v) =
     ''Content-Disposition: form-data; name='' @ [CHR 0x22] @ n @ [CHR 0x22] @ crlf2
     @ v @ [CHR 0x0D, CHR 0x0A]"
| "part_bytes (Upload n f t d) =
     ''Content-Disposition: form-data; name='' @ [CHR 0x22] @ n @ [CHR 0x22] @
     ''; filename='' @ [CHR 0x22] @ form_urlencode f @ [CHR 0x22, CHR 0x0D, CHR 0x0A] @
     ''Content-Type: '' @ t @ crlf2 @ d @ [CHR 0x0D, CHR 0x0A]"

definition name_ok :: "string \<Rightarrow> bool" where
  "name_ok n \<longleftrightarrow> CHR 0x22 \<notin> set n \<and> CHR ''='' \<notin> set n \<and> CHR '':'' \<notin> set n \<and> CHR 0x0D \<notin> set n"

fun part_valid :: "mime_part \<Rightarrow> bool" where
  "part_valid (Field n v) \<longleftrightarrow> name_ok n"
| "part_valid (Upload n f t d) \<longleftrightarrow> name_ok n \<and> f \<noteq> [] \<and> t \<noteq> [] \<and> CHR 0x0D \<notin> set t"

fun add_part :: "Cgicc \<Rightarrow> mime_part \<Rightarrow> Cgicc" where
  "add_part st (Field n v) = st\<lparr>fFormData := fFormData st @ [\<lparr>entry_name = n, entry_value = v\<rparr>]\<rparr>"
| "add_part st (Upload n f t d) =
     st\<lparr>fFormFiles := fFormFiles st @ [\<lparr>file_name = n, file_filename = f, file_dataType = t, file_data = d\<rparr>]\<rparr>"

lemma extractBetween_split:
  assumes "d = us @ s1 @ m @ s2 @ vs" and "search s1 d = Some (length us)"
    and "search s2 (m @ s2 @ vs) = Some (length m)"
  shows "extractBetween d s1 s2 = Inr m"
  using assms(2,3) unfolding assms(1)
  by (simp add: extractBetween_def str_find_drop str_substr_def Let_def)
lemma extractBetween_absent: "search s1 d = None \<Longrightarrow> extractBetween d s1 s2 = Inr []"
  by (simp add: extractBetween_def str_find_drop)

lemma parseMIME_at:
  assumes "d = h @ crlf2 @ v @ [CHR 0x0D, CHR 0x0A]" and "search crlf2 d = Some (length h)"
    and "parseHeader (h @ crlf2) = Inr head"
  shows "parseMIME st d = (if mh_filename head = []
      then Inr (st\<lparr>fFormData := fFormData st @ [\<lparr>entry_name = mh_name head, entry_value = v\<rparr>]\<rparr>)
      else Inr (st\<lparr>fFormFiles := fFormFiles st @
        [new_FormFile (mh_name head) (mh_filename head) (mh_contentType head) v]\<rparr>))"
proof -
  have c: "crlf2 = [CHR 0x0D, CHR 0x0A, CHR 0x0D, CHR 0x0A]" by (simp add: crlf2_def)
  show ?thesis
    using assms unfolding c
    by (simp add: parseMIME_def str_find_drop str_substr_def Let_def)
qed

definition part_start :: string where
  "part_start = ''Content-Disposition: form-data; name='' @ [CHR 0x22]"

lemma extract_name:
  assumes "name_ok n" and "d = part_start @ n @ [CHR 0x22] @ vs"
  shows "extractBetween d (''name='' @ [CHR 0x22]) [CHR 0x22] = Inr n"
proof (rule extractBetween_split [of _ "''Content-Disposition: form-data; ''" _ _ _ vs])
  show "search [CHR 0x22] (n @ [CHR 0x22] @ vs) = Some (length n)"
    using assms(1) by (simp add: search_char name_ok_def)
qed (simp_all add: assms(2) part_start_def)

lemma parse_Field:
  assumes n: "name_ok n"
  shows "parseMIME st (part_bytes (Field n v)) = Inr (add_part st (Field n v))"
proof -
  let ?h = "part_start @ n @ [CHR 0x22]"
  let ?r = "n @ CHR 0x22 # crlf2"
  have part: "part_bytes (Field n v) = ?h @ crlf2 @ v @ [CHR 0x0D, CHR 0x0A]"
    by (simp add: part_start_def)
  have "CHR 0x0D \<notin> set ?h" using assms by (simp add: name_ok_def part_start_def)
  then have end_at: "search crlf2 (part_bytes (Field n v)) = Some (length ?h)"
    unfolding part using search_hd [of "CHR 0x0D" ?h _ "crlf2 @ v @ [CHR 0x0D, CHR 0x0A]"]
      search_prefix [of crlf2 "v @ [CHR 0x0D, CHR 0x0A]"] unfolding crlf2_def by simp
  obtain disp where disp: "extractBetween (?h @ crlf2) ''Content-Disposition: '' '';'' = Inr disp"
    using extractBetween_ok by blast
  obtain ct where ct: "extractBetween (?h @ crlf2) ''Content-Type: '' crlf2 = Inr ct"
    using extractBetween_ok by blast
  have name: "extractBetween (?h @ crlf2) (''name='' @ [CHR 0x22]) [CHR 0x22] = Inr n"
    using n by (rule extract_name) (simp add: part_start_def)
  have "search (''filename='' @ [CHR 0x22]) ?r = None"
    using n by (intro search_absent [of "CHR ''=''"]) (auto simp: name_ok_def crlf2_def)
  then have "search (''filename='' @ [CHR 0x22]) (?h @ crlf2) = None" by (simp add: part_start_def)
  from extractBetween_absent [OF this]
  have "parseHeader (?h @ crlf2)
      = Inr \<lparr>mh_disposition = disp, mh_name = n, mh_filename = [], mh_contentType = ct\<rparr>"
    using disp name ct unfolding parseHeader_def crlf2_def [symmetric] by simp
  from parseMIME_at [OF part end_at this] show ?thesis by simp
qed

lemma parse_Upload:
  assumes "part_valid (Upload n f t d)"
  shows "parseMIME st (part_bytes (Upload n f t d)) = Inr (add_part st (Upload n f t d))"
proof -
  let ?q = "[CHR 0x22]"
  let ?f = "form_urlencode f"
  let ?mid = "''; filename='' @ ?q @ ?f @ [CHR 0x22, CHR 0x0D, CHR 0x0A]"
  let ?h = "part_start @ n @ ?q @ ?mid @ ''Content-Type: '' @ t"
  have n: "name_ok n" using assms by simp
  have fc: "x \<notin> set ?f" if "\<not> isalpha x" "\<not> isdigit x" "x \<notin> set url_mark" "x \<noteq> CHR ''+''" "x \<noteq> CHR ''%''" for x
    using that form_urlencode_chars by blast
  have f: "CHR 0x22 \<notin> set ?f" "CHR 0x0D \<notin> set ?f" "CHR '':'' \<notin> set ?f"
    by (rule fc; code_simp)+
  have part: "part_bytes (Upload n f t d) = ?h @ crlf2 @ d @ [CHR 0x0D, CHR 0x0A]"
    by (simp add: part_start_def)
  obtain disp where disp: "extractBetween (?h @ crlf2) ''Content-Disposition: '' '';'' = Inr disp"
    using extractBetween_ok by blast
  have name: "extractBetween (?h @ crlf2) (''name='' @ ?q) ?q = Inr n"
    using n by (rule extract_name) (simp add: part_start_def)
  have "search (''filename='' @ ?q) (n @ ?q) = None"
    using n by (intro search_absent [of "CHR ''=''"]) (auto simp: name_ok_def)
  then have "search (''filename='' @ ?q) ((n @ ?q) @ ?mid @ ''Content-Type: '' @ t @ crlf2)
      = Some (length n + 1 + 2)"
    by (subst search_skip [of "CHR 0x22"]) simp_all
  then have "search (''filename='' @ ?q) (?h @ crlf2) = Some (length (part_start @ n @ ?q @ ''; ''))"
    by (simp add: part_start_def)
  then have fname: "extractBetween (?h @ crlf2) (''filename='' @ ?q) ?q = Inr ?f"
    using f by (intro extractBetween_split [of _ "part_start @ n @ ?q @ ''; ''" _ _ _
          "[CHR 0x0D, CHR 0x0A] @ ''Content-Type: '' @ t @ crlf2"]) (simp_all add: search_char)
  have "search ''Content-Type: '' (n @ ?q @ ?mid) = None"
    using n f by (intro search_absent [of "CHR '':''"]) (auto simp: name_ok_def)
  then have "search ''Content-Type: '' ((n @ ?q @ ?mid) @ ''Content-Type: '' @ t @ crlf2)
      = Some (length (n @ ?q @ ?mid))"
    by (subst search_skip [of "CHR 0x0A"]) simp_all
  then have "search ''Content-Type: '' (?h @ crlf2) = Some (length (part_start @ n @ ?q @ ?mid))"
    by (simp add: part_start_def)
  moreover have "search crlf2 (t @ crlf2) = Some (length t)"
    using assms search_hd [of "CHR 0x0D" t _ crlf2] search_prefix [of crlf2 "[]"] unfolding crlf2_def
    by simp
  ultimately have ct: "extractBetween (?h @ crlf2) ''Content-Type: '' crlf2 = Inr t"
    by (intro extractBetween_split [of _ "part_start @ n @ ?q @ ?mid" _ _ _ "[]"]) simp_all
  have head: "parseHeader (?h @ crlf2)
      = Inr \<lparr>mh_disposition = disp, mh_name = n, mh_filename = f, mh_contentType = t\<rparr>"
    using disp name fname ct form_urldecode_encode [of f "[]"]
    unfolding parseHeader_def crlf2_def [symmetric] by simp
  let ?a = "part_start @ n @ ?q @ ''; filename='' @ ?q @ ?f @ ?q"
  let ?b = "[CHR 0x0A] @ ''Content-Type: '' @ t"
  let ?z = "crlf2 @ d @ [CHR 0x0D, CHR 0x0A]"
  have a: "CHR 0x0D \<notin> set ?a" "CHR 0x0D \<notin> set ?b"
    using n f assms by (simp_all add: name_ok_def part_start_def)
  have "search crlf2 (?b @ ?z) = Some (length ?b)"
    using search_hd [OF a(2), of "tl crlf2" ?z] search_prefix [of crlf2 "d @ [CHR 0x0D, CHR 0x0A]"]
    unfolding crlf2_def by simp
  then have "search crlf2 (CHR 0x0D # ?b @ ?z) = Some (Suc (length ?b))" unfolding crlf2_def by simp
  then have "search crlf2 (?a @ CHR 0x0D # ?b @ ?z) = Some (length ?a + Suc (length ?b))"
    using search_hd [OF a(1), of "tl crlf2" "CHR 0x0D # ?b @ ?z"] unfolding crlf2_def by simp
  then have end_at: "search crlf2 (part_bytes (Upload n f t d)) = Some (length ?h)"
    unfolding part by simp
  from parseMIME_at [OF part end_at head] assms show ?thesis by (simp add: new_FormFile_def)
qed

lemma run_parts:
  "\<forall>p \<in> set ps. part_valid p \<Longrightarrow>
   run_all parseMIME st (map part_bytes ps) = Inr (foldl add_part st ps)"
proof (induction ps arbitrary: st)
  case Nil
  then show ?case by simp
next
  case (Cons p ps)
  have "parseMIME st (part_bytes p) = Inr (add_part st p)"
    using Cons.prems
    by (cases p) (auto simp del: part_bytes.simps add_part.simps intro!: parse_Field parse_Upload)
  with Cons show ?case by simp
qed

definition multipart_content_type :: "string \<Rightarrow> string" where
  "multipart_content_type b = ''multipart/form-data; boundary='' @ b"

lemma multipart_content_type_kind:
  "\<not> stringsAreEqual_n (multipart_content_type b) standard_type (length standard_type)"
  "stringsAreEqual_n multipart_type (multipart_content_type b) (length multipart_type)"
  "multipart_content_type b \<noteq> []"
  by (simp_all add: stringsAreEqual_n_iff multipart_content_type_def standard_type_def
      multipart_type_def toupper_def)

lemma parse_multipart:
  assumes "boundary_ok b" and "\<forall>p \<in> set ps. part_valid p \<and> part_ok b (part_bytes p)" and "ps \<noteq> []"
  shows "parseFormInput st (sep1_of b @ mime_body b (map part_bytes ps)) (multipart_content_type b)
    = Inr (foldl add_part st ps)"
proof -
  let ?data = "sep1_of b @ mime_body b (map part_bytes ps)"
  have find_b: "str_find (multipart_content_type b) ''boundary='' 0 = Some 21"
    by (simp add: multipart_content_type_def str_find_drop)
  have sub: "str_substr (multipart_content_type b) 30 None = Inr b"
    by (simp add: multipart_content_type_def str_substr_def)
  have find_d: "str_find ?data (sep1_of b) 0 = Some 0" by (simp add: str_find_drop)
  have ne: "?data \<noteq> []" by (simp add: sep1_of_def)
  from assms(2) have ok: "\<forall>p \<in> set (map part_bytes ps). part_ok b p" by auto
  show ?thesis
    using mime_loop_parts [OF assms(1) ok, of "length (sep1_of b)" ?data st]
      run_parts [of ps st] assms(2,3)
    unfolding parseFormInput_def Let_def if_not_P [OF ne] find_b
    by (simp add: multipart_content_type_kind pos_add_def sub find_d del: append_is_Nil_conv)
qed

lemma foldl_add_part_frame:
  "fQueryString (foldl add_part st ps) = fQueryString st" "fCookie (foldl add_part st ps) = fCookie st"
  "fCookies (foldl add_part st ps) = fCookies st"
proof -
  have "fQueryString (add_part st p) = fQueryString st \<and> fCookie (add_part st p) = fCookie st
      \<and> fCookies (add_part st p) = fCookies st" for st p by (cases p) auto
  then show "fQueryString (foldl add_part st ps) = fQueryString st"
    "fCookie (foldl add_part st ps) = fCookie st" "fCookies (foldl add_part st ps) = fCookies st"
    by (induction ps arbitrary: st) auto
qed

definition empty_Cgicc :: "string \<Rightarrow> string \<Rightarrow> string \<Rightarrow> string \<Rightarrow> Cgicc" where
  "empty_Cgicc query cookie data type =
     \<lparr>fFormData = [], fFormFiles = [], fCookies = [], fQueryString = query, fCookie = cookie,
      fPostData = data, fQueryType = type\<rparr>"

lemma parseCookies_encoded:
  assumes "\<forall>kv \<in> set cks. cookie_ok kv"
  shows "parseCookies st (encode_cookies cks)
    = Inr (st\<lparr>fCookies := fCookies st @ map (\<lambda>(k, v). new_HTTPCookie k v) cks\<rparr>)"
proof (cases "encode_cookies cks = []")
  case True
  then have "cks = []" by (cases cks rule: encode_cookies.cases) auto
  then show ?thesis by (simp add: parseCookies_def)
next
  case False
  then show ?thesis
    using cookies_loop_spec [of 0 "encode_cookies cks" st] cookies_encode [OF assms]
    by (simp add: parseCookies_def)
qed

lemma urlencoded_form:
  assumes "type = [] \<or> stringsAreEqual_n type standard_type (length standard_type)"
  shows "parseFormInput st data type = Inr (st\<lparr>fFormData := fFormData st @ map entry_of (query_pairs data)\<rparr>)"
  using parseFormInput_standard [of st data] assms
  by (auto simp: parseFormInput_def stringsAreEqual_n_iff split: if_splits)

lemma parseFormInput_Nil [simp]: "parseFormInput st [] type = Inr st"
  by (simp add: parseFormInput_def)

lemma new_Cgicc_fault:
  assumes "new_Cgicc query cookie data type = Inl e"
  shows "e = Runtime_error ''Malformed input'' \<and>
    stringsAreEqual_n multipart_type type (length multipart_type) \<and> data \<noteq> []"
proof -
  let ?st = "\<lparr>fFormData = [], fFormFiles = [], fCookies = [], fQueryString = query, fCookie = cookie,
    fPostData = data, fQueryType = type\<rparr>"
  have later: "bind_res (parseFormInput st1 (fQueryString st1) standard_type)
      (\<lambda>st2. parseCookies st2 (fCookie st2)) \<noteq> Inl e" for st1
    using parseCookies_ok by (simp add: parseFormInput_standard) (metis Inl_Inr_False)
  from assms have "parseFormInput ?st data type = Inl e"
    using later by (cases "parseFormInput ?st data type") (auto simp: new_Cgicc_def Let_def)
  moreover from this have "data \<noteq> []" by auto
  ultimately show ?thesis using parseFormInput_fault by blast
qed

section \<open>Properties\<close>

text \<open>
  C12. A URL-encoded form is decoded exactly: the entries are the pairs of the body followed by
  those of the query string, in order and with their bytes restored, and the cookies are those
  of the cookie header.
\<close>

theorem Cgicc_urlencoded_roundtrip:
  assumes "type = [] \<or> stringsAreEqual_n type standard_type (length standard_type)"
    and "\<forall>kv \<in> set cks. cookie_ok kv"
  shows "\<exists>c. new_Cgicc (encode_query qs) (encode_cookies cks) (encode_query ps) type = Inr c \<and>
    fFormData c = map entry_of (ps @ qs) \<and> fFormFiles c = [] \<and>
    fCookies c = map (\<lambda>(k, v). new_HTTPCookie k v) cks"
  using parseCookies_encoded [OF assms(2)]
  by (simp add: new_Cgicc_def urlencoded_form [OF assms(1)] parseFormInput_standard query_pairs_encode)

theorem Cgicc_urlencoded_roundtrip_witness:
  "\<exists>c. new_Cgicc (encode_query [(''q'', ''a&b=c'')]) (encode_cookies [(''sid'', ''x y''), (''t'', '''')])
      (encode_query [(''name'', ''50% off''), (''k'', ''1'')])
      ''Application/X-WWW-form-urlencoded; charset=utf-8'' = Inr c \<and>
    fFormData c = map entry_of ([(''name'', ''50% off''), (''k'', ''1'')] @ [(''q'', ''a&b=c'')]) \<and>
    fFormFiles c = [] \<and>
    fCookies c = map (\<lambda>(k, v). new_HTTPCookie k v) [(''sid'', ''x y''), (''t'', '''')]"
proof (rule Cgicc_urlencoded_roundtrip)
  show "''Application/X-WWW-form-urlencoded; charset=utf-8'' = [] \<or>
    stringsAreEqual_n ''Application/X-WWW-form-urlencoded; charset=utf-8'' standard_type (length standard_type)"
    by code_simp
  show "\<forall>kv \<in> set [(''sid'', ''x y''), (''t'', '''')]. cookie_ok kv" by code_simp
qed

text \<open>
  C11. A multipart form is decoded exactly: for every list of fields and files whose names are
  quotable and whose bytes do not contain the boundary line, the parser finds each part, its
  name, file name, type and data, whatever bytes the data holds.
\<close>

theorem Cgicc_multipart_roundtrip:
  assumes "boundary_ok b" and "ps \<noteq> []"
    and "\<forall>p \<in> set ps. part_valid p \<and> part_ok b (part_bytes p)"
    and "data = sep1_of b @ mime_body b (map part_bytes ps)"
  shows "\<exists>c. new_Cgicc [] [] data (multipart_content_type b) = Inr c \<and>
    c = foldl add_part (empty_Cgicc [] [] data (multipart_content_type b)) ps"
  using parse_multipart [OF assms(1,3,2), folded assms(4)] foldl_add_part_frame
  by (simp add: new_Cgicc_def empty_Cgicc_def parseCookies_def Let_def)

theorem Cgicc_multipart_roundtrip_witness:
  "\<exists>c. new_Cgicc [] [] (sep1_of ''XyZ'' @ mime_body ''XyZ''
        (map part_bytes [Field ''a'' ''1--2'', Upload ''f'' ''x y.txt'' ''text/html'' ''<p>''])) (multipart_content_type ''XyZ'') = Inr c \<and>
    c = foldl add_part (empty_Cgicc [] [] (sep1_of ''XyZ'' @ mime_body ''XyZ''
        (map part_bytes [Field ''a'' ''1--2'', Upload ''f'' ''x y.txt'' ''text/html'' ''<p>''])) (multipart_content_type ''XyZ''))
      [Field ''a'' ''1--2'', Upload ''f'' ''x y.txt'' ''text/html'' ''<p>'']"
  by (rule Cgicc_multipart_roundtrip; code_simp)



lemma find_filter: "List.find p xs = (case filter p xs of [] \<Rightarrow> None | x # _ \<Rightarrow> Some x)"
  by (induction xs) auto

text \<open>
  The two ways to look an entry up agree: the list of matches is the entries whose name is
  equal up to case, in order, the flag says whether there is one, and the iterator points to
  the first of them.
\<close>

lemma Cgicc_lookup:
  "findEntries st name True = (list_ex (\<lambda>e. stringsAreEqual name (entry_name e)) (fFormData st),
     filter (\<lambda>e. stringsAreEqual name (entry_name e)) (fFormData st)) \<and>
   getElement st name = (case snd (findEntries st name True) of [] \<Rightarrow> None | e # _ \<Rightarrow> Some e)"
  by (auto simp: findEntries_def copy_if_eq getElement_def find_filter filter_empty_conv list_ex_iff Let_def)

text \<open>
  C40. A stripped value is the value without its line breaks, cut at the limit; a value with
  line breaks normalised has no carriage return; and an integer value is the nearest number of
  the interval, with the flag set exactly when it had to be moved.
\<close>

theorem FormEntry_values:
  assumes "min_v \<le> max_v"
  shows "getStrippedValue_max e n = take n (filter (\<lambda>c. \<not> is_newline c) (entry_value e)) \<and>
    CHR 0x0D \<notin> set (getValue_max e n) \<and>
    getIntegerValue e min_v max_v = max min_v (min max_v (atol (entry_value e))) \<and>
    getIntegerValue_bounded e min_v max_v = (getIntegerValue e min_v max_v,
      atol (entry_value e) \<notin> {min_v..max_v})"
  using assms
  by (auto simp: getStrippedValue_max_def getValue_max_def makeString_def makeString_loop_stripped
      makeString_loop_no_cr getIntegerValue_def getIntegerValue_bounded_def Let_def)

theorem FormEntry_values_witness:
  "getStrippedValue_max \<lparr>entry_name = ''a'', entry_value = ''12'' @ [CHR 0x0D, CHR 0x0A] @ ''34''\<rparr> 3 = ''123'' \<and>
   getIntegerValue \<lparr>entry_name = ''a'', entry_value = ''12'' @ [CHR 0x0D, CHR 0x0A] @ ''34''\<rparr> 0 10 = 10"
proof -
  have "atol (''12'' @ [CHR 0x0D, CHR 0x0A] @ ''34'') = 12" by code_simp
  then show ?thesis
    using FormEntry_values [of 0 10 "\<lparr>entry_name = ''a'', entry_value = ''12'' @ [CHR 0x0D, CHR 0x0A] @ ''34''\<rparr>" 3]
    by (simp add: is_newline_def)
qed

text \<open>The limit of a value with line breaks is exceeded by a run of them.\<close>

lemma getValue_exceeds_limit:
  "getValue_max \<lparr>entry_name = ''a'', entry_value = [CHR 0x0A, CHR 0x0A, CHR 0x0A]\<rparr> 1
     = [CHR 0x0A, CHR 0x0A, CHR 0x0A]"
  by code_simp

text \<open>A copy of a request object has its entries but not its cookies.\<close>

lemma copy_drops_cookies:
  "\<exists>c d. new_Cgicc [] ''sid=1'' [] [] = Inr c \<and> copy_Cgicc c = Inr d \<and>
     length (fCookies c) = 1 \<and> fCookies d = []"
proof -
  have "(case new_Cgicc [] ''sid=1'' [] [] of Inl _ \<Rightarrow> False
    | Inr c \<Rightarrow> (case copy_Cgicc c of Inl _ \<Rightarrow> False
      | Inr d \<Rightarrow> length (fCookies c) = 1 \<and> fCookies d = []))" by code_simp
  then show ?thesis by (auto split: sum.splits)
qed

text \<open>
  The field name is taken from the first \<open>name="\<close> of the header, which is part of
  \<open>filename="\<close> when that parameter comes first.
\<close>

lemma filename_first_is_name:
  "case parseHeader (''Content-Disposition: form-data; filename='' @ [CHR 0x22] @ ''x'' @ [CHR 0x22]
      @ ''; name='' @ [CHR 0x22] @ ''f'' @ [CHR 0x22] @ crlf2) of
     Inl _ \<Rightarrow> False | Inr h \<Rightarrow> mh_name h = ''x''"
  by code_simp

end
