(* ===== verification/Co_Request.thy ===== *)
theory Co_Request
  imports Fcgi_Codec Cgicc
begin

text \<open>
  The request handling of cocgi: \<open>doRequest\<close> and \<open>readData\<close> of
  \<^verbatim>\<open>cocgi/fastcgi.cpp\<close> and the back end of \<^verbatim>\<open>cocgi/backend.cpp\<close>. The system
  calls are arguments: the outcome of \<open>readv\<close> as a function of the buffer sizes (\<open>Inl\<close> an
  error number, \<open>Inr\<close> the bytes, none of them at end of file) and the outcomes of the
  successive calls of \<open>write\<close> (\<open>Inl\<close> an error number, \<open>Inr\<close> the number of bytes
  taken). The variable \<open>errno\<close> is threaded through: \<open>readData\<close> reads it after a call that
  need not have set it. The lines the back end prints to the terminal are not modelled.
\<close>

section \<open>Result codes\<close>

datatype error_code =
    ERR_OK | ERR_SOCKET_READ | ERR_SOCKET_WRITE | ERR_SOCKET_FINISH | ERR_SOCKET_EAGAIN

definition EAGAIN :: nat where "EAGAIN = 11"

section \<open>The back end\<close>

text \<open>
  \<open>resp += content.length()\<close> selects \<open>string::operator+=(char)\<close>: it appends the character
  whose code is the length.
\<close>

definition printRequest :: "param_map \<Rightarrow> param_map \<Rightarrow> string" where
  "printRequest qmap header =
     (let content = ''OK!!'';
          resp = ''Content-Type: text/html; charset=UTF-8'' @ crlf;
          resp = resp @ ''Content-Length: '';
          resp = resp @ [char_of (length content)];
          resp = resp @ crlf @ crlf
      in resp @ content)"

section \<open>Serving a request\<close>

definition request_qmap :: "Cgicc \<Rightarrow> param_map" where
  "request_qmap cgi =
     (let qmap = map_assign Map.empty (map (\<lambda>e. (entry_name e, entry_value e)) (fFormData cgi))
      in map_assign qmap (map (\<lambda>f. (file_name f, file_data f)) (fFormFiles cgi)))"

definition request_header :: "param_map \<Rightarrow> Cgicc \<Rightarrow> param_map" where
  "request_header m cgi = map_assign m (map (\<lambda>c. (ck_name c, ck_value c)) (fCookies cgi))"

text \<open>
  The write loop: \<^term>\<open>None\<close> when the given outcomes are used up before it ends. A result
  carries the code, the new \<open>errno\<close> and the bytes the calls took.
\<close>

fun write_loop :: "(nat + nat) list \<Rightarrow> nat \<Rightarrow> buffer \<Rightarrow> bytes \<Rightarrow> (error_code \<times> nat \<times> bytes) option res" where
  "write_loop ws errno b sent =
     (if readableBytes b > 0 then
        (case ws of
           [] \<Rightarrow> Inr None
         | Inl e # ws' \<Rightarrow> Inr (Some (if e = EAGAIN then ERR_SOCKET_EAGAIN else ERR_SOCKET_WRITE, e, sent))
         | Inr n # ws' \<Rightarrow>
             if n > 0 then bind_res (retrieve b n) (\<lambda>b'. write_loop ws' errno b' (sent @ take n (peek b)))
             else write_loop ws' errno b sent)
      else Inr (Some (ERR_OK, errno, sent)))"

declare write_loop.simps [simp del]

definition doRequest ::
  "(nat + nat) list \<Rightarrow> nat \<Rightarrow> codec \<Rightarrow> (error_code \<times> nat \<times> bytes \<times> codec) option res" where
  "doRequest ws errno st =
     (let (queryString, m1) = map_index (m_params st) ''QUERY_STRING'';
          (queryType, m2) = map_index m1 ''CONTENT_TYPE'';
          (queryCookie, m3) = map_index m2 ''HTTP_COOKIE''
      in bind_res
           (if readableBytes (m_stdin st) > 0 then retrieveAllAsString (m_stdin st)
            else Inr ([], m_stdin st)) (\<lambda>(postData, stdin1).
         bind_res (new_Cgicc queryString queryCookie postData queryType) (\<lambda>cgi.
         let res = printRequest (request_qmap cgi) (request_header m3 cgi)
         in bind_res (respond res (new_Buffer kInitialSize)) (\<lambda>(_, response).
              bind_res (write_loop ws errno response []) (\<lambda>r.
                Inr (map_option (\<lambda>(code, errno1, sent).
                  (code, errno1, sent, st\<lparr>m_params := m3, m_stdin := stdin1\<rparr>)) r))))))"

definition readData ::
  "(nat list \<Rightarrow> nat + bytes) \<Rightarrow> (nat + nat) list \<Rightarrow> nat \<Rightarrow> codec
     \<Rightarrow> (error_code \<times> nat \<times> bytes \<times> codec) option res" where
  "readData readv ws errno st0 =
     bind_res (readFd readv (m_buf st0)) (\<lambda>(r, b).
       let errno1 = (case r of Inl e \<Rightarrow> e | Inr _ \<Rightarrow> errno);
           st1 = st0\<lparr>m_buf := b\<rparr>
       in if (case r of Inl _ \<Rightarrow> False | Inr n \<Rightarrow> n > 0) then
            bind_res (parseFcgiPackage st1) (\<lambda>st2.
              if m_gotRequest st2 then
                bind_res (doRequest ws errno1 st2) (\<lambda>d.
                  Inr (map_option (\<lambda>(ret, errno2, sent, st3).
                    let st4 = st3\<lparr>m_stdin := retrieveAll (m_stdin st3),
                                  m_paramsStream := retrieveAll (m_paramsStream st3),
                                  m_params := Map.empty, m_gotRequest := False\<rparr>
                    in (if \<not> m_keepConn st4 \<and> ret = ERR_OK then ERR_SOCKET_FINISH else ret,
                        errno2, sent, st4)) d))
              else Inr (Some (ERR_SOCKET_READ, errno1, [], st2)))
          else if errno1 = EAGAIN then Inr (Some (ERR_SOCKET_EAGAIN, errno1, [], st1))
          else Inr (Some (ERR_SOCKET_READ, errno1, [], st1)))"

section \<open>The write loop\<close>

text \<open>
  What the kernel promises of a call of \<open>write\<close> with \<open>n > 0\<close> bytes: it fails, or it takes
  between one and \<open>n\<close> of them.
\<close>


fun writes_ok :: "nat \<Rightarrow> (nat + nat) list \<Rightarrow> bool" where
  "writes_ok len [] = (len = 0)"
| "writes_ok len (Inl e # ws) = (len = 0)"
| "writes_ok len (Inr n # ws) = (len = 0 \<or> 0 < n \<and> n \<le> len \<and> writes_ok (len - n) ws)"

lemma write_loop_complete:
  "holds s b \<Longrightarrow> writes_ok (length s) ws \<Longrightarrow>
   write_loop ws errno b sent = Inr (Some (ERR_OK, errno, sent @ s))"
proof (induction ws arbitrary: s b sent)
  case Nil
  then show ?case by (subst write_loop.simps) (simp add: holds_readable)
next
  case (Cons w ws)
  show ?case
  proof (cases "s = []")
    case True
    with Cons.prems show ?thesis by (subst write_loop.simps) (simp add: holds_readable)
  next
    case False
    with Cons.prems obtain n where w: "w = Inr n" "0 < n" "n \<le> length s" "writes_ok (length s - n) ws"
      by (cases w) auto
    obtain b' where b': "retrieve b n = Inr b'" "holds (drop n s) b'"
      using holds_retrieve [OF Cons.prems(1) w(3)] by auto
    from Cons.IH [OF b'(2), of "sent @ take n s"] w b'(1) False Cons.prems(1) show ?thesis
      by (subst write_loop.simps) (simp add: holds_readable holds_take_peek)
  qed
qed

text \<open>
  A failing call ends the loop: the bytes before it are sent and the rest is dropped with the
  local buffer.
\<close>

lemma write_loop_error:
  "holds s b \<Longrightarrow> sum_list ns < length s \<Longrightarrow> 0 \<notin> set ns \<Longrightarrow>
   write_loop (map Inr ns @ Inl e # ws) errno b sent =
     Inr (Some (if e = EAGAIN then ERR_SOCKET_EAGAIN else ERR_SOCKET_WRITE, e, sent @ take (sum_list ns) s))"
proof (induction ns arbitrary: s b sent)
  case Nil
  then show ?case by (subst write_loop.simps) (auto simp: holds_readable)
next
  case (Cons n ns)
  then have n: "0 < n" "n \<le> length s" "sum_list ns < length (drop n s)" by auto
  then have ne: "s \<noteq> []" by auto
  obtain b' where b': "retrieve b n = Inr b'" "holds (drop n s) b'"
    using holds_retrieve [OF Cons.prems(1) n(2)] by auto
  from Cons.IH [OF b'(2) n(3), of "sent @ take n s"] Cons.prems n b'(1) ne show ?case
    by (subst write_loop.simps) (simp add: holds_readable holds_take_peek take_add)
qed

section \<open>Serving a request end to end\<close>

definition param_of :: "param_map \<Rightarrow> string \<Rightarrow> string" where
  "param_of m k = (case m k of None \<Rightarrow> [] | Some v \<Rightarrow> v)"

lemma map_index_fst: "fst (map_index m k) = param_of m k"
  by (simp add: map_index_def param_of_def split: option.splits)


lemma param_of_snd_map_index [simp]: "param_of (snd (map_index m k)) k' = param_of m k'"
  by (simp add: map_index_def param_of_def split: option.splits)

text \<open>What the program answers to every request: one page.\<close>

definition page :: string where
  "page = printRequest Map.empty Map.empty"

lemma printRequest_page: "printRequest q h = page"
  by (simp add: page_def printRequest_def)

lemma page_not_Nil: "response_text page = page"
  by (simp add: page_def printRequest_def response_text_def Let_def)

definition page_bytes :: bytes where
  "page_bytes = concat (map encode_record (response_records page))"

lemma doRequest_spec:
  assumes "holds input (m_stdin st)"
  shows "\<exists>response. holds page_bytes response \<and> (\<exists>m3 stdin1. buffer_inv stdin1 \<and>
    doRequest ws errno st =
      bind_res (new_Cgicc (param_of (m_params st) ''QUERY_STRING'') (param_of (m_params st) ''HTTP_COOKIE'')
          input (param_of (m_params st) ''CONTENT_TYPE'')) (\<lambda>cgi.
        bind_res (write_loop ws errno response []) (\<lambda>r.
          Inr (map_option (\<lambda>(code, errno1, sent).
            (code, errno1, sent, st\<lparr>m_params := m3, m_stdin := stdin1\<rparr>)) r))))"
proof -
  obtain response where resp: "respond page (new_Buffer kInitialSize) = Inr (page, response)"
      "holds page_bytes response"
    using respond_spec [OF holds_new_Buffer [of kInitialSize], of page]
    by (auto simp: res_ok_def page_not_Nil page_bytes_def)
  obtain m3 where m3: "m3 = snd (map_index (snd (map_index (snd (map_index (m_params st) ''QUERY_STRING''))
      ''CONTENT_TYPE'')) ''HTTP_COOKIE'')" by blast
  obtain stdin1 where stdin1: "(if readableBytes (m_stdin st) > 0 then retrieveAllAsString (m_stdin st)
      else Inr ([], m_stdin st)) = Inr (input, stdin1)" "buffer_inv stdin1"
    using assms holds_retrieveAllAsString [OF assms]
    by (cases "input = []") (auto simp: holds_readable holds_def)
  show ?thesis
    using resp stdin1 m3
    by (intro exI [of _ response] conjI exI [of _ m3] exI [of _ stdin1])
      (simp_all add: doRequest_def Let_def split_beta map_index_fst printRequest_page)
qed

definition idle_state :: "bool \<Rightarrow> fcgi_state" where
  "idle_state keep = init_state\<lparr>s_keep := keep\<rparr>"

definition read_sizes :: "buffer \<Rightarrow> nat list" where
  "read_sizes b = (if writableBytes b < extrabuf_size then [writableBytes b, extrabuf_size] else [writableBytes b])"

definition handled :: "fcgi_state \<Rightarrow> Cgicc res" where
  "handled s = new_Cgicc (param_of (s_params s) ''QUERY_STRING'') (param_of (s_params s) ''HTTP_COOKIE'')
     (s_stdin s) (param_of (s_params s) ''CONTENT_TYPE'')"

text \<open>One call of \<open>readData\<close> that receives \<open>data\<close>, by the state of the protocol after it.\<close>

lemma readData_data:
  assumes "codec_rel s bs st" and "readv (read_sizes (m_buf st)) = Inr data" and "data \<noteq> []"
  defines "s' \<equiv> fst (fcgi_run s (bs @ data))" and "rest \<equiv> snd (fcgi_run s (bs @ data))"
  shows "if \<not> s_got s'
     then \<exists>st'. readData readv ws errno st = Inr (Some (ERR_SOCKET_READ, errno, [], st')) \<and> codec_rel s' rest st'
     else \<exists>response st'. holds page_bytes response \<and> codec_rel (idle_state (s_keep s')) rest st' \<and>
       readData readv ws errno st =
         bind_res (handled s') (\<lambda>_. bind_res (write_loop ws errno response []) (\<lambda>r.
           Inr (map_option (\<lambda>(code, errno1, sent).
             (if \<not> s_keep s' \<and> code = ERR_OK then ERR_SOCKET_FINISH else code, errno1, sent, st')) r)))"
proof -
  from assms(1) have "holds bs (m_buf st)" by (simp add: codec_rel_def)
  from holds_readFd [OF this, of readv data] assms(2) obtain b
    where b: "readFd readv (m_buf st) = Inr (Inr (length data), b)" "holds (bs @ data) b"
    by (auto simp: res_ok_def read_sizes_def)
  with assms(1) have "codec_rel s (bs @ data) (st\<lparr>m_buf := b\<rparr>)" by (simp add: codec_rel_def)
  from parseFcgiPackage_spec [OF this] obtain st2
    where st2: "parseFcgiPackage (st\<lparr>m_buf := b\<rparr>) = Inr st2" "codec_rel s' rest st2"
    by (auto simp: s'_def rest_def)
  show ?thesis
  proof (cases "s_got s'")
    case False
    with st2 b assms(3) show ?thesis by (auto simp: readData_def codec_rel_def Let_def)
  next
    case True
    then have got: "m_gotRequest st2" using st2(2) by (simp add: codec_rel_def)
    obtain response m3 stdin1 where d: "holds page_bytes response" "buffer_inv stdin1"
      "doRequest ws errno st2 = bind_res (handled s') (\<lambda>cgi.
          bind_res (write_loop ws errno response []) (\<lambda>r.
            Inr (map_option (\<lambda>(code, errno1, sent).
              (code, errno1, sent, st2\<lparr>m_params := m3, m_stdin := stdin1\<rparr>)) r)))"
      using doRequest_spec [of "s_stdin s'" st2 ws errno] st2(2)
      by (auto simp: codec_rel_def handled_def)
    let ?st = "st2\<lparr>m_params := Map.empty, m_stdin := retrieveAll stdin1,
      m_paramsStream := retrieveAll (m_paramsStream st2), m_gotRequest := False\<rparr>"
    have "codec_rel (idle_state (s_keep s')) rest ?st"
      using st2(2) holds_retrieveAll [OF holdsI [OF d(2) refl]]
      by (auto simp: codec_rel_def idle_state_def init_state_def intro: holds_retrieveAll)
    moreover have "readData readv ws errno st =
         bind_res (handled s') (\<lambda>_. bind_res (write_loop ws errno response []) (\<lambda>r.
           Inr (map_option (\<lambda>(code, errno1, sent).
             (if \<not> s_keep s' \<and> code = ERR_OK then ERR_SOCKET_FINISH else code, errno1, sent, ?st)) r)))"
      using b(1) assms(3) st2 got d(3)
      by (cases "handled s'"; cases "write_loop ws errno response []")
        (auto simp: readData_def Let_def codec_rel_def map_option_case split: option.splits)
    ultimately show ?thesis using True d(1) by auto
  qed
qed

lemma readData_no_data:
  assumes "readv (read_sizes (m_buf st)) = Inl e \<or> readv (read_sizes (m_buf st)) = Inr []" and "buffer_inv (m_buf st)"
  shows "\<exists>st'. readData readv ws errno st = (let errno1 = (case readv (read_sizes (m_buf st)) of Inl e \<Rightarrow> e | Inr _ \<Rightarrow> errno)
      in Inr (Some (if errno1 = EAGAIN then ERR_SOCKET_EAGAIN else ERR_SOCKET_READ, errno1, [], st'))) \<and>
    (\<forall>s bs. codec_rel s bs st \<longrightarrow> codec_rel s bs st')"
  using assms(1)
proof
  assume "readv (read_sizes (m_buf st)) = Inl e"
  then have "readData readv ws errno st = Inr (Some (if e = EAGAIN then ERR_SOCKET_EAGAIN else ERR_SOCKET_READ, e, [], st\<lparr>m_buf := m_buf st\<rparr>))"
    by (simp add: readData_def readFd_def read_sizes_def Let_def)
  then show ?thesis using \<open>readv _ = Inl e\<close> by auto
next
  assume r: "readv (read_sizes (m_buf st)) = Inr []"
  from holds_readFd [OF holdsI [OF assms(2) refl], of readv "[]"] r obtain b
    where b: "readFd readv (m_buf st) = Inr (Inr 0, b)" "holds (content (m_buf st)) b"
    by (auto simp: res_ok_def read_sizes_def)
  then have "readData readv ws errno st = Inr (Some (if errno = EAGAIN then ERR_SOCKET_EAGAIN else ERR_SOCKET_READ, errno, [], st\<lparr>m_buf := b\<rparr>))"
    by (simp add: readData_def Let_def)
  moreover have "codec_rel s bs st \<longrightarrow> codec_rel s bs (st\<lparr>m_buf := b\<rparr>)" for s bs
    using b(2) by (auto simp: codec_rel_def holds_def)
  ultimately show ?thesis using r by (intro exI [of _ "st\<lparr>m_buf := b\<rparr>"]) auto
qed

lemma handled_ok:
  assumes "\<not> stringsAreEqual_n multipart_type (param_of (s_params s) ''CONTENT_TYPE'') (length multipart_type)"
  shows "\<exists>cgi. handled s = Inr cgi"
proof (cases "handled s")
  case (Inl e)
  then have "new_Cgicc (param_of (s_params s) ''QUERY_STRING'') (param_of (s_params s) ''HTTP_COOKIE'')
     (s_stdin s) (param_of (s_params s) ''CONTENT_TYPE'') = Inl e" by (simp add: handled_def)
  from new_Cgicc_fault [OF this] assms show ?thesis by simp
qed simp

lemma wire_page_bytes: "wire_records page_bytes = (response_records page, [])"
  using wire_records_encode [of "response_records page" "[]"]
  by (simp add: page_bytes_def wf_response_records complete_def)

lemma readData_keeps_rel:
  assumes "codec_rel s bs st" and "readData readv ws errno st = Inr (Some (ret, errno', sent, st'))"
  shows "\<exists>s bs. codec_rel s bs st'"
proof -
  have inv: "buffer_inv (m_buf st)" using assms(1) by (simp add: codec_rel_def holds_def)
  consider e where "readv (read_sizes (m_buf st)) = Inl e" | "readv (read_sizes (m_buf st)) = Inr []"
    | data where "readv (read_sizes (m_buf st)) = Inr data" "data \<noteq> []"
    by (cases "readv (read_sizes (m_buf st))") auto
  then show ?thesis
  proof cases
    case 1
    with readData_no_data [of readv st e ws errno] inv assms show ?thesis by (auto simp: Let_def)
  next
    case 2
    with readData_no_data [of readv st 0 ws errno] inv assms show ?thesis by (auto simp: Let_def)
  next
    case 3
    from readData_data [OF assms(1), of readv data ws errno, OF this] assms(2) show ?thesis
      by (auto simp: bind_res_eq_Inr eq_commute [of "Inr (Some _)"] split: if_splits)
  qed
qed

lemma page_bytes_length: "24 \<le> length page_bytes"
  by (simp add: page_bytes_def response_records_def length_encode_record stdout_record_def
      end_request_record_def)

section \<open>Properties\<close>



text \<open>
  C27. A read that does not complete a request is an error to the connection loop: whatever was
  received before, \<open>readData\<close> reports \<open>ERR_SOCKET_READ\<close> although the input is a correct
  prefix of a request and the codec has kept it.
\<close>

theorem co_incomplete_read_is_error:
  assumes "codec_rel s bs st" and "readv (read_sizes (m_buf st)) = Inr data" and "data \<noteq> []"
    and "\<not> s_got (fst (fcgi_run s (bs @ data)))"
  shows "\<exists>st'. readData readv ws errno st = Inr (Some (ERR_SOCKET_READ, errno, [], st')) \<and>
    codec_rel (fst (fcgi_run s (bs @ data))) (snd (fcgi_run s (bs @ data))) st'"
  using readData_data [OF assms(1), of readv data ws errno, OF assms(2,3)] assms(4) by simp

theorem co_incomplete_read_is_error_witness:
  "\<exists>st'. readData (\<lambda>_. Inr [CHR 0x01, CHR 0x01]) [] 0 new_FastCgiCodec
      = Inr (Some (ERR_SOCKET_READ, 0, [], st')) \<and> codec_rel init_state [CHR 0x01, CHR 0x01] st'"
proof -
  have "fcgi_run init_state ([] @ [CHR 0x01, CHR 0x01]) = (init_state, [CHR 0x01, CHR 0x01])"
    by (simp add: fcgi_run_def wire_records.simps complete_def)
  with co_incomplete_read_is_error [OF codec_rel_new, of "\<lambda>_. Inr [CHR 0x01, CHR 0x01]" "[CHR 0x01, CHR 0x01]" "[]" 0]
  show ?thesis by (simp add: init_state_def)
qed

text \<open>
  A write that fails after \<open>k\<close> bytes ends the response there: \<open>readData\<close> returns the
  code of the failure, the \<open>k\<close> bytes are all that was sent, and the codec is reset, so the
  rest is never sent even when the code says that the connection goes on.
\<close>

lemma co_failed_write_drops_rest:
  assumes "codec_rel s bs st" and "readv (read_sizes (m_buf st)) = Inr data" and "data \<noteq> []"
    and "s_got (fst (fcgi_run s (bs @ data)))" and "handled (fst (fcgi_run s (bs @ data))) = Inr cgi"
    and "sum_list ns < length page_bytes" and "0 \<notin> set ns"
  shows "\<exists>st'. readData readv (map Inr ns @ Inl e # ws) errno st =
      Inr (Some (if e = EAGAIN then ERR_SOCKET_EAGAIN else ERR_SOCKET_WRITE, e,
        take (sum_list ns) page_bytes, st')) \<and>
    codec_rel (idle_state (s_keep (fst (fcgi_run s (bs @ data))))) (snd (fcgi_run s (bs @ data))) st'"
proof -
  obtain response st' where r: "holds page_bytes response"
      "codec_rel (idle_state (s_keep (fst (fcgi_run s (bs @ data))))) (snd (fcgi_run s (bs @ data))) st'"
      "readData readv (map Inr ns @ Inl e # ws) errno st =
         bind_res (Inr cgi) (\<lambda>_. bind_res (write_loop (map Inr ns @ Inl e # ws) errno response []) (\<lambda>r.
           Inr (map_option (\<lambda>(code, errno1, sent).
             (if \<not> s_keep (fst (fcgi_run s (bs @ data))) \<and> code = ERR_OK then ERR_SOCKET_FINISH else code,
              errno1, sent, st')) r)))"
    using readData_data [OF assms(1), of readv data "map Inr ns @ Inl e # ws" errno, OF assms(2,3)] assms(4,5)
    by auto
  with write_loop_error [OF r(1) assms(6,7), of e ws errno "[]"] show ?thesis by auto
qed

lemma co_failed_write_drops_rest_witness:
  "\<exists>st'. readData (\<lambda>_. Inr (encode_record (demo_record 5 [] []))) (map Inr [3, 4] @ Inl EAGAIN # []) 0
      new_FastCgiCodec = Inr (Some (ERR_SOCKET_EAGAIN, EAGAIN, take 7 page_bytes, st')) \<and>
    codec_rel (idle_state False) [] st'"
proof -
  let ?s = "init_state\<lparr>s_got := True\<rparr>"
  have "wire_records (concat (map encode_record [demo_record 5 [] []]) @ []) = ([demo_record 5 [] []], [])"
    by (rule wire_records_encode) (auto simp: demo_record_def wf_record_def complete_def)
  then have run: "fcgi_run init_state ([] @ encode_record (demo_record 5 [] [])) = (?s, [])"
    by (simp add: fcgi_run_def fcgi_step_def demo_record_def Let_def)
  have ne: "encode_record (demo_record 5 [] []) \<noteq> []" by (simp add: encode_record_def)
  obtain cgi where cgi: "handled (fst (fcgi_run init_state ([] @ encode_record (demo_record 5 [] [])))) = Inr cgi"
    unfolding run using handled_ok [of ?s]
    by (auto simp: init_state_def param_of_def stringsAreEqual_n_iff multipart_type_def)
  have len: "sum_list [3, 4 :: nat] < length page_bytes" using page_bytes_length by simp
  show ?thesis
    using co_failed_write_drops_rest [OF codec_rel_new _ ne _ cgi len,
        of "\<lambda>_. Inr (encode_record (demo_record 5 [] []))" EAGAIN "[]" 0]
    unfolding run by (simp add: init_state_def)
qed

text \<open>
  The end of the stream is told from an empty socket by \<open>errno\<close>, which a successful
  \<open>readv\<close> does not set: after a round that found no input it still says \<open>EAGAIN\<close>.
\<close>

lemma eof_with_stale_errno:
  "\<exists>st'. readData (\<lambda>_. Inr []) [] EAGAIN new_FastCgiCodec = Inr (Some (ERR_SOCKET_EAGAIN, EAGAIN, [], st'))"
  using readData_no_data [of "\<lambda>_. Inr []" new_FastCgiCodec 0 "[]" EAGAIN] codec_rel_new
  by (auto simp: codec_rel_def holds_def)

text \<open>The length of the page is written as the character with that code, not in decimal.\<close>

lemma page_content_length:
  "page = ''Content-Type: text/html; charset=UTF-8'' @ crlf @ ''Content-Length: '' @ [CHR 0x04]
     @ crlf @ crlf @ ''OK!!''"
  by code_simp

end
