(* ===== verification/Co_Main.thy ===== *)
theory Co_Main
  imports Co_Request
begin

text \<open>
  The process of cocgi (\<^verbatim>\<open>cocgi/main.cpp\<close>): the loop of a worker coroutine over one
  connection, the pool of workers and the accepting coroutine, and the set-up of the listening
  socket. A coroutine runs until it waits, so a step of the pool is what one coroutine does
  between two waits; the outcomes of system calls are arguments.
\<close>

section \<open>The connection loop of a worker\<close>

definition MAX_RECYCLE_COUNT :: nat where "MAX_RECYCLE_COUNT = 60"

text \<open>
  One round: the wait of at most one second, then \<open>readData\<close> with the outcomes of its system
  calls and the \<open>errno\<close> that the other coroutines left.
\<close>

record round =
  rd_readv :: "nat list \<Rightarrow> nat + bytes"
  rd_writes :: "(nat + nat) list"
  rd_errno :: nat

record conn =
  c_fcgi :: codec
  c_recycle :: nat
  c_sent :: bytes

definition new_conn :: conn where
  "new_conn = \<lparr>c_fcgi = new_FastCgiCodec, c_recycle = 0, c_sent = []\<rparr>"

datatype round_result = Continue conn | Closed conn

text \<open>\<^term>\<open>None\<close>: the round has not ended (its write loop waits for more outcomes).\<close>

definition conn_round :: "round \<Rightarrow> conn \<Rightarrow> round_result option res" where
  "conn_round r c =
     bind_res (readData (rd_readv r) (rd_writes r) (rd_errno r) (c_fcgi c)) (\<lambda>d.
       Inr (map_option (\<lambda>(ret, errno, sent, fcgi).
         let c1 = c\<lparr>c_fcgi := fcgi, c_sent := c_sent c @ sent\<rparr>
         in if ret = ERR_OK then Continue (c1\<lparr>c_recycle := 0\<rparr>)
            else if ret = ERR_SOCKET_EAGAIN then
              (if c_recycle c1 \<ge> MAX_RECYCLE_COUNT then Closed (c1\<lparr>c_recycle := c_recycle c1 + 1\<rparr>)
               else Continue (c1\<lparr>c_recycle := c_recycle c1 + 1\<rparr>))
            else Closed c1) d))"

text \<open>The loop over the rounds: the connection after them, and the rounds left once it is closed.\<close>

fun conn_loop :: "round list \<Rightarrow> conn \<Rightarrow> (round_result \<times> round list) option res" where
  "conn_loop [] c = Inr (Some (Continue c, []))"
| "conn_loop (r # rs) c =
     bind_res (conn_round r c) (\<lambda>res.
       case res of
         None \<Rightarrow> Inr None
       | Some (Closed c') \<Rightarrow> Inr (Some (Closed c', rs))
       | Some (Continue c') \<Rightarrow> conn_loop rs c')"

definition conn_ok :: "conn \<Rightarrow> bool" where
  "conn_ok c \<longleftrightarrow> c_recycle c \<le> MAX_RECYCLE_COUNT \<and> (\<exists>s bs. codec_rel s bs (c_fcgi c))"

lemma conn_ok_new: "conn_ok new_conn"
  unfolding conn_ok_def new_conn_def by (simp, intro exI, rule codec_rel_new)

text \<open>A round that finds no input: the call fails with \<open>EAGAIN\<close>.\<close>

definition idle_round :: "round \<Rightarrow> bool" where
  "idle_round r \<longleftrightarrow> (\<forall>vec. rd_readv r vec = Inl EAGAIN)"

lemma conn_round_idle:
  assumes "idle_round r"
  shows "conn_round r c = Inr (Some
    (if c_recycle c \<ge> MAX_RECYCLE_COUNT then Closed (c\<lparr>c_recycle := c_recycle c + 1\<rparr>)
     else Continue (c\<lparr>c_recycle := c_recycle c + 1\<rparr>)))"
  using assms
  by (simp add: conn_round_def readData_def readFd_def idle_round_def Let_def)

lemma conn_loop_idle:
  "\<forall>r \<in> set rs. idle_round r \<Longrightarrow> c_recycle c + length rs \<le> MAX_RECYCLE_COUNT \<Longrightarrow>
   conn_loop (rs @ rs') c = conn_loop rs' (c\<lparr>c_recycle := c_recycle c + length rs\<rparr>)"
proof (induction rs arbitrary: c)
  case Nil
  then show ?case by simp
next
  case (Cons r rs)
  then show ?case by (simp add: conn_round_idle)
qed

lemma conn_round_ok:
  assumes "conn_ok c" and "conn_round r c = Inr (Some (Continue c'))"
  shows "conn_ok c'"
proof -
  from assms(1) obtain s bs where rel: "codec_rel s bs (c_fcgi c)" by (auto simp: conn_ok_def)
  from assms(2) obtain ret errno sent fcgi
    where rd: "readData (rd_readv r) (rd_writes r) (rd_errno r) (c_fcgi c) = Inr (Some (ret, errno, sent, fcgi))"
      and c': "c' = c\<lparr>c_fcgi := fcgi, c_sent := c_sent c @ sent,
        c_recycle := (if ret = ERR_OK then 0 else c_recycle c + 1)\<rparr>"
      and ret: "ret = ERR_OK \<or> \<not> c_recycle c \<ge> MAX_RECYCLE_COUNT"
    by (auto simp: conn_round_def res_simps Let_def split: if_splits)
  have "\<exists>s bs. codec_rel s bs fcgi"
    using readData_keeps_rel [OF rel rd] .
  with ret c' show ?thesis by (auto simp: conn_ok_def)
qed


section \<open>The pool of workers\<close>

text \<open>
  \<open>task_t\<close> objects are numbered in the order \<open>main\<close> creates them; \<open>g_readwrite\<close> is the
  stack of idle tasks with its top first, \<open>p_task_fd\<close> the member \<open>fd\<close> of a task and
  \<open>p_conn\<close> the local variable \<open>fd\<close> of a worker inside its connection loop.
\<close>

record pool =
  g_readwrite :: "nat list"
  p_task_fd :: "nat \<Rightarrow> int"
  p_conn :: "nat \<Rightarrow> int option"
  p_closed :: "int list"

text \<open>The head of the loop of \<open>readwrite_routine\<close>: push and yield, or take the descriptor.\<close>

definition worker_turn :: "pool \<Rightarrow> nat \<Rightarrow> pool" where
  "worker_turn p i =
     (if p_task_fd p i = -1 then p\<lparr>g_readwrite := i # g_readwrite p\<rparr>
      else p\<lparr>p_task_fd := (p_task_fd p)(i := -1), p_conn := (p_conn p)(i := Some (p_task_fd p i))\<rparr>)"

text \<open>The end of the connection loop: \<open>close\<close>, \<open>break\<close> and the next turn of the outer loop.\<close>

definition worker_close :: "pool \<Rightarrow> nat \<Rightarrow> pool" where
  "worker_close p i =
     (case p_conn p i of
        None \<Rightarrow> p
      | Some fd \<Rightarrow> worker_turn (p\<lparr>p_conn := (p_conn p)(i := None), p_closed := fd # p_closed p\<rparr>) i)"

text \<open>
  One turn of \<open>accept_routine\<close>, where \<open>fd\<close> is what \<open>co_accept\<close> returns when it is called.
  The result says whether it called it.
\<close>

definition accept_turn :: "int \<Rightarrow> pool \<Rightarrow> bool \<times> pool" where
  "accept_turn fd p =
     (if g_readwrite p = [] then (False, p)
      else if fd < 0 then (True, p)
      else if g_readwrite p = [] then (True, p\<lparr>p_closed := fd # p_closed p\<rparr>)
      else let co = hd (g_readwrite p);
               p1 = p\<lparr>p_task_fd := (p_task_fd p)(co := fd), g_readwrite := tl (g_readwrite p)\<rparr>
           in (True, worker_turn p1 co))"

text \<open>\<open>main\<close> creates the tasks with \<open>fd = -1\<close> and resumes each of them once.\<close>

definition create_tasks :: "nat \<Rightarrow> pool" where
  "create_tasks cnt =
     foldl worker_turn \<lparr>g_readwrite = [], p_task_fd = (\<lambda>_. -1), p_conn = (\<lambda>_. None), p_closed = []\<rparr> [0..<cnt]"

text \<open>
  The runs of a process: the kernel hands out a descriptor that is not open, and a worker may
  close its connection at any time.
\<close>

inductive pool_reach :: "nat \<Rightarrow> pool \<Rightarrow> bool" for cnt where
  start: "pool_reach cnt (create_tasks cnt)"
| accept: "pool_reach cnt p \<Longrightarrow> Some fd \<notin> range (p_conn p) \<Longrightarrow> pool_reach cnt (snd (accept_turn fd p))"
| close: "pool_reach cnt p \<Longrightarrow> i < cnt \<Longrightarrow> pool_reach cnt (worker_close p i)"

definition pool_inv :: "nat \<Rightarrow> pool \<Rightarrow> bool" where
  "pool_inv cnt p \<longleftrightarrow>
     distinct (g_readwrite p) \<and>
     (\<forall>i. i \<in> set (g_readwrite p) \<longleftrightarrow> i < cnt \<and> p_conn p i = None) \<and>
     (\<forall>i. p_task_fd p i = -1) \<and>
     (\<forall>i fd. p_conn p i = Some fd \<longrightarrow> i < cnt \<and> 0 \<le> fd) \<and>
     (\<forall>i j fd. p_conn p i = Some fd \<longrightarrow> p_conn p j = Some fd \<longrightarrow> i = j)"

lemma create_tasks_eq:
  "create_tasks cnt = \<lparr>g_readwrite = rev [0..<cnt], p_task_fd = (\<lambda>_. -1), p_conn = (\<lambda>_. None), p_closed = []\<rparr>"
proof -
  have "foldl worker_turn \<lparr>g_readwrite = ys, p_task_fd = (\<lambda>_. -1), p_conn = (\<lambda>_. None), p_closed = []\<rparr> xs
      = \<lparr>g_readwrite = rev xs @ ys, p_task_fd = (\<lambda>_. -1), p_conn = (\<lambda>_. None), p_closed = []\<rparr>" for xs ys
    by (induction xs arbitrary: ys) (simp_all add: worker_turn_def)
  then show ?thesis by (simp add: create_tasks_def)
qed

lemma accept_turn_inv:
  assumes "pool_inv cnt p" and "Some fd \<notin> range (p_conn p)"
  shows "pool_inv cnt (snd (accept_turn fd p))"
proof (cases "g_readwrite p = [] \<or> fd < 0")
  case True
  with assms show ?thesis by (auto simp: accept_turn_def)
next
  case False
  then obtain t ts where st: "g_readwrite p = t # ts" by (cases "g_readwrite p") auto
  from False st have eq: "snd (accept_turn fd p) = p\<lparr>g_readwrite := ts,
      p_task_fd := (p_task_fd p)(t := -1), p_conn := (p_conn p)(t := Some fd)\<rparr>"
    by (simp add: accept_turn_def worker_turn_def)
  have free: "p_conn p i \<noteq> Some fd" for i using assms(2) by (metis rangeI)
  have mem: "i \<in> set ts \<longleftrightarrow> i \<noteq> t \<and> i < cnt \<and> p_conn p i = None" for i
    using assms(1) st by (auto simp: pool_inv_def)
  show ?thesis
    unfolding eq using assms(1) st False free mem by (auto simp: pool_inv_def)
qed

lemma worker_close_inv:
  assumes "pool_inv cnt p"
  shows "pool_inv cnt (worker_close p i)"
proof (cases "p_conn p i")
  case None
  with assms show ?thesis by (simp add: worker_close_def)
next
  case (Some fd)
  with assms have "i < cnt" "i \<notin> set (g_readwrite p)" "p_task_fd p i = -1"
    by (auto simp: pool_inv_def)
  with Some assms show ?thesis by (auto simp: worker_close_def worker_turn_def pool_inv_def)
qed

lemma pool_reach_inv: "pool_reach cnt p \<Longrightarrow> pool_inv cnt p"
proof (induction rule: pool_reach.induct)
  case start
  then show ?case by (simp add: create_tasks_eq pool_inv_def)
qed (simp_all add: accept_turn_inv worker_close_inv)

lemma pool_counts:
  assumes "pool_inv cnt p"
  shows "length (g_readwrite p) + card {i. p_conn p i \<noteq> None} = cnt"
proof -
  have idle: "set (g_readwrite p) = {i. i < cnt \<and> p_conn p i = None}"
    and busy: "{i. p_conn p i \<noteq> None} = {i. i < cnt \<and> p_conn p i \<noteq> None}"
    using assms by (auto simp: pool_inv_def)
  have "length (g_readwrite p) = card {i. i < cnt \<and> p_conn p i = None}"
    using assms idle by (metis distinct_card pool_inv_def)
  moreover have "card {i. i < cnt \<and> p_conn p i = None} + card {i. i < cnt \<and> p_conn p i \<noteq> None}
      = card ({i. i < cnt \<and> p_conn p i = None} \<union> {i. i < cnt \<and> p_conn p i \<noteq> None})"
    by (rule card_Un_disjoint [symmetric]) auto
  moreover have "{i. i < cnt \<and> p_conn p i = None} \<union> {i. i < cnt \<and> p_conn p i \<noteq> None} = {..<cnt}" by auto
  ultimately show ?thesis using busy by simp
qed

section \<open>The listening socket\<close>

record sockaddr_in =
  sin_family :: nat
  sin_port :: "16 word"
  sin_addr :: "32 word"

definition AF_INET :: nat where "AF_INET = 2"

text \<open>The function \<open>inet_addr\<close> of the C library is an argument; a null pointer is \<^term>\<open>None\<close>.\<close>

definition SetAddr :: "(string \<Rightarrow> 32 word) \<Rightarrow> string option \<Rightarrow> 16 word \<Rightarrow> sockaddr_in" where
  "SetAddr inet_addr pszIP shPort =
     \<lparr>sin_family = AF_INET, sin_port = hton16 shPort,
      sin_addr =
        (case pszIP of
           None \<Rightarrow> hton32 0
         | Some ip \<Rightarrow> if ip = [] \<or> ip = ''0'' \<or> ip = ''0.0.0.0'' \<or> ip = ''*'' then hton32 0
                     else inet_addr ip)\<rparr>"

datatype sock_call =
    Set_reuseaddr int
  | Set_reuseport int
  | Bind int sockaddr_in
  | Close_fd int

text \<open>The results of \<open>socket\<close> and \<open>bind\<close> are arguments; the calls made are returned.\<close>

definition CreateTcpSocket ::
  "(string \<Rightarrow> 32 word) \<Rightarrow> int \<Rightarrow> int \<Rightarrow> 16 word \<Rightarrow> string option \<Rightarrow> bool \<Rightarrow> int \<times> sock_call list" where
  "CreateTcpSocket inet_addr fd bind_ret shPort pszIP bReuse =
     (if fd \<ge> 0 then
        if shPort \<noteq> 0 then
          let calls = (if bReuse then [Set_reuseaddr fd] else []) @ [Set_reuseport fd];
              addr = SetAddr inet_addr pszIP shPort;
              calls = calls @ [Bind fd addr]
          in if bind_ret \<noteq> 0 then (-1, calls @ [Close_fd fd]) else (fd, calls)
        else (fd, [])
      else (fd, []))"

definition O_NONBLOCK :: "32 word" where "O_NONBLOCK = 0x800"

text \<open>\<open>O_NDELAY\<close> is \<open>O_NONBLOCK\<close> on Linux.\<close>

definition SetNonBlock :: "32 word \<Rightarrow> 32 word" where
  "SetNonBlock iFlags = (iFlags OR O_NONBLOCK) OR O_NONBLOCK"

text \<open>
  The fork loop of \<open>main\<close> over the results of \<open>fork\<close>: \<open>Inl n\<close> in the parent after \<open>n\<close>
  children, \<open>Inr k\<close> in child \<open>k\<close>, which serves and exits.
\<close>

fun fork_loop :: "nat \<Rightarrow> nat \<Rightarrow> int list \<Rightarrow> nat + nat" where
  "fork_loop proccnt k [] = Inl k"
| "fork_loop proccnt k (pid # pids) =
     (if k < proccnt then
        if pid > 0 then fork_loop proccnt (k + 1) pids
        else if pid < 0 then Inl k
        else Inr k
      else Inl k)"


section \<open>Properties\<close>

lemma conn_loop_ok:
  "conn_ok c \<Longrightarrow> conn_loop rs c = Inr (Some (Continue c', rest)) \<Longrightarrow> conn_ok c'"
proof (induction rs arbitrary: c)
  case Nil
  then show ?case by simp
next
  case (Cons r rs)
  from Cons.prems(2) obtain res where res: "conn_round r c = Inr (Some res)"
      "(case res of Closed c' \<Rightarrow> Inr (Some (Closed c', rs)) | Continue c' \<Rightarrow> conn_loop rs c')
        = Inr (Some (Continue c', rest))"
    by (auto simp: bind_res_eq_Inr split: option.splits)
  then obtain c1 where "res = Continue c1" by (cases res) auto
  with res Cons.IH conn_round_ok [OF Cons.prems(1)] show ?case by auto
qed

text \<open>
  C24. In every reachable state of a process with \<open>cnt\<close> workers no descriptor is served by two
  workers, a worker is on the idle stack exactly when it serves none, it is there once, and the
  idle and the busy workers add up to \<open>cnt\<close>: none is lost over any sequence of connections.
\<close>

theorem worker_pool_safe:
  assumes "pool_reach cnt p"
  shows "distinct (g_readwrite p) \<and>
    (\<forall>i. i \<in> set (g_readwrite p) \<longleftrightarrow> i < cnt \<and> p_conn p i = None) \<and>
    (\<forall>i j fd. p_conn p i = Some fd \<longrightarrow> p_conn p j = Some fd \<longrightarrow> i = j) \<and>
    length (g_readwrite p) + card {i. p_conn p i \<noteq> None} = cnt"
  using pool_counts [OF pool_reach_inv [OF assms]] pool_reach_inv [OF assms]
  by (simp add: pool_inv_def)

theorem worker_pool_safe_witness:
  "length (g_readwrite (snd (accept_turn 7 (create_tasks 2))))
     + card {i. p_conn (snd (accept_turn 7 (create_tasks 2))) i \<noteq> None} = 2"
proof -
  have "pool_reach 2 (snd (accept_turn 7 (create_tasks 2)))"
    by (rule pool_reach.accept [OF pool_reach.start]) (auto simp: create_tasks_eq)
  from worker_pool_safe [OF this] show ?thesis by blast
qed




end
