(* ===== verification/Mu_Loop.thy ===== *)
theory Mu_Loop
  imports Prelude
begin

text \<open>
  The reactor of mucgi (\<^verbatim>\<open>mucgi/muduo_net\<close>): a channel (\<^verbatim>\<open>Channel.h\<close>,
  \<^verbatim>\<open>Channel.cc\<close>), the epoll poller (\<^verbatim>\<open>EPollPoller.cc\<close>, \<^verbatim>\<open>Poller.cc\<close>) and
  the event loop (\<^verbatim>\<open>EventLoop.cc\<close>).

  Channels and the objects that own them live in a heap of the loop, so that a callback may act on any of
  them. The functors of the loop are values of a type parameter and the code they run is an
  argument, as are the callbacks of the channels: the components above the loop supply them. The
  kernel side of epoll is the interest list, with the errors the manual page of \<open>epoll_ctl\<close> gives;
  any other refusal is in \<open>ep_refuses\<close>. A fatal log message ends in \<open>abort\<close>.
\<close>

section \<open>State\<close>

definition ev_in :: "32 word" where "ev_in = 0x1"
definition ev_pri :: "32 word" where "ev_pri = 0x2"
definition ev_out :: "32 word" where "ev_out = 0x4"
definition ev_err :: "32 word" where "ev_err = 0x8"
definition ev_hup :: "32 word" where "ev_hup = 0x10"
definition ev_nval :: "32 word" where "ev_nval = 0x20"
definition ev_rdhup :: "32 word" where "ev_rdhup = 0x2000"

definition kNoneEvent :: "32 word" where "kNoneEvent = 0"
definition kReadEvent :: "32 word" where "kReadEvent = ev_in OR ev_pri"
definition kWriteEvent :: "32 word" where "kWriteEvent = ev_out"

lemmas ev_defs = ev_in_def ev_pri_def ev_out_def ev_err_def ev_hup_def ev_nval_def ev_rdhup_def
  kNoneEvent_def kReadEvent_def kWriteEvent_def

text \<open>\<open>tie_to\<close> is the object the weak pointer \<open>tie_\<close> refers to; of a callback only whether it is set.\<close>

record Channel =
  ch_fd :: int
  ch_events :: "32 word"
  ch_revents :: "32 word"
  ch_index :: int
  logHup :: bool
  tie_to :: nat
  tied :: bool
  ch_eventHandling :: bool
  addedToLoop :: bool
  has_read :: bool
  has_write :: bool
  has_close :: bool
  has_error :: bool

definition new_Channel :: "int \<Rightarrow> Channel" where
  "new_Channel fd =
     \<lparr>ch_fd = fd, ch_events = 0, ch_revents = 0, ch_index = -1, logHup = True, tie_to = 0, tied = False,
      ch_eventHandling = False, addedToLoop = False, has_read = False, has_write = False,
      has_close = False, has_error = False\<rparr>"

datatype ctl_op = EPOLL_CTL_ADD | EPOLL_CTL_DEL | EPOLL_CTL_MOD

record 'f EventLoop =
  chans :: "nat \<Rightarrow> Channel"
  alive :: "nat \<Rightarrow> bool"
  channels :: "int \<rightharpoonup> nat"
  ep_interest :: "int \<rightharpoonup> 32 word \<times> nat"
  ep_refuses :: "ctl_op \<Rightarrow> int \<Rightarrow> bool"
  ep_size :: nat
  threadId :: nat
  this_tid :: nat
  looping :: bool
  quit_flag :: bool
  eventHandling :: bool
  callingPendingFunctors :: bool
  iteration :: "64 word"
  activeChannels :: "nat list"
  currentActiveChannel :: "nat option"
  pendingFunctors :: "'f list"
  wakeupChannel :: nat
  eventfd_count :: nat

definition set_chan :: "nat \<Rightarrow> Channel \<Rightarrow> ('f, 'z) EventLoop_scheme \<Rightarrow> ('f, 'z) EventLoop_scheme" where
  "set_chan c ch w = w\<lparr>chans := (chans w)(c := ch)\<rparr>"

definition isInLoopThread :: "('f, 'z) EventLoop_scheme \<Rightarrow> bool" where
  "isInLoopThread w \<longleftrightarrow> threadId w = this_tid w"

definition assertInLoopThread ::
  "('f, 'z) EventLoop_scheme \<Rightarrow> 'a res \<Rightarrow> 'a res" where
  "assertInLoopThread w m = (if isInLoopThread w then m else Inl Abort)"

definition isNoneEvent :: "Channel \<Rightarrow> bool" where
  "isNoneEvent ch \<longleftrightarrow> ch_events ch = kNoneEvent"

definition isWriting :: "Channel \<Rightarrow> bool" where
  "isWriting ch \<longleftrightarrow> ch_events ch AND kWriteEvent \<noteq> 0"

definition isReading :: "Channel \<Rightarrow> bool" where
  "isReading ch \<longleftrightarrow> ch_events ch AND kReadEvent \<noteq> 0"

section \<open>The epoll poller\<close>

definition kNew :: int where "kNew = -1"
definition kAdded :: int where "kAdded = 1"
definition kDeleted :: int where "kDeleted = 2"

lemmas index_defs = kNew_def kAdded_def kDeleted_def

definition epoll_ctl ::
  "ctl_op \<Rightarrow> int \<Rightarrow> 32 word \<times> nat \<Rightarrow> ('f, 'z) EventLoop_scheme \<Rightarrow> ('f, 'z) EventLoop_scheme option" where
  "epoll_ctl op fd ev w =
     (if ep_refuses w op fd \<or> (op = EPOLL_CTL_ADD \<longleftrightarrow> ep_interest w fd \<noteq> None) then None
      else Some (w\<lparr>ep_interest := (ep_interest w)
        (fd := (if op = EPOLL_CTL_DEL then None else Some ev))\<rparr>))"

definition ep_update ::
  "ctl_op \<Rightarrow> nat \<Rightarrow> ('f, 'z) EventLoop_scheme \<Rightarrow> ('f, 'z) EventLoop_scheme res" where
  "ep_update operation c w =
     (case epoll_ctl operation (ch_fd (chans w c)) (ch_events (chans w c), c) w of
        Some w' \<Rightarrow> Inr w'
      | None \<Rightarrow> if operation = EPOLL_CTL_DEL then Inr w else Inl Abort)"

definition ep_updateChannel :: "nat \<Rightarrow> ('f, 'z) EventLoop_scheme \<Rightarrow> ('f, 'z) EventLoop_scheme res" where
  "ep_updateChannel c w = assertInLoopThread w
     (let index = ch_index (chans w c); fd = ch_fd (chans w c)
      in if index = kNew \<or> index = kDeleted then
           bind_res
             (if index = kNew then
                assert_res (channels w fd = None) (Inr (w\<lparr>channels := (channels w)(fd \<mapsto> c)\<rparr>))
              else
                assert_res (channels w fd \<noteq> None) (assert_res (channels w fd = Some c) (Inr w)))
             (\<lambda>w1. ep_update EPOLL_CTL_ADD c (set_chan c ((chans w1 c)\<lparr>ch_index := kAdded\<rparr>) w1))
         else
           assert_res (channels w fd \<noteq> None) (assert_res (channels w fd = Some c) (assert_res (index = kAdded)
             (if isNoneEvent (chans w c) then
                bind_res (ep_update EPOLL_CTL_DEL c w)
                  (\<lambda>w1. Inr (set_chan c ((chans w1 c)\<lparr>ch_index := kDeleted\<rparr>) w1))
              else ep_update EPOLL_CTL_MOD c w))))"

definition ep_removeChannel :: "nat \<Rightarrow> ('f, 'z) EventLoop_scheme \<Rightarrow> ('f, 'z) EventLoop_scheme res" where
  "ep_removeChannel c w = assertInLoopThread w
     (let fd = ch_fd (chans w c); index = ch_index (chans w c)
      in assert_res (channels w fd \<noteq> None) (assert_res (channels w fd = Some c)
        (assert_res (isNoneEvent (chans w c)) (assert_res (index = kAdded \<or> index = kDeleted)
          (let w1 = w\<lparr>channels := (channels w)(fd := None)\<rparr>
           in bind_res (if index = kAdded then ep_update EPOLL_CTL_DEL c w1 else Inr w1)
                (\<lambda>w2. Inr (set_chan c ((chans w2 c)\<lparr>ch_index := kNew\<rparr>) w2)))))))"

definition hasChannel :: "nat \<Rightarrow> ('f, 'z) EventLoop_scheme \<Rightarrow> bool res" where
  "hasChannel c w = assertInLoopThread w (Inr (channels w (ch_fd (chans w c)) = Some c))"

text \<open>
  \<open>fillActiveChannels\<close> with the events the kernel stored: each the channel it was registered with
  and the reported flags.
\<close>

fun fillActiveChannels ::
  "(32 word \<times> nat) list \<Rightarrow> ('f, 'z) EventLoop_scheme \<Rightarrow> nat list \<Rightarrow> (nat list \<times> ('f, 'z) EventLoop_scheme) res" where
  "fillActiveChannels [] w acc = Inr (acc, w)"
| "fillActiveChannels ((revt, c) # evs) w acc =
     assert_res (channels w (ch_fd (chans w c)) \<noteq> None)
       (assert_res (channels w (ch_fd (chans w c)) = Some c)
         (fillActiveChannels evs (set_chan c ((chans w c)\<lparr>ch_revents := revt\<rparr>) w) (acc @ [c])))"

text \<open>\<open>wait\<close> is the result of \<open>epoll_wait\<close>: the stored events, or the error number. \<open>events_\<close> doubles when it was full.\<close>

definition ep_poll ::
  "nat + (32 word \<times> nat) list \<Rightarrow> ('f, 'z) EventLoop_scheme \<Rightarrow> (nat list \<times> ('f, 'z) EventLoop_scheme) res" where
  "ep_poll wait w =
     (case wait of
        Inl savedErrno \<Rightarrow> Inr ([], w)
      | Inr evs \<Rightarrow>
          if evs = [] then Inr ([], w)
          else assert_res (length evs \<le> ep_size w) (bind_res (fillActiveChannels evs w []) (\<lambda>(active, w1).
            Inr (active, if length evs = ep_size w1 then w1\<lparr>ep_size := ep_size w1 * 2\<rparr> else w1))))"

section \<open>Channels of a loop\<close>

definition updateChannel :: "nat \<Rightarrow> ('f, 'z) EventLoop_scheme \<Rightarrow> ('f, 'z) EventLoop_scheme res" where
  "updateChannel c w = assertInLoopThread w (ep_updateChannel c w)"

definition removeChannel :: "nat \<Rightarrow> ('f, 'z) EventLoop_scheme \<Rightarrow> ('f, 'z) EventLoop_scheme res" where
  "removeChannel c w = assertInLoopThread w
     (assert_res (eventHandling w \<longrightarrow> currentActiveChannel w = Some c \<or> c \<notin> set (activeChannels w))
       (ep_removeChannel c w))"

definition ch_update :: "nat \<Rightarrow> ('f, 'z) EventLoop_scheme \<Rightarrow> ('f, 'z) EventLoop_scheme res" where
  "ch_update c w = updateChannel c (set_chan c ((chans w c)\<lparr>addedToLoop := True\<rparr>) w)"

definition ch_remove :: "nat \<Rightarrow> ('f, 'z) EventLoop_scheme \<Rightarrow> ('f, 'z) EventLoop_scheme res" where
  "ch_remove c w = assert_res (isNoneEvent (chans w c))
     (removeChannel c (set_chan c ((chans w c)\<lparr>addedToLoop := False\<rparr>) w))"

definition ch_tie :: "nat \<Rightarrow> nat \<Rightarrow> ('f, 'z) EventLoop_scheme \<Rightarrow> ('f, 'z) EventLoop_scheme" where
  "ch_tie c obj w = set_chan c ((chans w c)\<lparr>tie_to := obj, tied := True\<rparr>) w"

definition enableReading :: "nat \<Rightarrow> ('f, 'z) EventLoop_scheme \<Rightarrow> ('f, 'z) EventLoop_scheme res" where
  "enableReading c w = ch_update c (set_chan c ((chans w c)\<lparr>ch_events := ch_events (chans w c) OR kReadEvent\<rparr>) w)"

definition disableReading :: "nat \<Rightarrow> ('f, 'z) EventLoop_scheme \<Rightarrow> ('f, 'z) EventLoop_scheme res" where
  "disableReading c w =
     ch_update c (set_chan c ((chans w c)\<lparr>ch_events := ch_events (chans w c) AND NOT kReadEvent\<rparr>) w)"

definition enableWriting :: "nat \<Rightarrow> ('f, 'z) EventLoop_scheme \<Rightarrow> ('f, 'z) EventLoop_scheme res" where
  "enableWriting c w = ch_update c (set_chan c ((chans w c)\<lparr>ch_events := ch_events (chans w c) OR kWriteEvent\<rparr>) w)"

definition disableWriting :: "nat \<Rightarrow> ('f, 'z) EventLoop_scheme \<Rightarrow> ('f, 'z) EventLoop_scheme res" where
  "disableWriting c w =
     ch_update c (set_chan c ((chans w c)\<lparr>ch_events := ch_events (chans w c) AND NOT kWriteEvent\<rparr>) w)"

definition disableAll :: "nat \<Rightarrow> ('f, 'z) EventLoop_scheme \<Rightarrow> ('f, 'z) EventLoop_scheme res" where
  "disableAll c w = ch_update c (set_chan c ((chans w c)\<lparr>ch_events := kNoneEvent\<rparr>) w)"

text \<open>The assertions of the destructor.\<close>

definition delete_Channel :: "nat \<Rightarrow> ('f, 'z) EventLoop_scheme \<Rightarrow> unit res" where
  "delete_Channel c w = assert_res (\<not> ch_eventHandling (chans w c)) (assert_res (\<not> addedToLoop (chans w c))
     (if isInLoopThread w then bind_res (hasChannel c w) (\<lambda>h. assert_res (\<not> h) (Inr ())) else Inr ()))"

text \<open>
  \<open>handleEventWithGuard\<close>: \<open>cb\<close> runs the callbacks of the channels, given the channel and the kind of the callback.
\<close>

datatype ch_callback = On_close | On_error | On_read | On_write

type_synonym ('f, 'z) ch_handler =
  "nat \<Rightarrow> ch_callback \<Rightarrow> ('f, 'z) EventLoop_scheme \<Rightarrow> ('f, 'z) EventLoop_scheme res"


definition handleEventWithGuard ::
  "('f, 'z) ch_handler \<Rightarrow> nat \<Rightarrow> ('f, 'z) EventLoop_scheme \<Rightarrow> ('f, 'z) EventLoop_scheme res" where
  "handleEventWithGuard cb c w =
     bind_res (Inr (set_chan c ((chans w c)\<lparr>ch_eventHandling := True\<rparr>) w)) (\<lambda>w.
     bind_res (if ch_revents (chans w c) AND ev_hup \<noteq> 0 \<and> \<not> ch_revents (chans w c) AND ev_in \<noteq> 0
               then if has_close (chans w c) then cb c On_close w else Inr w else Inr w) (\<lambda>w.
     bind_res (if ch_revents (chans w c) AND (ev_err OR ev_nval) \<noteq> 0
               then if has_error (chans w c) then cb c On_error w else Inr w else Inr w) (\<lambda>w.
     bind_res (if ch_revents (chans w c) AND (ev_in OR ev_pri OR ev_rdhup) \<noteq> 0
               then if has_read (chans w c) then cb c On_read w else Inr w else Inr w) (\<lambda>w.
     bind_res (if ch_revents (chans w c) AND ev_out \<noteq> 0
               then if has_write (chans w c) then cb c On_write w else Inr w else Inr w) (\<lambda>w.
     Inr (set_chan c ((chans w c)\<lparr>ch_eventHandling := False\<rparr>) w))))))"

definition handleEvent ::
  "('f, 'z) ch_handler \<Rightarrow> nat \<Rightarrow> ('f, 'z) EventLoop_scheme \<Rightarrow> ('f, 'z) EventLoop_scheme res" where
  "handleEvent cb c w =
     (if tied (chans w c) then
        if alive w (tie_to (chans w c)) then handleEventWithGuard cb c w else Inr w
      else handleEventWithGuard cb c w)"

text \<open>The text of a set of events, for the log.\<close>

definition eventsToString :: "int \<Rightarrow> 32 word \<Rightarrow> string" where
  "eventsToString fd ev =
     (if fd < 0 then ''-'' else []) @ dec_string (nat \<bar>fd\<bar>) @ '': '' @
     (if ev AND ev_in \<noteq> 0 then ''IN '' else []) @
     (if ev AND ev_pri \<noteq> 0 then ''PRI '' else []) @
     (if ev AND ev_out \<noteq> 0 then ''OUT '' else []) @
     (if ev AND ev_hup \<noteq> 0 then ''HUP '' else []) @
     (if ev AND ev_rdhup \<noteq> 0 then ''RDHUP '' else []) @
     (if ev AND ev_err \<noteq> 0 then ''ERR '' else []) @
     (if ev AND ev_nval \<noteq> 0 then ''NVAL '' else [])"

section \<open>The event loop\<close>

text \<open>
  The eventfd is a counter: a write adds to it unless it would pass its maximum, a read takes it
  to zero. Both calls ignore a failure but for a log message.
\<close>

definition eventfd_max :: nat where "eventfd_max = 2 ^ 64 - 2"

definition wakeup :: "('f, 'z) EventLoop_scheme \<Rightarrow> ('f, 'z) EventLoop_scheme" where
  "wakeup w = (if eventfd_count w < eventfd_max then w\<lparr>eventfd_count := eventfd_count w + 1\<rparr> else w)"

definition loop_handleRead :: "('f, 'z) EventLoop_scheme \<Rightarrow> ('f, 'z) EventLoop_scheme" where
  "loop_handleRead w = w\<lparr>eventfd_count := 0\<rparr>"

text \<open>The part of \<open>queueInLoop\<close> under the mutex, and the whole.\<close>

definition queue_push :: "'f \<Rightarrow> ('f, 'z) EventLoop_scheme \<Rightarrow> ('f, 'z) EventLoop_scheme" where
  "queue_push f w = w\<lparr>pendingFunctors := pendingFunctors w @ [f]\<rparr>"

definition queueInLoop :: "'f \<Rightarrow> ('f, 'z) EventLoop_scheme \<Rightarrow> ('f, 'z) EventLoop_scheme" where
  "queueInLoop f w =
     (let w1 = queue_push f w
      in if \<not> isInLoopThread w1 \<or> callingPendingFunctors w1 then wakeup w1 else w1)"

type_synonym ('f, 'z) functor_code =
  "'f \<Rightarrow> ('f, 'z) EventLoop_scheme \<Rightarrow> ('f, 'z) EventLoop_scheme res"

definition runInLoop ::
  "('f, 'z) functor_code \<Rightarrow> 'f \<Rightarrow> ('f, 'z) EventLoop_scheme \<Rightarrow> ('f, 'z) EventLoop_scheme res" where
  "runInLoop exec f w = (if isInLoopThread w then exec f w else Inr (queueInLoop f w))"

definition queueSize :: "('f, 'z) EventLoop_scheme \<Rightarrow> nat" where
  "queueSize w = length (pendingFunctors w)"

definition loop_quit :: "('f, 'z) EventLoop_scheme \<Rightarrow> ('f, 'z) EventLoop_scheme" where
  "loop_quit w =
     (let w1 = w\<lparr>quit_flag := True\<rparr> in if \<not> isInLoopThread w1 then wakeup w1 else w1)"

text \<open>\<open>doPendingFunctors\<close> takes the queue under the mutex and runs what it took.\<close>

definition take_functors :: "('f, 'z) EventLoop_scheme \<Rightarrow> 'f list \<times> ('f, 'z) EventLoop_scheme" where
  "take_functors w = (pendingFunctors w, w\<lparr>callingPendingFunctors := True, pendingFunctors := []\<rparr>)"

definition doPendingFunctors ::
  "('f, 'z) functor_code \<Rightarrow> ('f, 'z) EventLoop_scheme \<Rightarrow> ('f, 'z) EventLoop_scheme res" where
  "doPendingFunctors exec w =
     (let (functors, w1) = take_functors w
      in bind_res (run_all (\<lambda>w f. exec f w) w1 functors)
           (\<lambda>w2. Inr (w2\<lparr>callingPendingFunctors := False\<rparr>)))"

definition handle_active ::
  "('f, 'z) ch_handler \<Rightarrow> ('f, 'z) EventLoop_scheme \<Rightarrow> nat \<Rightarrow> ('f, 'z) EventLoop_scheme res" where
  "handle_active cb w c = handleEvent cb c (w\<lparr>currentActiveChannel := Some c\<rparr>)"

text \<open>
  The body of the loop, with the result of its \<open>epoll_wait\<close>; and the loop over the results of the
  successive waits, which ends when \<open>quit\<close> has been called (the second component says so).
\<close>

definition poll_phase ::
  "nat + (32 word \<times> nat) list \<Rightarrow> ('f, 'z) EventLoop_scheme \<Rightarrow> ('f, 'z) EventLoop_scheme res" where
  "poll_phase wait w =
     bind_res (ep_poll wait (w\<lparr>activeChannels := []\<rparr>)) (\<lambda>(active, w1).
       Inr (w1\<lparr>activeChannels := active, iteration := iteration w1 + 1, eventHandling := True\<rparr>))"

definition handling_done :: "('f, 'z) EventLoop_scheme \<Rightarrow> ('f, 'z) EventLoop_scheme" where
  "handling_done w = w\<lparr>currentActiveChannel := None, eventHandling := False\<rparr>"

definition loop_turn ::
  "('f, 'z) functor_code \<Rightarrow> ('f, 'z) ch_handler \<Rightarrow> nat + (32 word \<times> nat) list \<Rightarrow> ('f, 'z) EventLoop_scheme
   \<Rightarrow> ('f, 'z) EventLoop_scheme res" where
  "loop_turn exec cb wait w =
     bind_res (poll_phase wait w) (\<lambda>w1.
     bind_res (run_all (handle_active cb) w1 (activeChannels w1)) (\<lambda>w2.
     doPendingFunctors exec (handling_done w2)))"

fun loop_while ::
  "('f, 'z) functor_code \<Rightarrow> ('f, 'z) ch_handler \<Rightarrow> (nat + (32 word \<times> nat) list) list \<Rightarrow> ('f, 'z) EventLoop_scheme
   \<Rightarrow> (bool \<times> ('f, 'z) EventLoop_scheme) res" where
  "loop_while exec cb waits w =
     (if quit_flag w then Inr (True, w\<lparr>looping := False\<rparr>)
      else case waits of
        [] \<Rightarrow> Inr (False, w)
      | wait # waits' \<Rightarrow> bind_res (loop_turn exec cb wait w) (loop_while exec cb waits'))"

declare loop_while.simps [simp del]

definition loop ::
  "('f, 'z) functor_code \<Rightarrow> ('f, 'z) ch_handler \<Rightarrow> (nat + (32 word \<times> nat) list) list \<Rightarrow> ('f, 'z) EventLoop_scheme
   \<Rightarrow> (bool \<times> ('f, 'z) EventLoop_scheme) res" where
  "loop exec cb waits w = assert_res (\<not> looping w) (assertInLoopThread w
     (loop_while exec cb waits (w\<lparr>looping := True, quit_flag := False\<rparr>)))"

text \<open>
  The constructor, in thread \<open>tid\<close>, with the descriptors of the eventfd and the heap it finds; the
  channel \<open>wk\<close> of the eventfd is always reading. The timer queue is in its own theory.
\<close>

definition new_EventLoop ::
  "(nat \<Rightarrow> Channel) \<Rightarrow> (nat \<Rightarrow> bool) \<Rightarrow> (ctl_op \<Rightarrow> int \<Rightarrow> bool) \<Rightarrow> nat \<Rightarrow> nat \<Rightarrow> int \<Rightarrow> 'f EventLoop res" where
  "new_EventLoop heap objs refuses tid wk wakeupFd =
     enableReading wk
       \<lparr>chans = heap(wk := (new_Channel wakeupFd)\<lparr>has_read := True\<rparr>), alive = objs, channels = Map.empty,
        ep_interest = Map.empty, ep_refuses = refuses, ep_size = 16, threadId = tid, this_tid = tid,
        looping = False, quit_flag = False, eventHandling = False, callingPendingFunctors = False,
        iteration = 0, activeChannels = [], currentActiveChannel = None, pendingFunctors = [],
        wakeupChannel = wk, eventfd_count = 0\<rparr>"

definition delete_EventLoop :: "('f, 'z) EventLoop_scheme \<Rightarrow> ('f, 'z) EventLoop_scheme res" where
  "delete_EventLoop w =
     bind_res (disableAll (wakeupChannel w) w) (\<lambda>w1. ch_remove (wakeupChannel w1) w1)"

section \<open>The invariant of the poller\<close>

text \<open>
  The table of channels and the interest list agree: a descriptor is watched exactly when its channel
  is marked as added, for the events of the channel.
\<close>

definition poller_ok :: "('f, 'z) EventLoop_scheme \<Rightarrow> bool" where
  "poller_ok w \<longleftrightarrow>
     (\<forall>fd c. channels w fd = Some c \<longrightarrow> ch_fd (chans w c) = fd \<and>
        (ch_index (chans w c) = kAdded \<or> ch_index (chans w c) = kDeleted \<and> isNoneEvent (chans w c))) \<and>
     (\<forall>fd. ep_interest w fd = (case channels w fd of None \<Rightarrow> None
        | Some c \<Rightarrow> if ch_index (chans w c) = kAdded then Some (ch_events (chans w c), c) else None))"

lemma poller_okD:
  assumes "poller_ok w"
  shows "channels w fd = Some c \<Longrightarrow> ch_fd (chans w c) = fd"
    and "channels w fd = Some c \<Longrightarrow>
      ch_index (chans w c) = kAdded \<or> ch_index (chans w c) = kDeleted \<and> isNoneEvent (chans w c)"
    and "ep_interest w fd = (case channels w fd of None \<Rightarrow> None
        | Some c \<Rightarrow> if ch_index (chans w c) = kAdded then Some (ch_events (chans w c), c) else None)"
  using assms unfolding poller_ok_def by blast+

lemma poller_okI:
  assumes "\<And>fd c. channels w fd = Some c \<Longrightarrow> ch_fd (chans w c) = fd \<and>
        (ch_index (chans w c) = kAdded \<or> ch_index (chans w c) = kDeleted \<and> isNoneEvent (chans w c))"
    and "\<And>fd. ep_interest w fd = (case channels w fd of None \<Rightarrow> None
        | Some c \<Rightarrow> if ch_index (chans w c) = kAdded then Some (ch_events (chans w c), c) else None)"
  shows "poller_ok w"
  using assms unfolding poller_ok_def by blast

lemma poller_ok_cong:
  "chans w' = chans w \<Longrightarrow> channels w' = channels w \<Longrightarrow> ep_interest w' = ep_interest w \<Longrightarrow>
   poller_ok w' = poller_ok w"
  by (simp only: poller_ok_def)

text \<open>A live channel: registered, or new with a descriptor no other channel has; and the kernel takes its calls.\<close>

definition chan_ok :: "('f, 'z) EventLoop_scheme \<Rightarrow> nat \<Rightarrow> bool" where
  "chan_ok w c \<longleftrightarrow>
     (channels w (ch_fd (chans w c)) = Some c \<or>
      channels w (ch_fd (chans w c)) = None \<and> ch_index (chans w c) = kNew \<and> isNoneEvent (chans w c)) \<and>
     (\<forall>operation. \<not> ep_refuses w operation (ch_fd (chans w c)))"

text \<open>What giving a channel the events \<open>e\<close> amounts to.\<close>

definition watched :: "nat \<Rightarrow> 32 word \<Rightarrow> ('f, 'z) EventLoop_scheme \<Rightarrow> ('f, 'z) EventLoop_scheme" where
  "watched c e w =
     (let ch = chans w c; off = (ch_index ch = kAdded \<and> e = kNoneEvent)
      in w\<lparr>chans := (chans w)(c := ch\<lparr>ch_events := e, addedToLoop := True,
                        ch_index := (if off then kDeleted else kAdded)\<rparr>),
           channels := (channels w)(ch_fd ch \<mapsto> c),
           ep_interest := (ep_interest w)(ch_fd ch := (if off then None else Some (e, c)))\<rparr>)"

definition unwatched :: "nat \<Rightarrow> ('f, 'z) EventLoop_scheme \<Rightarrow> ('f, 'z) EventLoop_scheme" where
  "unwatched c w =
     w\<lparr>chans := (chans w)(c := (chans w c)\<lparr>addedToLoop := False, ch_index := kNew\<rparr>),
       channels := (channels w)(ch_fd (chans w c) := None),
       ep_interest := (ep_interest w)(ch_fd (chans w c) := None)\<rparr>"

lemma ch_update_watched:
  assumes "poller_ok w" and "chan_ok w c" and "isInLoopThread w"
  shows "ch_update c (set_chan c ((chans w c)\<lparr>ch_events := e\<rparr>) w) = Inr (watched c e w)"
proof -
  have k: "kAdded \<noteq> kNew" "kDeleted \<noteq> kNew" "kAdded \<noteq> kDeleted" by (simp_all add: index_defs)
  have r: "channels w (ch_fd (chans w c)) = Some c \<Longrightarrow>
      ch_index (chans w c) = kAdded \<or> ch_index (chans w c) = kDeleted"
    and i: "channels w (ch_fd (chans w c)) = Some c \<Longrightarrow> ep_interest w (ch_fd (chans w c)) =
      (if ch_index (chans w c) = kAdded then Some (ch_events (chans w c), c) else None)"
    and n: "channels w (ch_fd (chans w c)) = None \<Longrightarrow> ep_interest w (ch_fd (chans w c)) = None"
    using poller_okD [OF assms(1), of "ch_fd (chans w c)"] by auto
  have t: "threadId w = this_tid w" using assms(3) by (simp add: isInLoopThread_def)
  note d = ch_update_def updateChannel_def assertInLoopThread_def isInLoopThread_def ep_updateChannel_def
    ep_update_def epoll_ctl_def set_chan_def watched_def Let_def isNoneEvent_def t
  from assms(2) consider (new) "channels w (ch_fd (chans w c)) = None" "ch_index (chans w c) = kNew"
    | (added) "channels w (ch_fd (chans w c)) = Some c" "ch_index (chans w c) = kAdded"
    | (deleted) "channels w (ch_fd (chans w c)) = Some c" "ch_index (chans w c) = kDeleted"
    using r by (auto simp: chan_ok_def)
  then show ?thesis
  proof cases
    case new
    with n assms(2) k show ?thesis by (simp add: d chan_ok_def)
  next
    case added
    then have "(chans w c)\<lparr>ch_events := e, addedToLoop := True, ch_index := kAdded\<rparr>
        = (chans w c)\<lparr>ch_events := e, addedToLoop := True\<rparr>" by simp
    with added i assms(2) k show ?thesis
      by (auto simp: d chan_ok_def fun_upd_idem intro!: EventLoop.equality)
  next
    case deleted
    with i assms(2) k show ?thesis by (simp add: d chan_ok_def fun_upd_idem)
  qed
qed

lemma channel_ops:
  assumes "poller_ok w" and "chan_ok w c" and "isInLoopThread w"
  shows "enableReading c w = Inr (watched c (ch_events (chans w c) OR kReadEvent) w)"
    and "disableReading c w = Inr (watched c (ch_events (chans w c) AND NOT kReadEvent) w)"
    and "enableWriting c w = Inr (watched c (ch_events (chans w c) OR kWriteEvent) w)"
    and "disableWriting c w = Inr (watched c (ch_events (chans w c) AND NOT kWriteEvent) w)"
    and "disableAll c w = Inr (watched c kNoneEvent w)"
  using ch_update_watched [OF assms]
  by (simp_all add: enableReading_def disableReading_def enableWriting_def disableWriting_def disableAll_def)

lemma chan_ok_fd:
  assumes "poller_ok w" and "chan_ok w c" and "channels w fd = Some c'"
  shows "c' = c \<longleftrightarrow> fd = ch_fd (chans w c)"
  using poller_okD(1) [OF assms(1,3)] assms(2,3) unfolding chan_ok_def by (metis option.inject option.distinct(1))

lemma watched_ok:
  assumes "poller_ok w" and "chan_ok w c"
  shows "poller_ok (watched c e w)" and "chan_ok (watched c e w) c"
proof -
  let ?w = "watched c e w"
  show "poller_ok ?w"
  proof (rule poller_okI)
    fix fd c' assume "channels ?w fd = Some c'"
    then have "fd = ch_fd (chans w c) \<and> c' = c \<or> channels w fd = Some c' \<and> fd \<noteq> ch_fd (chans w c) \<and> c' \<noteq> c"
      using chan_ok_fd [OF assms, of fd c'] by (auto simp: watched_def Let_def split: if_splits)
    with poller_okD(1,2) [OF assms(1), of fd c']
    show "ch_fd (chans ?w c') = fd \<and> (ch_index (chans ?w c') = kAdded \<or>
        ch_index (chans ?w c') = kDeleted \<and> isNoneEvent (chans ?w c'))"
      by (auto simp: watched_def Let_def isNoneEvent_def)
  next
    fix fd
    show "ep_interest ?w fd = (case channels ?w fd of None \<Rightarrow> None
        | Some c' \<Rightarrow> if ch_index (chans ?w c') = kAdded then Some (ch_events (chans ?w c'), c') else None)"
      using poller_okD(3) [OF assms(1), of fd] chan_ok_fd [OF assms, of fd]
      by (cases "fd = ch_fd (chans w c)"; cases "channels w fd")
        (auto simp: watched_def Let_def index_defs)
  qed
  show "chan_ok ?w c"
    using assms(2) by (auto simp: chan_ok_def watched_def Let_def)
qed

lemma watched_frame [simp]:
  "c' \<noteq> c \<Longrightarrow> chans (watched c e w) c' = chans w c'"
  "ch_fd (chans (watched c e w) c') = ch_fd (chans w c')"
  "ch_events (chans (watched c e w) c) = e"
  "pendingFunctors (watched c e w) = pendingFunctors w"
  "isInLoopThread (watched c e w) = isInLoopThread w"
  "eventfd_count (watched c e w) = eventfd_count w"
  "callingPendingFunctors (watched c e w) = callingPendingFunctors w"
  "threadId (watched c e w) = threadId w" "this_tid (watched c e w) = this_tid w"
  "alive (watched c e w) = alive w" "ep_refuses (watched c e w) = ep_refuses w"
  "EventLoop.more (watched c e w) = EventLoop.more w"
  by (auto simp: watched_def Let_def isInLoopThread_def)

lemma watched_other:
  "poller_ok w \<Longrightarrow> chan_ok w c \<Longrightarrow> chan_ok w c' \<Longrightarrow> ch_fd (chans w c') \<noteq> ch_fd (chans w c) \<Longrightarrow>
   chan_ok (watched c e w) c'"
  by (cases "c' = c") (auto simp: chan_ok_def watched_def Let_def)

lemma ch_remove_unwatched:
  assumes "poller_ok w" and "channels w (ch_fd (chans w c)) = Some c" and "isInLoopThread w"
    and "isNoneEvent (chans w c)" and "\<not> ep_refuses w EPOLL_CTL_DEL (ch_fd (chans w c))"
    and "eventHandling w \<longrightarrow> currentActiveChannel w = Some c \<or> c \<notin> set (activeChannels w)"
  shows "ch_remove c w = Inr (unwatched c w)" and "poller_ok (unwatched c w)"
proof -
  note i = poller_okD(3) [OF assms(1)]
  have x: "ch_index (chans w c) = kAdded \<or> ch_index (chans w c) = kDeleted"
    using poller_okD(2) [OF assms(1,2)] by auto
  have t: "threadId w = this_tid w" using assms(3) by (simp add: isInLoopThread_def)
  note d = ch_remove_def removeChannel_def assertInLoopThread_def isInLoopThread_def ep_removeChannel_def
    ep_update_def epoll_ctl_def set_chan_def unwatched_def Let_def isNoneEvent_def t
  from x show "ch_remove c w = Inr (unwatched c w)"
  proof
    assume a: "ch_index (chans w c) = kAdded"
    with i have "ep_interest w (ch_fd (chans w c)) = Some (ch_events (chans w c), c)" using assms(2) by simp
    with a assms show ?thesis by (auto simp: d)
  next
    assume a: "ch_index (chans w c) = kDeleted"
    then have k: "ch_index (chans w c) \<noteq> kAdded" by (simp add: index_defs)
    with i have "ep_interest w (ch_fd (chans w c)) = None" using assms(2) by simp
    with a assms k show ?thesis by (auto simp: d fun_upd_idem)
  qed
  show "poller_ok (unwatched c w)"
  proof (rule poller_okI)
    fix fd c' assume "channels (unwatched c w) fd = Some c'"
    then have "channels w fd = Some c'" "c' \<noteq> c"
      using poller_okD(1) [OF assms(1), of fd c'] by (auto simp: unwatched_def split: if_splits)
    with poller_okD(1,2) [OF assms(1), of fd c']
    show "ch_fd (chans (unwatched c w) c') = fd \<and> (ch_index (chans (unwatched c w) c') = kAdded \<or>
        ch_index (chans (unwatched c w) c') = kDeleted \<and> isNoneEvent (chans (unwatched c w) c'))"
      by (auto simp: unwatched_def)
  next
    fix fd
    show "ep_interest (unwatched c w) fd = (case channels (unwatched c w) fd of None \<Rightarrow> None
        | Some c' \<Rightarrow> if ch_index (chans (unwatched c w) c') = kAdded
            then Some (ch_events (chans (unwatched c w) c'), c') else None)"
      using i [of fd] poller_okD(1) [OF assms(1), of fd c]
      by (cases "channels w fd") (auto simp: unwatched_def)
  qed
qed

section \<open>Queueing from other threads\<close>

text \<open>
  The loop thread and the threads that call \<open>queueInLoop\<close>, interleaved: the loop waits, handles the
  active channels, takes the queue and runs what it took, functor by functor; another thread pushes under the mutex and
  wakes the loop up later. \<open>wakers\<close> counts the threads between the two; \<open>queued\<close> and \<open>performed\<close>
  record what was pushed and what was run.
\<close>

datatype 'f loop_pc = At_poll | Handling "nat list" | Running "'f list"

record ('f, 'z) threads =
  lw :: "('f, 'z) EventLoop_scheme"
  pc :: "'f loop_pc"
  wakers :: nat
  queued :: "'f list"
  performed :: "'f list"

definition pushed :: "('f, 'z) EventLoop_scheme \<Rightarrow> ('f, 'z) EventLoop_scheme \<Rightarrow> 'f list" where
  "pushed w w' = drop (length (pendingFunctors w)) (pendingFunctors w')"

inductive loop_step ::
  "('f, 'z) functor_code \<Rightarrow> ('f, 'z) ch_handler \<Rightarrow> ('f, 'z) threads \<Rightarrow> ('f, 'z) threads \<Rightarrow> bool"
  for exec :: "('f, 'z) functor_code" and cb :: "('f, 'z) ch_handler" where
  other_push: "loop_step exec cb t (t\<lparr>lw := queue_push f (lw t), wakers := wakers t + 1, queued := queued t @ [f]\<rparr>)"
| other_wakeup: "wakers t = Suc n \<Longrightarrow> loop_step exec cb t (t\<lparr>lw := wakeup (lw t), wakers := n\<rparr>)"
| wait: "pc t = At_poll \<Longrightarrow> poll_phase evs (lw t) = Inr w \<Longrightarrow>
    loop_step exec cb t (t\<lparr>lw := w, pc := Handling (activeChannels w)\<rparr>)"
| handle: "pc t = Handling (c # cs) \<Longrightarrow> handle_active cb (lw t) c = Inr w \<Longrightarrow>
    loop_step exec cb t (t\<lparr>lw := w, pc := Handling cs, queued := queued t @ pushed (lw t) w\<rparr>)"
| take: "pc t = Handling [] \<Longrightarrow> take_functors (handling_done (lw t)) = (fs, w) \<Longrightarrow>
    loop_step exec cb t (t\<lparr>lw := w, pc := Running fs\<rparr>)"
| run: "pc t = Running (f # fs) \<Longrightarrow> exec f (lw t) = Inr w \<Longrightarrow>
    loop_step exec cb t (t\<lparr>lw := w, pc := Running fs, queued := queued t @ pushed (lw t) w, performed := performed t @ [f]\<rparr>)"
| turn_end: "pc t = Running [] \<Longrightarrow>
    loop_step exec cb t (t\<lparr>lw := (lw t)\<lparr>callingPendingFunctors := False\<rparr>, pc := At_poll\<rparr>)"

definition signalled :: "('f, 'z) EventLoop_scheme \<Rightarrow> bool" where
  "signalled w \<longleftrightarrow> pendingFunctors w = [] \<or> eventfd_count w > 0"

lemma signalled_wakeup [simp]: "signalled (wakeup w)"
  by (auto simp: signalled_def wakeup_def eventfd_max_def)

lemma signalled_queueInLoop: "callingPendingFunctors w \<Longrightarrow> signalled (queueInLoop f w)"
  by (simp add: queueInLoop_def Let_def queue_push_def)

lemma pending_wakeup [simp]: "pendingFunctors (wakeup w) = pendingFunctors w"
  by (simp add: wakeup_def)

lemma pending_queueInLoop [simp]: "pendingFunctors (queueInLoop f w) = pendingFunctors w @ [f]"
  by (simp add: queueInLoop_def Let_def queue_push_def)

lemma fillActiveChannels_frame:
  "fillActiveChannels evs w acc = Inr (active, w') \<Longrightarrow>
   pendingFunctors w' = pendingFunctors w \<and> active = acc @ map snd evs"
proof (induction evs w acc rule: fillActiveChannels.induct)
  case (2 revt c evs w acc)
  from 2(2) have "fillActiveChannels evs (set_chan c ((chans w c)\<lparr>ch_revents := revt\<rparr>) w) (acc @ [c]) = Inr (active, w')"
    by (simp_all add: res_simps)
  from 2(1) [OF this(1)] show ?case by (simp add: set_chan_def)
qed simp

lemma poll_phase_frame:
  "poll_phase evs w = Inr w' \<Longrightarrow> pendingFunctors w' = pendingFunctors w"
  by (auto simp: poll_phase_def ep_poll_def res_simps dest!: fillActiveChannels_frame split: sum.splits if_splits)

text \<open>
  What the loop relies on: its functors and the callbacks of its channels reach the queue only through
  \<open>queueInLoop\<close>, so they append to it, and a functor that does so leaves the eventfd readable.
\<close>

locale loop_client =
  fixes exec :: "('f, 'z) functor_code" and cb :: "('f, 'z) ch_handler"
  assumes exec_appends: "exec f w = Inr w' \<Longrightarrow> prefix (pendingFunctors w) (pendingFunctors w')"
    and exec_signals: "exec f w = Inr w' \<Longrightarrow> callingPendingFunctors w \<Longrightarrow>
      callingPendingFunctors w' \<and> (signalled w \<longrightarrow> signalled w')"
    and cb_appends: "cb c k w = Inr w' \<Longrightarrow> prefix (pendingFunctors w) (pendingFunctors w')"
begin

definition threads_ok :: "('f, 'z) threads \<Rightarrow> bool" where
  "threads_ok t \<longleftrightarrow>
     queued t = performed t @ (case pc t of Running fs \<Rightarrow> fs | _ \<Rightarrow> []) @ pendingFunctors (lw t) \<and>
     (case pc t of Handling _ \<Rightarrow> True
      | At_poll \<Rightarrow> signalled (lw t) \<or> wakers t > 0
      | Running _ \<Rightarrow> callingPendingFunctors (lw t) \<and> (signalled (lw t) \<or> wakers t > 0))"

lemma append_pushed: "prefix (pendingFunctors w) (pendingFunctors w') \<Longrightarrow>
   pendingFunctors w @ pushed w w' = pendingFunctors w'"
  by (auto simp: prefix_def pushed_def)

lemma handle_active_appends:
  assumes "handle_active cb w c = Inr w'"
  shows "prefix (pendingFunctors w) (pendingFunctors w')"
proof -
  have mono: "bind_res m f = Inr w2 \<Longrightarrow> (\<And>w1. m = Inr w1 \<Longrightarrow> prefix p (pendingFunctors w1)) \<Longrightarrow>
    (\<And>w1. f w1 = Inr w2 \<Longrightarrow> prefix (pendingFunctors w1) (pendingFunctors w2)) \<Longrightarrow> prefix p (pendingFunctors w2)"
    for m :: "('f, 'z) EventLoop_scheme res" and f w2 p
    by (auto simp: bind_res_eq_Inr intro: prefix_order.trans)
  have "prefix (pendingFunctors w) (pendingFunctors w')" if "handleEventWithGuard cb c w = Inr w'" for w w'
    using that unfolding handleEventWithGuard_def
    by (elim mono) (auto simp: set_chan_def dest: cb_appends split: if_splits)
  then show ?thesis
    using assms by (fastforce simp: handle_active_def handleEvent_def split: if_splits)
qed

lemma threads_ok_step: "loop_step exec cb t t' \<Longrightarrow> threads_ok t \<Longrightarrow> threads_ok t'"
proof (induction rule: loop_step.induct)
  case (other_push t f)
  then show ?case by (auto simp: threads_ok_def queue_push_def split: loop_pc.splits)
next
  case (other_wakeup t n)
  then show ?case by (auto simp: threads_ok_def wakeup_def signalled_def eventfd_max_def split: loop_pc.splits)
next
  case (wait t evs w)
  then have "pendingFunctors w = pendingFunctors (lw t)" by (simp add: poll_phase_frame)
  with wait show ?case by (simp add: threads_ok_def)
next
  case (handle t c cs w)
  then show ?case using append_pushed [OF handle_active_appends [OF handle(2)]]
    by (simp add: threads_ok_def)
next
  case (take t fs w)
  then show ?case by (auto simp: threads_ok_def take_functors_def handling_done_def signalled_def)
next
  case (run t f fs w)
  then show ?case using append_pushed [OF exec_appends [OF run(2)]] exec_signals [OF run(2)]
    by (auto simp: threads_ok_def)
next
  case (turn_end t)
  then show ?case by (auto simp: threads_ok_def signalled_def)
qed

text \<open>
  In every interleaving each functor runs once, in the order of the queue, and the loop never waits while functors are
  queued unless its eventfd is readable or about to become so.
\<close>

lemma functors_run_in_order:
  assumes "(loop_step exec cb)\<^sup>*\<^sup>* t t'" and "threads_ok t"
  shows "prefix (performed t') (queued t')"
    and "pc t' = At_poll \<Longrightarrow> queued t' = performed t' \<or> eventfd_count (lw t') > 0 \<or> wakers t' > 0"
proof -
  from assms have "threads_ok t'" by (induction rule: rtranclp_induct) (auto intro: threads_ok_step)
  then show "prefix (performed t') (queued t')"
    and "pc t' = At_poll \<Longrightarrow> queued t' = performed t' \<or> eventfd_count (lw t') > 0 \<or> wakers t' > 0"
    by (auto simp: threads_ok_def prefix_def signalled_def split: loop_pc.splits)
qed

end

section \<open>The queue of the loop\<close>

text \<open>\<open>q_ext w w'\<close>: the queue was extended as \<open>queueInLoop\<close> does it.\<close>

definition q_ext :: "('f, 'z) EventLoop_scheme \<Rightarrow> ('f, 'z) EventLoop_scheme \<Rightarrow> bool" where
  "q_ext w w' \<longleftrightarrow> prefix (pendingFunctors w) (pendingFunctors w') \<and>
     (callingPendingFunctors w \<longrightarrow> callingPendingFunctors w' \<and> (signalled w \<longrightarrow> signalled w'))"

definition q_res :: "('f, 'z) EventLoop_scheme \<Rightarrow> ('f, 'z) EventLoop_scheme res \<Rightarrow> bool" where
  "q_res w m \<longleftrightarrow> (\<forall>w'. m = Inr w' \<longrightarrow> q_ext w w')"

lemma q_ext_refl [simp]: "q_ext w w"
  by (simp add: q_ext_def)

lemma q_ext_trans [trans]: "q_ext w w1 \<Longrightarrow> q_ext w1 w2 \<Longrightarrow> q_ext w w2"
  unfolding q_ext_def by (meson prefix_order.trans)

lemma q_ext_same:
  "pendingFunctors w' = pendingFunctors w \<Longrightarrow> callingPendingFunctors w' = callingPendingFunctors w \<Longrightarrow>
   eventfd_count w' = eventfd_count w \<Longrightarrow> q_ext w w'"
  by (simp add: q_ext_def signalled_def)

lemma q_ext_queueInLoop [simp]: "q_ext w (queueInLoop f w)"
  using signalled_queueInLoop [of w f]
  by (auto simp: q_ext_def queueInLoop_def Let_def queue_push_def wakeup_def)

lemma q_res_Inr [simp]: "q_res w (Inr w') = q_ext w w'"
  by (simp add: q_res_def)

lemma q_res_Inl [simp]: "q_res w (Inl e)"
  by (simp add: q_res_def)

lemma q_res_bind: "q_res w m \<Longrightarrow> (\<And>w1. q_res w1 (f w1)) \<Longrightarrow> q_res w (bind_res m f)"
  by (auto simp: q_res_def res_simps intro: q_ext_trans)

lemma q_res_bind_any: "(\<And>x. q_res w (f x)) \<Longrightarrow> q_res w (bind_res m f)"
  by (auto simp: q_res_def res_simps)

lemma q_res_assert: "q_res w m \<Longrightarrow> q_res w (assert_res p m)"
  by (cases p) simp_all

lemma q_res_inLoop: "q_res w m \<Longrightarrow> q_res w (assertInLoopThread w1 m)"
  by (simp add: assertInLoopThread_def)

lemma q_res_if: "(p \<Longrightarrow> q_res w m) \<Longrightarrow> (\<not> p \<Longrightarrow> q_res w m') \<Longrightarrow> q_res w (if p then m else m')"
  by simp

lemma q_res_via: "q_ext w w1 \<Longrightarrow> q_res w1 m \<Longrightarrow> q_res w m"
  by (auto simp: q_res_def intro: q_ext_trans)

lemmas q_intros = q_res_bind q_res_assert q_res_inLoop q_res_if

lemma q_ext_set_chan [simp]: "q_ext w (set_chan c ch w)"
  by (rule q_ext_same) (simp_all add: set_chan_def)

lemma q_res_ep_update: "q_res w (ep_update operation c w)"
  by (auto simp: ep_update_def epoll_ctl_def q_ext_same split: option.splits)

lemma q_res_ep_updateChannel: "q_res w (ep_updateChannel c w)"
  unfolding ep_updateChannel_def Let_def
  by (intro q_intros q_res_via [OF q_ext_set_chan q_res_ep_update] q_res_ep_update)
    (simp_all add: q_ext_same)

lemma q_res_ch_update: "q_res w (ch_update c w)"
  unfolding ch_update_def updateChannel_def
  by (intro q_intros q_res_via [OF q_ext_set_chan q_res_ep_updateChannel])

lemma q_res_channel_ops:
  "q_res w (enableReading c w)" "q_res w (disableReading c w)" "q_res w (enableWriting c w)"
  "q_res w (disableWriting c w)" "q_res w (disableAll c w)"
  unfolding enableReading_def disableReading_def enableWriting_def disableWriting_def disableAll_def
  by (rule q_res_via [OF q_ext_set_chan q_res_ch_update])+

lemma q_res_ch_remove: "q_res w (ch_remove c w)"
proof -
  have u: "q_ext w (w\<lparr>channels := m\<rparr>)" for w :: "('a, 'b) EventLoop_scheme" and m by (simp add: q_ext_same)
  have "q_res w (ep_removeChannel c w)" for w :: "('a, 'b) EventLoop_scheme"
    unfolding ep_removeChannel_def Let_def
    by (intro q_res_inLoop q_res_assert q_res_bind q_res_if)
      (simp_all add: u q_res_via [OF u q_res_ep_update])
  then show ?thesis
    unfolding ch_remove_def removeChannel_def
    by (intro q_res_inLoop q_res_assert) (rule q_res_via [OF q_ext_set_chan])
qed

end
