(* ===== verification/Mu_Conn.thy ===== *)
theory Mu_Conn
  imports Mu_Loop Buffer
begin

text \<open>
  TCP connections and their server (\<^verbatim>\<open>mucgi/muduo_net/TcpConnection.cc\<close>,
  \<^verbatim>\<open>TcpServer.cc\<close>, \<^verbatim>\<open>Acceptor.cc\<close>) on the event loop of theory \<open>Mu_Loop\<close>.

  The connections of a server live in the heap \<open>conns\<close> beside the channels of the loop; every connection
  is on the loop of the acceptor, as with no I/O threads. The functors the code binds
  are the values of \<open>bound_call\<close> and \<open>exec\<close> runs them. What the user of the library supplies, the callbacks of a
  connection, is the argument \<open>user\<close>; its own data are the field \<open>app_data\<close>, of any type.

  The kernel side of a connection is what its socket has taken (\<open>sock_out\<close>) and whether its write
  side is shut. How much a \<open>write\<close> takes, and what \<open>readv\<close>, \<open>accept4\<close> and \<open>open\<close> return, is
  up to the kernel: the fields \<open>k_write\<close>, \<open>k_readv\<close>, \<open>k_accept\<close> and \<open>k_open\<close> give the result
  of each call by its number. A new object is at the next free index of its heap; a connection and its channel have
  the same index. Addresses of peers are only logged.
\<close>

section \<open>State\<close>

datatype StateE = kDisconnected | kConnecting | kConnected | kDisconnecting

record TcpConnection =
  c_name :: string
  c_state :: StateE
  reading :: bool
  c_channel :: nat
  has_writeComplete :: bool
  has_highWaterMark :: bool
  highWaterMark :: nat
  inputBuffer :: buffer
  outputBuffer :: buffer
  tcp_nodelay :: bool
  sock_out :: bytes
  sock_shut :: bool

datatype bound_call =
    F_sendInLoop nat bytes
  | F_shutdownInLoop nat
  | F_forceCloseInLoop nat
  | F_startReadInLoop nat
  | F_stopReadInLoop nat
  | F_writeComplete nat
  | F_highWaterMark nat nat
  | F_connectEstablished nat
  | F_connectDestroyed nat
  | F_removeConnectionInLoop nat
  | F_listen

datatype callback =
    Connection_cb nat
  | Message_cb nat
  | WriteComplete_cb nat
  | HighWaterMark_cb nat nat

record 'u net = "bound_call EventLoop" +
  conns :: "nat \<Rightarrow> TcpConnection"
  k_write :: "nat \<Rightarrow> nat + nat"
  k_writes :: nat
  k_readv :: "nat \<Rightarrow> nat + bytes"
  k_reads :: nat
  k_accept :: "nat \<Rightarrow> nat + int"
  k_accepts :: nat
  k_open :: "nat \<Rightarrow> int"
  k_opens :: nat
  delayed :: "(nat \<times> nat) list"
  next_obj :: nat
  acceptChannel :: nat
  listenning :: bool
  idleFd :: int
  srv_name :: string
  ipPort :: string
  started :: bool
  srv_writeComplete :: bool
  connections :: "string \<rightharpoonup> nat"
  nextConnId :: "32 word"
  app_data :: 'u

type_synonym 'u user_code = "callback \<Rightarrow> 'u net \<Rightarrow> 'u net res"

definition EPIPE :: nat where "EPIPE = 32"
definition ECONNRESET :: nat where "ECONNRESET = 104"
definition EWOULDBLOCK :: nat where "EWOULDBLOCK = 11"

abbreviation conn_chan :: "nat \<Rightarrow> 'u net \<Rightarrow> Channel" where
  "conn_chan c w \<equiv> chans w (c_channel (conns w c))"

definition set_conn :: "nat \<Rightarrow> TcpConnection \<Rightarrow> 'u net \<Rightarrow> 'u net" where
  "set_conn c cn w = w\<lparr>conns := (conns w)(c := cn)\<rparr>"

definition setState :: "nat \<Rightarrow> StateE \<Rightarrow> 'u net \<Rightarrow> 'u net" where
  "setState c s w = set_conn c ((conns w c)\<lparr>c_state := s\<rparr>) w"

definition new_TcpConnection :: "string \<Rightarrow> nat \<Rightarrow> TcpConnection" where
  "new_TcpConnection name channel =
     \<lparr>c_name = name, c_state = kConnecting, reading = True, c_channel = channel, has_writeComplete = False,
      has_highWaterMark = False, highWaterMark = 64 * 1024 * 1024, inputBuffer = new_Buffer kInitialSize,
      outputBuffer = new_Buffer kInitialSize, tcp_nodelay = False, sock_out = [], sock_shut = False\<rparr>"

text \<open>The destructor asserts, and so does that of the channel the connection owns.\<close>

definition delete_TcpConnection :: "nat \<Rightarrow> 'u net \<Rightarrow> 'u net res" where
  "delete_TcpConnection c w = assert_res (c_state (conns w c) = kDisconnected)
     (bind_res (delete_Channel (c_channel (conns w c)) w) (\<lambda>_. Inr (w\<lparr>alive := (alive w)(c := False)\<rparr>)))"

section \<open>The socket\<close>

text \<open>A \<open>write\<close> of \<open>data\<close>: the error number, or the count of the bytes the socket took.\<close>

definition sock_write :: "nat \<Rightarrow> bytes \<Rightarrow> 'u net \<Rightarrow> (nat + nat) \<times> 'u net" where
  "sock_write c data w =
     (let w1 = w\<lparr>k_writes := k_writes w + 1\<rparr>
      in if sock_shut (conns w c) then (Inl EPIPE, w1)
         else case k_write w (k_writes w) of
                Inl err \<Rightarrow> (Inl err, w1)
              | Inr n \<Rightarrow>
                  (let m = min n (length data)
                   in (Inr m, set_conn c ((conns w c)\<lparr>sock_out := sock_out (conns w c) @ take m data\<rparr>) w1)))"

definition shutdownWrite :: "nat \<Rightarrow> 'u net \<Rightarrow> 'u net" where
  "shutdownWrite c w = set_conn c ((conns w c)\<lparr>sock_shut := True\<rparr>) w"

definition setTcpNoDelay :: "nat \<Rightarrow> bool \<Rightarrow> 'u net \<Rightarrow> 'u net" where
  "setTcpNoDelay c on w = set_conn c ((conns w c)\<lparr>tcp_nodelay := on\<rparr>) w"

section \<open>Sending\<close>

text \<open>\<open>writeComplete\<close> and \<open>highWaterMark\<close> callbacks are queued, when they are set.\<close>

definition queue_if :: "bool \<Rightarrow> bound_call \<Rightarrow> 'u net \<Rightarrow> 'u net" where
  "queue_if p f w = (if p then queueInLoop f w else w)"

text \<open>The parts of \<open>sendInLoop\<close>: writing directly when nothing is queued, and queueing the rest.\<close>

definition direct_write :: "nat \<Rightarrow> bytes \<Rightarrow> 'u net \<Rightarrow> nat \<times> bool \<times> 'u net" where
  "direct_write c data w =
     (if \<not> isWriting (conn_chan c w) \<and> readableBytes (outputBuffer (conns w c)) = 0 then
        case sock_write c data w of
          (Inr nwrote, w1) \<Rightarrow>
            (nwrote, False,
             queue_if (length data - nwrote = 0 \<and> has_writeComplete (conns w1 c)) (F_writeComplete c) w1)
        | (Inl err, w1) \<Rightarrow> (0, err \<noteq> EWOULDBLOCK \<and> (err = EPIPE \<or> err = ECONNRESET), w1)
      else (0, False, w))"

definition queue_output :: "nat \<Rightarrow> bytes \<Rightarrow> 'u net \<Rightarrow> 'u net res" where
  "queue_output c data w =
     (let oldLen = readableBytes (outputBuffer (conns w c));
          remaining = length data;
          w1 = queue_if (oldLen + remaining \<ge> highWaterMark (conns w c) \<and>
                 oldLen < highWaterMark (conns w c) \<and> has_highWaterMark (conns w c))
               (F_highWaterMark c (oldLen + remaining)) w
      in bind_res (append_buf (outputBuffer (conns w1 c)) data) (\<lambda>b.
           let w2 = set_conn c ((conns w1 c)\<lparr>outputBuffer := b\<rparr>) w1
           in if \<not> isWriting (conn_chan c w2) then enableWriting (c_channel (conns w2 c)) w2 else Inr w2))"

definition sendInLoop :: "nat \<Rightarrow> bytes \<Rightarrow> 'u net \<Rightarrow> 'u net res" where
  "sendInLoop c data w = assertInLoopThread w
     (if c_state (conns w c) = kDisconnected then Inr w
      else
        let len = length data;
            (nwrote, faultError, w1) = direct_write c data w;
            remaining = len - nwrote
        in assert_res (remaining \<le> len)
          (if \<not> faultError \<and> remaining > 0 then queue_output c (drop nwrote data) w1 else Inr w1))"

definition send_Buffer :: "nat \<Rightarrow> buffer \<Rightarrow> 'u net \<Rightarrow> (buffer \<times> 'u net) res" where
  "send_Buffer c buf w =
     (if c_state (conns w c) = kConnected then
        if isInLoopThread w then
          bind_res (sendInLoop c (take (readableBytes buf) (peek buf)) w) (\<lambda>w1. Inr (retrieveAll buf, w1))
        else bind_res (retrieveAllAsString buf) (\<lambda>(s, buf1). Inr (buf1, queueInLoop (F_sendInLoop c s) w))
      else Inr (buf, w))"

text \<open>\<open>send\<close> of a \<open>StringPiece\<close>; a negative length becomes a size no memory has.\<close>

definition send_piece :: "nat \<Rightarrow> string_piece \<Rightarrow> 'u net \<Rightarrow> 'u net res" where
  "send_piece c message w =
     (if c_state (conns w c) = kConnected then
        if sint (sp_length message) < 0 then Inl (if isInLoopThread w then Out_of_bounds else Length_error)
        else
          let data = take (nat (sint (sp_length message))) (sp_ptr message)
          in if isInLoopThread w then sendInLoop c data w else Inr (queueInLoop (F_sendInLoop c data) w)
      else Inr w)"

definition shutdownInLoop :: "nat \<Rightarrow> 'u net \<Rightarrow> 'u net res" where
  "shutdownInLoop c w = assertInLoopThread w
     (if \<not> isWriting (conn_chan c w) then Inr (shutdownWrite c w) else Inr w)"

definition shutdown :: "nat \<Rightarrow> 'u net \<Rightarrow> 'u net res" where
  "shutdown c w =
     (if c_state (conns w c) = kConnected then
        let w1 = setState c kDisconnecting w
        in if isInLoopThread w1 then shutdownInLoop c w1 else Inr (queueInLoop (F_shutdownInLoop c) w1)
      else Inr w)"

definition forceClose :: "nat \<Rightarrow> 'u net \<Rightarrow> 'u net" where
  "forceClose c w =
     (if c_state (conns w c) = kConnected \<or> c_state (conns w c) = kDisconnecting
      then queueInLoop (F_forceCloseInLoop c) (setState c kDisconnecting w) else w)"

text \<open>The timer of \<open>forceCloseWithDelay\<close> holds a weak pointer: firing, it calls \<open>forceClose\<close> if the object is alive.\<close>

definition forceCloseWithDelay :: "nat \<Rightarrow> nat \<Rightarrow> 'u net \<Rightarrow> 'u net" where
  "forceCloseWithDelay c microseconds w =
     (if c_state (conns w c) = kConnected \<or> c_state (conns w c) = kDisconnecting
      then (setState c kDisconnecting w)\<lparr>delayed := delayed w @ [(microseconds, c)]\<rparr> else w)"

definition weak_forceClose :: "nat \<Rightarrow> 'u net \<Rightarrow> 'u net" where
  "weak_forceClose c w = (if alive w c then forceClose c w else w)"

section \<open>Reading on and off\<close>

definition startReadInLoop :: "nat \<Rightarrow> 'u net \<Rightarrow> 'u net res" where
  "startReadInLoop c w = assertInLoopThread w
     (if \<not> reading (conns w c) \<or> \<not> isReading (conn_chan c w) then
        bind_res (enableReading (c_channel (conns w c)) w)
          (\<lambda>w1. Inr (set_conn c ((conns w1 c)\<lparr>reading := True\<rparr>) w1))
      else Inr w)"

definition stopReadInLoop :: "nat \<Rightarrow> 'u net \<Rightarrow> 'u net res" where
  "stopReadInLoop c w = assertInLoopThread w
     (if reading (conns w c) \<or> isReading (conn_chan c w) then
        bind_res (disableReading (c_channel (conns w c)) w)
          (\<lambda>w1. Inr (set_conn c ((conns w1 c)\<lparr>reading := False\<rparr>) w1))
      else Inr w)"

definition startRead :: "nat \<Rightarrow> 'u net \<Rightarrow> 'u net res" where
  "startRead c w =
     (if isInLoopThread w then startReadInLoop c w else Inr (queueInLoop (F_startReadInLoop c) w))"

definition stopRead :: "nat \<Rightarrow> 'u net \<Rightarrow> 'u net res" where
  "stopRead c w =
     (if isInLoopThread w then stopReadInLoop c w else Inr (queueInLoop (F_stopReadInLoop c) w))"

section \<open>Establishing and closing\<close>

definition removeConnectionInLoop :: "nat \<Rightarrow> 'u net \<Rightarrow> 'u net res" where
  "removeConnectionInLoop c w = assertInLoopThread w
     (let name = c_name (conns w c)
      in assert_res (connections w name \<noteq> None)
           (Inr (queueInLoop (F_connectDestroyed c) (w\<lparr>connections := (connections w)(name := None)\<rparr>))))"

definition removeConnection :: "nat \<Rightarrow> 'u net \<Rightarrow> 'u net res" where
  "removeConnection c w =
     (if isInLoopThread w then removeConnectionInLoop c w
      else Inr (queueInLoop (F_removeConnectionInLoop c) w))"

definition connectEstablished :: "'u user_code \<Rightarrow> nat \<Rightarrow> 'u net \<Rightarrow> 'u net res" where
  "connectEstablished user c w = assertInLoopThread w
     (assert_res (c_state (conns w c) = kConnecting)
       (let w1 = ch_tie (c_channel (conns w c)) c (setState c kConnected w)
        in bind_res (enableReading (c_channel (conns w1 c)) w1) (\<lambda>w2. user (Connection_cb c) w2)))"

definition connectDestroyed :: "'u user_code \<Rightarrow> nat \<Rightarrow> 'u net \<Rightarrow> 'u net res" where
  "connectDestroyed user c w = assertInLoopThread w
     (bind_res
       (if c_state (conns w c) = kConnected then
          bind_res (disableAll (c_channel (conns w c)) (setState c kDisconnected w))
            (\<lambda>w1. user (Connection_cb c) w1)
        else Inr w)
       (\<lambda>w2. ch_remove (c_channel (conns w2 c)) w2))"

definition handleClose :: "'u user_code \<Rightarrow> nat \<Rightarrow> 'u net \<Rightarrow> 'u net res" where
  "handleClose user c w = assertInLoopThread w
     (assert_res (c_state (conns w c) = kConnected \<or> c_state (conns w c) = kDisconnecting)
       (bind_res (disableAll (c_channel (conns w c)) (setState c kDisconnected w)) (\<lambda>w1.
        bind_res (user (Connection_cb c) w1) (\<lambda>w2. removeConnection c w2))))"

definition forceCloseInLoop :: "'u user_code \<Rightarrow> nat \<Rightarrow> 'u net \<Rightarrow> 'u net res" where
  "forceCloseInLoop user c w = assertInLoopThread w
     (if c_state (conns w c) = kConnected \<or> c_state (conns w c) = kDisconnecting
      then handleClose user c w else Inr w)"

section \<open>The events of the channel\<close>

text \<open>A \<open>readv\<close> returns at most what its vectors hold.\<close>

definition sock_readv :: "'u net \<Rightarrow> nat list \<Rightarrow> nat + bytes" where
  "sock_readv w vec =
     (case k_readv w (k_reads w) of Inl err \<Rightarrow> Inl err | Inr data \<Rightarrow> Inr (take (sum_list vec) data))"

text \<open>\<open>handleError\<close> reads and logs the error of the socket.\<close>

definition conn_handleError :: "nat \<Rightarrow> 'u net \<Rightarrow> 'u net res" where
  "conn_handleError c w = Inr w"

definition conn_handleRead :: "'u user_code \<Rightarrow> nat \<Rightarrow> 'u net \<Rightarrow> 'u net res" where
  "conn_handleRead user c w = assertInLoopThread w
     (bind_res (readFd (sock_readv w) (inputBuffer (conns w c))) (\<lambda>(n, b).
        let w1 = (set_conn c ((conns w c)\<lparr>inputBuffer := b\<rparr>) w)\<lparr>k_reads := k_reads w + 1\<rparr>
        in case n of
             Inr m \<Rightarrow> if m > 0 then user (Message_cb c) w1 else handleClose user c w1
           | Inl savedErrno \<Rightarrow> conn_handleError c w1))"

definition conn_handleWrite :: "nat \<Rightarrow> 'u net \<Rightarrow> 'u net res" where
  "conn_handleWrite c w = assertInLoopThread w
     (if isWriting (conn_chan c w) then
        let b = outputBuffer (conns w c)
        in case sock_write c (take (readableBytes b) (peek b)) w of
             (Inr n, w1) \<Rightarrow>
               if n > 0 then
                 bind_res (retrieve (outputBuffer (conns w1 c)) n) (\<lambda>b1.
                   let w2 = set_conn c ((conns w1 c)\<lparr>outputBuffer := b1\<rparr>) w1
                   in if readableBytes b1 = 0 then
                        bind_res (disableWriting (c_channel (conns w2 c)) w2) (\<lambda>w3.
                          let w4 = queue_if (has_writeComplete (conns w3 c)) (F_writeComplete c) w3
                          in if c_state (conns w4 c) = kDisconnecting then shutdownInLoop c w4 else Inr w4)
                      else Inr w2)
               else Inr w1
           | (Inl err, w1) \<Rightarrow> Inr w1
      else Inr w)"

definition conn_event :: "'u user_code \<Rightarrow> nat \<Rightarrow> ch_callback \<Rightarrow> 'u net \<Rightarrow> 'u net res" where
  "conn_event user c k w =
     (case k of
        On_close \<Rightarrow> handleClose user c w
      | On_error \<Rightarrow> conn_handleError c w
      | On_read \<Rightarrow> conn_handleRead user c w
      | On_write \<Rightarrow> conn_handleWrite c w)"

section \<open>The acceptor and the server\<close>

definition EAGAIN :: nat where "EAGAIN = 11"
definition EMFILE :: nat where "EMFILE = 24"

definition accept_expected :: "nat \<Rightarrow> bool" where
  "accept_expected err \<longleftrightarrow> err \<in> {EAGAIN, 103, 4, 71, 1, EMFILE}"

text \<open>\<open>sockets::accept\<close>: an error outside the list of the expected ones is fatal.\<close>

definition sock_accept :: "'u net \<Rightarrow> ((nat + int) \<times> 'u net) res" where
  "sock_accept w =
     (case k_accept w (k_accepts w) of
        Inl err \<Rightarrow> if accept_expected err then Inr (Inl err, w\<lparr>k_accepts := k_accepts w + 1\<rparr>) else Inl Abort
      | Inr fd \<Rightarrow> Inr (Inr fd, w\<lparr>k_accepts := k_accepts w + 1\<rparr>))"

text \<open>\<open>snprintf\<close> with \<open>%d\<close> into a buffer of 64 characters.\<close>

definition conn_name :: "'u net \<Rightarrow> string" where
  "conn_name w =
     srv_name w @ take 63 (''-'' @ ipPort w @ ''#'' @ (if sint (nextConnId w) < 0 then ''-'' else []) @
       dec_string (nat \<bar>sint (nextConnId w)\<bar>))"

definition newConnection :: "'u user_code \<Rightarrow> int \<Rightarrow> 'u net \<Rightarrow> 'u net res" where
  "newConnection user sockfd w = assertInLoopThread w
     (let c = next_obj w; connName = conn_name w
      in connectEstablished user c
           (w\<lparr>nextConnId := nextConnId w + 1, next_obj := c + 1,
              chans := (chans w)(c := (new_Channel sockfd)
                \<lparr>has_read := True, has_write := True, has_close := True, has_error := True\<rparr>),
              conns := (conns w)(c := (new_TcpConnection connName c)\<lparr>has_writeComplete := srv_writeComplete w\<rparr>),
              alive := (alive w)(c := True),
              connections := (connections w)(connName \<mapsto> c)\<rparr>))"

definition acceptor_handleRead :: "'u user_code \<Rightarrow> 'u net \<Rightarrow> 'u net res" where
  "acceptor_handleRead user w = assertInLoopThread w
     (bind_res (sock_accept w) (\<lambda>(r, w1).
        case r of
          Inr connfd \<Rightarrow> newConnection user connfd w1
        | Inl err \<Rightarrow>
            if err = EMFILE then
              Inr (w1\<lparr>k_accepts := k_accepts w1 + 1, idleFd := k_open w1 (k_opens w1), k_opens := k_opens w1 + 1\<rparr>)
            else Inr w1))"

definition acceptor_listen :: "'u net \<Rightarrow> 'u net res" where
  "acceptor_listen w = assertInLoopThread w (enableReading (acceptChannel w) (w\<lparr>listenning := True\<rparr>))"

definition server_start :: "'u net \<Rightarrow> 'u net res" where
  "server_start w =
     (if \<not> started w then
        let w1 = w\<lparr>started := True\<rparr>
        in assert_res (\<not> listenning w1)
             (if isInLoopThread w1 then acceptor_listen w1 else Inr (queueInLoop F_listen w1))
      else Inr w)"

text \<open>The destructor of the server runs over its connections, here in the order of the list.\<close>

definition delete_TcpServer :: "'u user_code \<Rightarrow> (string \<times> nat) list \<Rightarrow> 'u net \<Rightarrow> 'u net res" where
  "delete_TcpServer user cs w = assertInLoopThread w
     (bind_res (run_all (\<lambda>w p. connectDestroyed user (snd p) w) w cs) (\<lambda>w1.
      bind_res (disableAll (acceptChannel w1) w1) (\<lambda>w2. ch_remove (acceptChannel w2) w2)))"

section \<open>Running functors and channels\<close>

text \<open>
  Some functors hold a plain pointer to the connection, not a shared one: they are run on freed memory when the
  object is gone.
\<close>

definition deref :: "nat \<Rightarrow> 'u net \<Rightarrow> 'a res \<Rightarrow> 'a res" where
  "deref c w m = (if alive w c then m else Inl Use_after_free)"

fun exec :: "'u user_code \<Rightarrow> bound_call \<Rightarrow> 'u net \<Rightarrow> 'u net res" where
  "exec user (F_sendInLoop c data) w = deref c w (sendInLoop c data w)"
| "exec user (F_shutdownInLoop c) w = deref c w (shutdownInLoop c w)"
| "exec user (F_forceCloseInLoop c) w = forceCloseInLoop user c w"
| "exec user (F_startReadInLoop c) w = deref c w (startReadInLoop c w)"
| "exec user (F_stopReadInLoop c) w = deref c w (stopReadInLoop c w)"
| "exec user (F_writeComplete c) w = user (WriteComplete_cb c) w"
| "exec user (F_highWaterMark c n) w = user (HighWaterMark_cb c n) w"
| "exec user (F_connectEstablished c) w = connectEstablished user c w"
| "exec user (F_connectDestroyed c) w = connectDestroyed user c w"
| "exec user (F_removeConnectionInLoop c) w = removeConnectionInLoop c w"
| "exec user F_listen w = acceptor_listen w"

text \<open>The callbacks of the channels of a server: the eventfd, the listening socket, the connections.\<close>

definition net_handler :: "'u user_code \<Rightarrow> nat \<Rightarrow> ch_callback \<Rightarrow> 'u net \<Rightarrow> 'u net res" where
  "net_handler user c k w =
     (if c = wakeupChannel w then Inr (loop_handleRead w)
      else if c = acceptChannel w then if k = On_read then acceptor_handleRead user w else Inr w
      else conn_event user c k w)"

section \<open>The invariant\<close>

text \<open>
  An open connection is registered for reading, and for writing exactly when bytes wait in its output
  buffer; it is in the table of its server. A closed one is off the interest list; it leaves the table, and a
  functor that removes its channel is outstanding until it has run. \<open>X\<close> are the connections in the
  middle of \<open>handleClose\<close>; \<open>fs\<close> are the functors not yet run; \<open>A\<close> is what the user keeps of the own data.
\<close>

definition conn_open :: "'u net \<Rightarrow> nat \<Rightarrow> bool" where
  "conn_open w c \<longleftrightarrow> c_state (conns w c) = kConnected \<or> c_state (conns w c) = kDisconnecting"

definition registered :: "'u net \<Rightarrow> nat \<Rightarrow> bool" where
  "registered w c \<longleftrightarrow> channels w (ch_fd (chans w c)) = Some c"

definition listed :: "'u net \<Rightarrow> nat \<Rightarrow> bool" where
  "listed w c \<longleftrightarrow> connections w (c_name (conns w c)) = Some c"

abbreviation unsent :: "'u net \<Rightarrow> nat \<Rightarrow> bytes" where
  "unsent w c \<equiv> content (outputBuffer (conns w c))"

definition conn_ok :: "nat set \<Rightarrow> bound_call list \<Rightarrow> 'u net \<Rightarrow> nat \<Rightarrow> bool" where
  "conn_ok X fs w c \<longleftrightarrow>
     c < next_obj w \<and> c \<noteq> wakeupChannel w \<and> c \<noteq> acceptChannel w \<and> c_channel (conns w c) = c \<and>
     buffer_inv (inputBuffer (conns w c)) \<and> buffer_inv (outputBuffer (conns w c)) \<and>
     (if conn_open w c then
        c \<notin> X \<and> registered w c \<and> listed w c \<and> count_list fs (F_connectDestroyed c) = 0 \<and>
        ch_index (chans w c) = kAdded \<and> isReading (chans w c) \<and>
        (isWriting (chans w c) \<longleftrightarrow> unsent w c \<noteq> []) \<and>
        (sock_shut (conns w c) \<longrightarrow> c_state (conns w c) = kDisconnecting \<and> unsent w c = [])
      else
        c_state (conns w c) = kDisconnected \<and> isNoneEvent (chans w c) \<and>
        (registered w c \<longrightarrow> ch_index (chans w c) = kDeleted) \<and>
        (if c \<in> X then registered w c \<and> listed w c \<and> count_list fs (F_connectDestroyed c) = 0
         else \<not> listed w c \<and>
           (registered w c \<and> count_list fs (F_connectDestroyed c) = 1 \<or>
            \<not> registered w c \<and> count_list fs (F_connectDestroyed c) = 0 \<and> \<not> addedToLoop (chans w c))))"

fun call_ok :: "'u net \<Rightarrow> bound_call \<Rightarrow> bool" where
  "call_ok w (F_sendInLoop c data) = alive w c"
| "call_ok w (F_shutdownInLoop c) = (alive w c \<and> c_state (conns w c) \<noteq> kConnected)"
| "call_ok w (F_forceCloseInLoop c) = alive w c"
| "call_ok w (F_writeComplete c) = alive w c"
| "call_ok w (F_highWaterMark c n) = alive w c"
| "call_ok w (F_connectDestroyed c) = alive w c"
| "call_ok w _ = False"

definition net_inv :: "('u \<Rightarrow> bool) \<Rightarrow> nat set \<Rightarrow> bound_call list \<Rightarrow> 'u net \<Rightarrow> bool" where
  "net_inv A X rs w \<longleftrightarrow>
     poller_ok w \<and> isInLoopThread w \<and> ep_refuses w = (\<lambda>_ _. False) \<and>
     registered w (wakeupChannel w) \<and> registered w (acceptChannel w) \<and>
     wakeupChannel w < next_obj w \<and> acceptChannel w < next_obj w \<and>
     (\<forall>c. alive w c \<longrightarrow> conn_ok X (rs @ pendingFunctors w) w c) \<and>
     (\<forall>fd c. channels w fd = Some c \<longrightarrow> c = wakeupChannel w \<or> c = acceptChannel w \<or> alive w c) \<and>
     (\<forall>f \<in> set (rs @ pendingFunctors w). call_ok w f) \<and> A (app_data w)"

lemma conn_ok_cong:
  assumes "conn_ok X fs w c" and "conns w' c = conns w c" and "chans w' c = chans w c"
    and "registered w' c = registered w c" and "listed w' c = listed w c"
    and "count_list fs' (F_connectDestroyed c) = count_list fs (F_connectDestroyed c)"
    and "c \<in> X' \<longleftrightarrow> c \<in> X" and "next_obj w \<le> next_obj w'"
    and "wakeupChannel w' = wakeupChannel w" and "acceptChannel w' = acceptChannel w"
  shows "conn_ok X' fs' w' c"
  using assms unfolding conn_ok_def conn_open_def by (simp split: if_splits)

lemma net_invD:
  assumes "net_inv A X rs w"
  shows "poller_ok w" "isInLoopThread w" "ep_refuses w = (\<lambda>_ _. False)"
    "registered w (wakeupChannel w)" "registered w (acceptChannel w)"
    "wakeupChannel w < next_obj w" "acceptChannel w < next_obj w"
    "alive w c \<Longrightarrow> conn_ok X (rs @ pendingFunctors w) w c"
    "channels w fd = Some c \<Longrightarrow> c = wakeupChannel w \<or> c = acceptChannel w \<or> alive w c"
    "f \<in> set (rs @ pendingFunctors w) \<Longrightarrow> call_ok w f" "A (app_data w)"
  using assms unfolding net_inv_def by blast+

lemma conn_okD:
  assumes "conn_ok X fs w c"
  shows "c < next_obj w" "c \<noteq> wakeupChannel w" "c \<noteq> acceptChannel w" "c_channel (conns w c) = c"
    "buffer_inv (inputBuffer (conns w c))" "buffer_inv (outputBuffer (conns w c))"
  using assms unfolding conn_ok_def by blast+

text \<open>
  The step of every operation: what a change to one connection, its channel and its entries in the
  tables has to keep.
\<close>

lemma net_inv_step:
  assumes inv: "net_inv A X rs w" and c: "alive w c"
    and others: "\<And>c'. c' \<noteq> c \<Longrightarrow> conns w' c' = conns w c' \<and> chans w' c' = chans w c'"
    and fields: "alive w' = alive w" "isInLoopThread w'" "ep_refuses w' = ep_refuses w"
      "wakeupChannel w' = wakeupChannel w" "acceptChannel w' = acceptChannel w" "next_obj w' = next_obj w"
      "app_data w' = app_data w"
    and fd: "ch_fd (chans w' c) = ch_fd (chans w c)"
    and chs: "\<And>fd. fd \<noteq> ch_fd (chans w c) \<Longrightarrow> channels w' fd = channels w fd"
    and reg: "channels w' (ch_fd (chans w c)) = channels w (ch_fd (chans w c)) \<or>
      registered w c \<and> channels w' (ch_fd (chans w c)) = None"
    and nms: "\<And>n. n \<noteq> c_name (conns w c) \<Longrightarrow> connections w' n = connections w n"
    and lst: "connections w' (c_name (conns w c)) = connections w (c_name (conns w c)) \<or>
      listed w c \<and> connections w' (c_name (conns w c)) = None"
    and pend: "pendingFunctors w' = pendingFunctors w @ fs"
    and calls: "\<And>f. f \<in> set fs \<Longrightarrow> call_ok w' f"
      "\<And>c'. c' \<noteq> c \<Longrightarrow> F_connectDestroyed c' \<notin> set fs"
    and state: "c_state (conns w c) \<noteq> kConnected \<Longrightarrow> c_state (conns w' c) \<noteq> kConnected"
    and X: "X' - {c} = X - {c}" and pok: "poller_ok w'"
    and rs: "set rs' \<subseteq> set rs"
      "\<And>c'. c' \<noteq> c \<Longrightarrow> count_list rs' (F_connectDestroyed c') = count_list rs (F_connectDestroyed c')"
    and cok: "conn_ok X' (rs' @ pendingFunctors w') w' c"
  shows "net_inv A X' rs' w'"
proof -
  note D = net_invD [OF inv]
  have cs: "c \<noteq> wakeupChannel w" "c \<noteq> acceptChannel w" using conn_okD [OF D(8) [OF c]] by auto
  have reg': "registered w' c' = registered w c'" if "c' \<noteq> c" for c'
    using that others [OF that] chs [of "ch_fd (chans w c')"] reg
    by (cases "ch_fd (chans w c') = ch_fd (chans w c)") (auto simp: registered_def)
  have lst': "listed w' c' = listed w c'" if "c' \<noteq> c" for c'
    using that others [OF that] nms [of "c_name (conns w c')"] lst
    by (cases "c_name (conns w c') = c_name (conns w c)") (auto simp: listed_def)
  have "conn_ok X' (rs' @ pendingFunctors w') w' c'" if "alive w c'" for c'
  proof (cases "c' = c")
    case True
    with cok show ?thesis by simp
  next
    case False
    have "count_list fs (F_connectDestroyed c') = 0" using calls(2) [OF False] by (simp add: count_list_0_iff)
    then show ?thesis
      using False others [OF False] reg' [OF False] lst' [OF False] X fields pend D(8) [OF that] rs(2) [OF False]
      by (intro conn_ok_cong [of X "rs @ pendingFunctors w" w c' w']) auto
  qed
  moreover have "call_ok w' f" if "f \<in> set (rs @ pendingFunctors w)" for f
    using D(10) [OF that] fields(1) others state by (cases f) (auto, metis)
  moreover have "c' = wakeupChannel w \<or> c' = acceptChannel w \<or> alive w c'" if "channels w' fd' = Some c'" for fd' c'
    using that D(9) [of fd' c'] chs [of fd'] reg by (cases "fd' = ch_fd (chans w c)") auto
  moreover have "registered w' (wakeupChannel w)" "registered w' (acceptChannel w)"
    using D(4,5) reg' cs by auto
  ultimately show ?thesis
    using D(3,6,7,11) fields pok pend calls(1) rs(1) unfolding net_inv_def by auto
qed

section \<open>The queue and the connections\<close>

lemma q_ext_set_conn [simp]: "q_ext w (set_conn c cn w)" for w :: "'u net"
  by (rule q_ext_same) (simp_all add: set_conn_def)

lemma q_ext_setState [simp]: "q_ext w (setState c s w)" for w :: "'u net"
  by (simp add: setState_def)

lemma q_ext_queue_if [simp]: "q_ext w (queue_if p f w)" for w :: "'u net"
  by (simp add: queue_if_def)

lemma q_ext_sock_write: "sock_write c data w = (r, w1) \<Longrightarrow> q_ext w w1" for w :: "'u net"
  by (auto simp: sock_write_def Let_def set_conn_def split: if_splits sum.splits intro!: q_ext_same)

lemma q_ext_direct_write: "direct_write c data w = (n, e, w1) \<Longrightarrow> q_ext w w1" for w :: "'u net"
  by (auto simp: direct_write_def dest!: q_ext_sock_write split: if_splits prod.splits sum.splits
      intro: q_ext_trans)

lemma q_res_sendInLoop: "q_res w (sendInLoop c data w)" for w :: "'u net"
proof -
  have "q_res w (queue_output c d w)" for d and w :: "'u net"
    unfolding queue_output_def Let_def
    by (intro q_res_bind_any q_res_if q_res_via [OF q_ext_queue_if q_res_via [OF q_ext_set_conn q_res_channel_ops(3)]])
      (auto intro: q_ext_trans [OF q_ext_queue_if q_ext_set_conn])
  then show ?thesis
    unfolding sendInLoop_def
    by (auto simp: Let_def assertInLoopThread_def split: prod.splits
        intro!: q_res_assert intro: q_ext_direct_write q_res_via [OF q_ext_direct_write])
qed

lemma q_res_shutdownInLoop: "q_res w (shutdownInLoop c w)" for w :: "'u net"
  by (auto simp: shutdownInLoop_def shutdownWrite_def intro!: q_intros)

lemma q_res_shutdown: "q_res w (shutdown c w)" for w :: "'u net"
  by (auto simp: shutdown_def Let_def intro: q_res_via [OF q_ext_setState q_res_shutdownInLoop]
      q_ext_trans [OF q_ext_setState q_ext_queueInLoop])

lemma q_ext_forceClose: "q_ext w (forceClose c w)" for w :: "'u net"
  by (auto simp: forceClose_def intro: q_ext_trans [OF q_ext_setState q_ext_queueInLoop])

lemma q_res_reading: "q_res w (startReadInLoop c w)" "q_res w (stopReadInLoop c w)" for w :: "'u net"
  by (auto simp: startReadInLoop_def stopReadInLoop_def intro!: q_intros q_res_channel_ops)

lemma q_res_removeConnection: "q_res w (removeConnection c w)" "q_res w (removeConnectionInLoop c w)"
  for w :: "'u net"
proof -
  have "q_ext w (w\<lparr>connections := m\<rparr>)" for m by (rule q_ext_same) simp_all
  then show r: "q_res w (removeConnectionInLoop c w)"
    by (simp add: removeConnectionInLoop_def Let_def q_intros q_ext_trans [OF _ q_ext_queueInLoop])
  then show "q_res w (removeConnection c w)" by (simp add: removeConnection_def)
qed

text \<open>
  What the connections ask of the code of their user: it reaches the queue only through the operations of
  the library. Then so do the functors and the events of the channels, and the loop may run them.
\<close>

locale net_user =
  fixes user :: "'u user_code"
  assumes user_queues: "q_res w (user k w)"
begin

lemma q_res_connectEstablished: "q_res w (connectEstablished user c w)"
  unfolding connectEstablished_def ch_tie_def Let_def
  by (intro q_intros q_res_via [OF q_ext_setState q_res_via [OF q_ext_set_chan q_res_channel_ops(1)]] user_queues)

lemma q_res_connectDestroyed: "q_res w (connectDestroyed user c w)"
  unfolding connectDestroyed_def
  by (intro q_intros q_res_via [OF q_ext_setState q_res_channel_ops(5)] user_queues q_res_ch_remove) simp

lemma q_res_handleClose: "q_res w (handleClose user c w)"
  unfolding handleClose_def
  by (intro q_intros q_res_via [OF q_ext_setState q_res_channel_ops(5)] user_queues q_res_removeConnection)

lemma q_res_acceptor_listen: "q_res w (acceptor_listen w)" for w :: "'u net"
  unfolding acceptor_listen_def
  by (rule q_res_inLoop, rule q_res_via [OF _ q_res_channel_ops(1)]) (rule q_ext_same; simp)

lemma q_res_exec: "q_res w (exec user f w)"
proof (cases f)
  case (F_forceCloseInLoop c)
  then show ?thesis
    by (auto simp: forceCloseInLoop_def intro!: q_intros q_res_handleClose)
qed (simp_all add: deref_def q_res_sendInLoop q_res_shutdownInLoop q_res_reading user_queues
    q_res_connectEstablished q_res_connectDestroyed q_res_removeConnection q_res_acceptor_listen)

lemma q_res_handleRead: "q_res w (conn_handleRead user c w)"
proof -
  have q: "q_ext w ((set_conn c cn w)\<lparr>k_reads := n\<rparr>)" for cn n by (rule q_ext_same) (simp_all add: set_conn_def)
  then show ?thesis
    unfolding conn_handleRead_def Let_def conn_handleError_def
    by (auto intro!: q_res_inLoop q_res_bind_any split: sum.splits
        intro: q_res_via [OF q user_queues] q_res_via [OF q q_res_handleClose])
qed

lemma q_res_handleWrite: "q_res w (conn_handleWrite c w)" for w :: "'u net"
proof -
  have last: "q_res w (let w4 = queue_if p f w in if q w4 then shutdownInLoop c w4 else Inr w4)"
    for w :: "'u net" and p f q
    by (auto simp: Let_def intro: q_res_via [OF q_ext_queue_if q_res_shutdownInLoop])
  have "q_res w1 (bind_res m (\<lambda>b1. let w2 = set_conn c (cn b1) w1
      in if r b1 = (0 :: nat) then bind_res (disableWriting (c_channel (conns w2 c)) w2)
           (\<lambda>w3. let w4 = queue_if (p w3) f w3 in if q w4 then shutdownInLoop c w4 else Inr w4)
         else Inr w2))" for w1 :: "'u net" and m :: "buffer res" and cn r p f q
    unfolding Let_def [of "set_conn _ _ _"]
    by (intro q_res_bind_any q_res_if q_res_via [OF q_ext_set_conn q_res_bind [OF q_res_channel_ops(4) last]]) simp
  then show ?thesis
    unfolding conn_handleWrite_def Let_def [of "outputBuffer _"]
    by (auto intro!: q_res_inLoop split: sum.splits prod.splits intro: q_ext_sock_write q_res_via [OF q_ext_sock_write])
qed

lemma q_res_conn_event: "q_res w (conn_event user c k w)"
  by (cases k) (simp_all add: conn_event_def q_res_handleClose q_res_handleRead q_res_handleWrite conn_handleError_def)

lemma q_res_newConnection: "q_res w (newConnection user fd w)"
  unfolding newConnection_def Let_def
  by (rule q_res_inLoop, rule q_res_via [OF _ q_res_connectEstablished]) (rule q_ext_same; simp)

lemma q_res_acceptor: "q_res w (acceptor_handleRead user w)"
proof -
  have "sock_accept w = Inr (r, w1) \<Longrightarrow> q_ext w w1" for r w1
    by (auto simp: sock_accept_def split: sum.splits if_splits intro!: q_ext_same)
  moreover have "q_ext w1 (w1\<lparr>k_accepts := a, idleFd := b, k_opens := d\<rparr>)" for w1 :: "'u net" and a b d
    by (rule q_ext_same) simp_all
  ultimately have "q_res w (case p of (r, w1) \<Rightarrow> case r of Inr fd \<Rightarrow> newConnection user fd w1
      | Inl err \<Rightarrow> if err = EMFILE then Inr (w1\<lparr>k_accepts := k_accepts w1 + 1,
          idleFd := k_open w1 (k_opens w1), k_opens := k_opens w1 + 1\<rparr>) else Inr w1)"
    if "sock_accept w = Inr p" for p
    using that by (cases p; cases "fst p") (auto intro: q_res_via [OF _ q_res_newConnection] q_ext_trans)
  then show ?thesis
    unfolding acceptor_handleRead_def
    by (intro q_res_inLoop) (cases "sock_accept w"; simp)
qed

lemma net_handler_appends: "net_handler user c k w = Inr w' \<Longrightarrow> prefix (pendingFunctors w) (pendingFunctors w')"
  using q_res_conn_event [of w c k] q_res_acceptor [of w]
  by (auto simp: net_handler_def loop_handleRead_def q_res_def q_ext_def split: if_splits)

end

sublocale net_user \<subseteq> loop_client "exec user" "net_handler user"
  using q_res_exec by unfold_locales (auto simp: q_res_def q_ext_def intro: net_handler_appends)

section \<open>Closing and the switch of reading\<close>

text \<open>
  Disabling a channel that has no events (the peer closes after \<open>stopRead\<close>) registers it again with an empty set of events: the
  kernel goes on to report a hang-up for it, and the second \<open>handleClose\<close> fails its assertion.
\<close>

lemma disableAll_twice_watches:
  assumes "poller_ok w" "chan_ok w c" "isInLoopThread w" "ch_index (chans w c) = kDeleted"
  shows "\<exists>w'. disableAll c w = Inr w' \<and> ep_interest w' (ch_fd (chans w c)) = Some (kNoneEvent, c)"
  using channel_ops(5) [OF assms(1-3)] assms(4) by (simp add: watched_def Let_def index_defs)

lemma second_handleClose_fails:
  "isInLoopThread w \<Longrightarrow> c_state (conns w c) = kDisconnected \<Longrightarrow> handleClose user c w = Inl Assert_fail"
  by (simp add: handleClose_def assertInLoopThread_def)

text \<open>\<open>startRead\<close> between the closing of a connection and \<open>connectDestroyed\<close> makes the latter fail.\<close>

lemma startRead_after_close_fails:
  assumes "poller_ok w" "chan_ok w (c_channel (conns w c))" "isInLoopThread w"
    and "c_state (conns w c) = kDisconnected" "isNoneEvent (conn_chan c w)"
  shows "\<exists>w'. startReadInLoop c w = Inr w' \<and> connectDestroyed user c w' = Inl Assert_fail"
proof -
  have "\<not> isReading (conn_chan c w)" using assms(5) by (simp add: isReading_def isNoneEvent_def kNoneEvent_def)
  then show ?thesis
    using channel_ops(1) [OF assms(1-3)] assms(3-5)
    by (simp add: startReadInLoop_def assertInLoopThread_def isInLoopThread_def connectDestroyed_def watched_def Let_def
        set_conn_def ch_remove_def isNoneEvent_def ev_defs)
qed

end
