(* ===== verification/Mu_Safe.thy ===== *)
theory Mu_Safe
  imports Mu_Conn
begin

text \<open>
  The connections keep the invariant of theory \<open>Mu_Conn\<close>: no assertion of the reactor fails and the
  bytes of a connection reach its socket in order.
\<close>

section \<open>Frames\<close>

text \<open>
  \<open>touched c fs w w1\<close>: of what the invariant reads, only connection \<open>c\<close> and the queue changed.
  \<open>keeps S w w'\<close>: what an operation leaves alone for the rest of the turn; only the connections in \<open>S\<close> may have closed.
\<close>

definition keeps :: "nat set \<Rightarrow> 'u net \<Rightarrow> 'u net \<Rightarrow> bool" where
  "keeps S w w' \<longleftrightarrow>
     alive w' = alive w \<and> wakeupChannel w' = wakeupChannel w \<and> acceptChannel w' = acceptChannel w \<and>
     next_obj w' = next_obj w \<and> k_write w' = k_write w \<and> k_accept w' = k_accept w \<and> k_accepts w' = k_accepts w \<and>
     srv_name w' = srv_name w \<and> ipPort w' = ipPort w \<and> nextConnId w' = nextConnId w \<and>
     eventHandling w' = eventHandling w \<and>
     (\<forall>c. ch_revents (chans w' c) = ch_revents (chans w c)) \<and>
     (\<forall>fd. channels w fd = None \<longrightarrow> channels w' fd = None) \<and>
     (\<forall>n. connections w n = None \<longrightarrow> connections w' n = None) \<and>
     (\<forall>c. alive w c \<longrightarrow> c \<notin> S \<longrightarrow> conn_open w c \<longrightarrow> conn_open w' c)"

definition touched :: "nat \<Rightarrow> bound_call list \<Rightarrow> 'u net \<Rightarrow> 'u net \<Rightarrow> bool" where
  "touched c fs w w1 \<longleftrightarrow>
     (\<forall>c'. c' \<noteq> c \<longrightarrow> conns w1 c' = conns w c') \<and> c_name (conns w1 c) = c_name (conns w c) \<and>
     c_channel (conns w1 c) = c_channel (conns w c) \<and>
     chans w1 = chans w \<and> alive w1 = alive w \<and> channels w1 = channels w \<and> ep_interest w1 = ep_interest w \<and>
     ep_refuses w1 = ep_refuses w \<and> threadId w1 = threadId w \<and> this_tid w1 = this_tid w \<and>
     wakeupChannel w1 = wakeupChannel w \<and> acceptChannel w1 = acceptChannel w \<and> next_obj w1 = next_obj w \<and>
     k_write w1 = k_write w \<and> k_accept w1 = k_accept w \<and> k_accepts w1 = k_accepts w \<and>
     srv_name w1 = srv_name w \<and> ipPort w1 = ipPort w \<and> nextConnId w1 = nextConnId w \<and>
     eventHandling w1 = eventHandling w \<and> connections w1 = connections w \<and>
     app_data w1 = app_data w \<and> pendingFunctors w1 = pendingFunctors w @ fs"

lemma keeps_refl [simp]: "keeps S w w"
  by (simp add: keeps_def)

lemma keeps_trans [trans]: "keeps S w w1 \<Longrightarrow> keeps S w1 w2 \<Longrightarrow> keeps S w w2"
  by (simp add: keeps_def)

lemma keeps_mono: "keeps S w w' \<Longrightarrow> S \<subseteq> T \<Longrightarrow> keeps T w w'"
  unfolding keeps_def by blast

lemma touched_refl [simp]: "touched c [] w w"
  by (simp add: touched_def)

lemma touched_trans: "touched c fs w w1 \<Longrightarrow> touched c gs w1 w2 \<Longrightarrow> touched c (fs @ gs) w w2"
  by (simp add: touched_def)

lemma touched_set_conn:
  "c_name cn = c_name (conns w c) \<Longrightarrow> c_channel cn = c_channel (conns w c) \<Longrightarrow> touched c [] w (set_conn c cn w)"
  by (simp add: touched_def set_conn_def)

lemma touched_queueInLoop: "touched c [f] w (queueInLoop f w)"
  by (simp add: touched_def queueInLoop_def Let_def queue_push_def wakeup_def)

lemma touched_queue_if: "touched c (if p then [f] else []) w (queue_if p f w)"
  by (simp add: queue_if_def touched_queueInLoop)

lemma conns_queue [simp]: "conns (queueInLoop f w) = conns w" "conns (queue_if p f w) = conns w"
  "chans (queueInLoop f w) = chans w" "chans (queue_if p f w) = chans w"
  by (simp_all add: queue_if_def queueInLoop_def Let_def queue_push_def wakeup_def)

lemma touched_keeps:
  assumes "touched c fs w w1" and "c \<in> S \<or> (conn_open w c \<longrightarrow> conn_open w1 c)"
  shows "keeps S w w1"
proof -
  have "conn_open w1 c'" if "c' \<noteq> c" "conn_open w c'" for c'
    using assms(1) that unfolding touched_def conn_open_def by metis
  with assms show ?thesis unfolding keeps_def touched_def by metis
qed

lemma touched_inv:
  assumes inv: "net_inv A X rs w" and "alive w c" and t: "touched c fs w w1"
    and "\<And>f. f \<in> set fs \<Longrightarrow> call_ok w1 f" "\<And>c'. c' \<noteq> c \<Longrightarrow> F_connectDestroyed c' \<notin> set fs"
    and "c_state (conns w c) \<noteq> kConnected \<Longrightarrow> c_state (conns w1 c) \<noteq> kConnected"
    and "X' - {c} = X - {c}" and "conn_ok X' (rs @ pendingFunctors w1) w1 c"
  shows "net_inv A X' rs w1"
proof -
  have "poller_ok w1" using net_invD(1) [OF inv] t poller_ok_cong [of w1 w] by (simp add: touched_def)
  moreover have "isInLoopThread w1" using net_invD(2) [OF inv] t by (simp add: isInLoopThread_def touched_def)
  ultimately show ?thesis
    using assms(3-8) by (intro net_inv_step [OF inv assms(2), where rs' = rs]) (auto simp: touched_def)
qed

lemma touched_watched_inv:
  assumes inv: "net_inv A X rs w" and "alive w c" and t: "touched c fs w w1" and "registered w c"
    and "\<And>f. f \<in> set fs \<Longrightarrow> call_ok w1 f" "\<And>c'. c' \<noteq> c \<Longrightarrow> F_connectDestroyed c' \<notin> set fs"
    and "c_state (conns w c) \<noteq> kConnected \<Longrightarrow> c_state (conns w1 c) \<noteq> kConnected"
    and "X' - {c} = X - {c}" and "conn_ok X' (rs @ pendingFunctors w1) (watched c e w1) c"
  shows "net_inv A X' rs (watched c e w1)" and "ch_update c (set_chan c ((chans w1 c)\<lparr>ch_events := e\<rparr>) w1) = Inr (watched c e w1)"
proof -
  have p: "poller_ok w1" using net_invD(1) [OF inv] t poller_ok_cong [of w1 w] by (simp add: touched_def)
  have l: "isInLoopThread w1" using net_invD(2) [OF inv] t by (simp add: isInLoopThread_def touched_def)
  have k: "chan_ok w1 c" using net_invD(3) [OF inv] assms(4) t
    by (simp add: chan_ok_def registered_def touched_def)
  have call: "call_ok (watched c e w1) f = call_ok w1 f" for f
    by (cases f) (simp_all add: watched_def Let_def)
  show "net_inv A X' rs (watched c e w1)"
    using t assms(4-9) watched_ok(1) [OF p k, of e] l call
    by (intro net_inv_step [OF inv assms(2), where rs' = rs])
      (auto simp: touched_def watched_def Let_def registered_def isInLoopThread_def)
  show "ch_update c (set_chan c ((chans w1 c)\<lparr>ch_events := e\<rparr>) w1) = Inr (watched c e w1)"
    by (rule ch_update_watched [OF p k l])
qed

lemma watched_keeps:
  assumes "keeps S w w1" and "channels w1 (ch_fd (chans w1 c)) \<noteq> None"
  shows "keeps S w (watched c e w1)"
proof -
  have "keeps S w1 (watched c e w1)"
    using assms(2) by (auto simp: keeps_def watched_def Let_def conn_open_def)
  with assms(1) show ?thesis by (rule keeps_trans)
qed

section \<open>Open connections\<close>

lemma conn_ok_open:
  assumes "conn_ok X fs w c" and "conn_open w c"
  shows "c \<notin> X" "registered w c" "listed w c" "count_list fs (F_connectDestroyed c) = 0"
    "ch_index (chans w c) = kAdded" "isReading (chans w c)" "isWriting (chans w c) \<longleftrightarrow> unsent w c \<noteq> []"
    "sock_shut (conns w c) \<Longrightarrow> c_state (conns w c) = kDisconnecting \<and> unsent w c = []"
  using assms unfolding conn_ok_def by (simp_all split: if_splits)

lemma touched_open_ok:
  assumes ok: "conn_ok X (rs @ pendingFunctors w) w c" and op: "conn_open w c" and t: "touched c fs w w1"
    and cd: "F_connectDestroyed c \<notin> set fs" and "conn_open w1 c"
    and "buffer_inv (inputBuffer (conns w1 c))" "buffer_inv (outputBuffer (conns w1 c))"
    and "sock_shut (conns w1 c) \<Longrightarrow> c_state (conns w1 c) = kDisconnecting \<and> unsent w1 c = []"
  shows "(isWriting (chans w c) \<longleftrightarrow> unsent w1 c \<noteq> []) \<Longrightarrow> conn_ok X (rs @ pendingFunctors w1) w1 c"
    and "e AND kReadEvent \<noteq> 0 \<Longrightarrow> (e AND kWriteEvent \<noteq> 0 \<longleftrightarrow> unsent w1 c \<noteq> []) \<Longrightarrow>
      conn_ok X (rs @ pendingFunctors w1) (watched c e w1) c"
proof -
  note d = conn_okD [OF ok] and o = conn_ok_open [OF ok op]
  have fs: "count_list fs (F_connectDestroyed c) = 0" using cd by (simp add: count_list_0_iff)
  show "conn_ok X (rs @ pendingFunctors w1) w1 c" if "isWriting (chans w c) \<longleftrightarrow> unsent w1 c \<noteq> []"
    using that d o fs assms(3,5-8) unfolding conn_ok_def
    by (simp add: touched_def registered_def listed_def)
  show "conn_ok X (rs @ pendingFunctors w1) (watched c e w1) c"
    if e: "e AND kReadEvent \<noteq> 0" "e AND kWriteEvent \<noteq> 0 \<longleftrightarrow> unsent w1 c \<noteq> []"
  proof -
    have ne: "e \<noteq> kNoneEvent" using e(1) by (auto simp: kNoneEvent_def)
    have op': "conn_open (watched c e w1) c" using assms(5) by (simp add: conn_open_def watched_def Let_def)
    show ?thesis
      using e ne op' d o fs assms(3,6-8) unfolding conn_ok_def
      by (simp add: touched_def registered_def listed_def watched_def Let_def isReading_def isWriting_def)
  qed
qed

section \<open>Sending\<close>

text \<open>
  What the socket took and what waits in the buffer, together: the stream of a connection. \<open>sends\<close> extends it by
  the data, unless the peer is gone.
\<close>

definition stream :: "'u net \<Rightarrow> nat \<Rightarrow> bytes" where
  "stream w c = sock_out (conns w c) @ unsent w c"

definition peer_gone :: "'u net \<Rightarrow> nat \<Rightarrow> bool" where
  "peer_gone w c \<longleftrightarrow> sock_shut (conns w c) \<or> k_write w (k_writes w) = Inl EPIPE \<or> k_write w (k_writes w) = Inl ECONNRESET"

definition sends :: "nat \<Rightarrow> bytes \<Rightarrow> 'u net \<Rightarrow> 'u net \<Rightarrow> bool" where
  "sends c data w w' \<longleftrightarrow>
     c_state (conns w' c) = c_state (conns w c) \<and> inputBuffer (conns w' c) = inputBuffer (conns w c) \<and>
     sock_shut (conns w' c) = sock_shut (conns w c) \<and>
     (stream w' c = stream w c @ data \<or> peer_gone w c \<and> stream w' c = stream w c)"

lemma sock_write_spec:
  assumes "sock_write c data w = (r, w1)"
  shows "touched c [] w w1" and "\<exists>n \<le> length data. conns w1 c = (conns w c)\<lparr>sock_out := sock_out (conns w c) @ take n data\<rparr> \<and>
      (case r of Inr m \<Rightarrow> m = n \<and> \<not> sock_shut (conns w c)
       | Inl err \<Rightarrow> n = 0 \<and> (if sock_shut (conns w c) then err = EPIPE else k_write w (k_writes w) = Inl err))"
proof -
  show "touched c [] w w1"
    using assms by (auto simp: sock_write_def Let_def touched_def set_conn_def split: if_splits sum.splits)
  show "\<exists>n \<le> length data. conns w1 c = (conns w c)\<lparr>sock_out := sock_out (conns w c) @ take n data\<rparr> \<and>
      (case r of Inr m \<Rightarrow> m = n \<and> \<not> sock_shut (conns w c)
       | Inl err \<Rightarrow> n = 0 \<and> (if sock_shut (conns w c) then err = EPIPE else k_write w (k_writes w) = Inl err))"
    using assms
    by (auto simp: sock_write_def Let_def set_conn_def split: if_splits sum.splits
        intro: exI [of _ 0] exI [of _ "min _ (length data)"])
qed

lemma direct_write_spec:
  assumes inv: "net_inv A X rs w" and c: "alive w c" and op: "conn_open w c"
    and dw: "direct_write c data w = (n, faultError, w1)"
  shows "net_inv A X rs w1" and "keeps {} w w1" and "conn_open w1 c" and "n \<le> length data"
    and "conns w1 c = (conns w c)\<lparr>sock_out := sock_out (conns w c) @ take n data\<rparr>"
    and "n \<noteq> 0 \<Longrightarrow> unsent w c = []"
    and "faultError \<Longrightarrow> n = 0 \<and> peer_gone w c"
    and "sock_shut (conns w c) \<Longrightarrow> faultError"
proof -
  note ok = net_invD(8) [OF inv c]
  note cc = conn_okD(4,5,6) [OF ok] and o = conn_ok_open [OF ok op]
  have rd: "readableBytes (outputBuffer (conns w c)) = 0 \<longleftrightarrow> unsent w c = []"
    using length_content [OF cc(3)] by auto
  define try_it where "try_it \<longleftrightarrow> \<not> isWriting (chans w c) \<and> unsent w c = []"
  have skip: "\<not> try_it \<Longrightarrow> n = 0 \<and> \<not> faultError \<and> w1 = w \<and> \<not> sock_shut (conns w c)"
    using dw o(7,8) by (auto simp: direct_write_def try_it_def cc rd)
  have tr: "\<exists>fs. touched c fs w w1 \<and> set fs \<subseteq> {F_writeComplete c}
      \<and> conns w1 c = (conns w c)\<lparr>sock_out := sock_out (conns w c) @ take n data\<rparr>
      \<and> n \<le> length data \<and> (faultError \<longrightarrow> n = 0 \<and> peer_gone w c) \<and> (sock_shut (conns w c) \<longrightarrow> faultError)"
    if t: "try_it"
  proof -
    obtain r w2 where sw: "sock_write c data w = (r, w2)" by fastforce
    from sock_write_spec [OF sw] obtain m where m: "touched c [] w w2" "m \<le> length data"
      "conns w2 c = (conns w c)\<lparr>sock_out := sock_out (conns w c) @ take m data\<rparr>"
      "case r of Inr m' \<Rightarrow> m' = m \<and> \<not> sock_shut (conns w c)
       | Inl err \<Rightarrow> m = 0 \<and> (if sock_shut (conns w c) then err = EPIPE else k_write w (k_writes w) = Inl err)" by blast
    show ?thesis
    proof (cases r)
      case (Inr m')
      define p where "p \<longleftrightarrow> length data - n = 0 \<and> has_writeComplete (conns w2 c)"
      have *: "n = m" "\<not> faultError" "w1 = queue_if p (F_writeComplete c) w2" "\<not> sock_shut (conns w c)"
        using dw t m(4) unfolding direct_write_def Inr sw p_def
        by (auto simp: try_it_def cc rd sw Inr)
      have "touched c ([] @ (if p then [F_writeComplete c] else [])) w w1"
        unfolding *(3) by (rule touched_trans [OF m(1) touched_queue_if])
      with * m(2,3) show ?thesis by (intro exI [of _ "if p then [F_writeComplete c] else []"]) auto
    next
      case (Inl err)
      have *: "n = 0" "faultError \<longleftrightarrow> err \<noteq> EWOULDBLOCK \<and> (err = EPIPE \<or> err = ECONNRESET)" "w1 = w2"
        using dw t by (auto simp: direct_write_def try_it_def cc rd sw Inl)
      have e: "EPIPE \<noteq> EWOULDBLOCK" by (simp add: EPIPE_def EWOULDBLOCK_def)
      from * m e Inl show ?thesis
        by (intro exI [of _ "[]"]) (auto simp: peer_gone_def split: if_splits)
    qed
  qed
  obtain fs where fs: "touched c fs w w1" "set fs \<subseteq> {F_writeComplete c}"
      "conns w1 c = (conns w c)\<lparr>sock_out := sock_out (conns w c) @ take n data\<rparr>"
      "n \<le> length data" "faultError \<Longrightarrow> n = 0 \<and> peer_gone w c" "sock_shut (conns w c) \<Longrightarrow> faultError"
  proof (cases try_it)
    case True
    with tr that show ?thesis by blast
  next
    case False
    with skip show ?thesis by (intro that [of "[]"]) auto
  qed
  show op1: "conn_open w1 c" using op fs(3) by (simp add: conn_open_def)
  show "conns w1 c = (conns w c)\<lparr>sock_out := sock_out (conns w c) @ take n data\<rparr>" by (rule fs(3))
  show "n \<le> length data" by (rule fs(4))
  show "n \<noteq> 0 \<Longrightarrow> unsent w c = []" using skip by (auto simp: try_it_def)
  show "faultError \<Longrightarrow> n = 0 \<and> peer_gone w c" by (rule fs(5))
  show "sock_shut (conns w c) \<Longrightarrow> faultError" by (rule fs(6))
  show "keeps {} w w1" using touched_keeps [OF fs(1)] op1 by blast
  have al: "alive w1 = alive w" using fs(1) by (simp add: touched_def)
  have "conn_ok X (rs @ pendingFunctors w1) w1 c"
    using fs(2,3) o cc op1 by (intro touched_open_ok(1) [OF ok op fs(1)]) auto
  then show "net_inv A X rs w1"
    using fs(2,3) al c by (intro touched_inv [OF inv c fs(1)]) auto
qed


lemma event_bits:
  "(e OR kWriteEvent) AND kWriteEvent \<noteq> (0 :: 32 word)"
  "(e OR kWriteEvent) AND kReadEvent = e AND kReadEvent"
  "(e AND NOT kWriteEvent) AND kWriteEvent = (0 :: 32 word)"
  "(e AND NOT kWriteEvent) AND kReadEvent = e AND kReadEvent"
proof -
  have k: "kWriteEvent AND kReadEvent = (0 :: 32 word)" "kWriteEvent \<noteq> (0 :: 32 word)"
    by (simp_all add: ev_defs)
  show "(e OR kWriteEvent) AND kWriteEvent \<noteq> 0" using k(2) by (simp add: bit.conj_disj_distrib2)
  show "(e OR kWriteEvent) AND kReadEvent = e AND kReadEvent" using k(1) by (simp add: bit.conj_disj_distrib2)
  show "(e AND NOT kWriteEvent) AND kWriteEvent = 0" by (simp add: and.assoc)
  have "NOT kWriteEvent AND kReadEvent = kReadEvent" by (simp add: ev_defs)
  then show "(e AND NOT kWriteEvent) AND kReadEvent = e AND kReadEvent" by (simp add: and.assoc)
qed

lemma queue_output_spec:
  assumes inv: "net_inv A X rs w" and c: "alive w c" and op: "conn_open w c"
    and data: "data \<noteq> []" and shut: "\<not> sock_shut (conns w c)"
  shows "\<exists>w'. queue_output c data w = Inr w' \<and> net_inv A X rs w' \<and> keeps {} w w' \<and>
    (\<exists>b. conns w' c = (conns w c)\<lparr>outputBuffer := b\<rparr> \<and> content b = unsent w c @ data)"
proof -
  note ok = net_invD(8) [OF inv c]
  note cc = conn_okD(4,5,6) [OF ok] and o = conn_ok_open [OF ok op]
  define f where "f = F_highWaterMark c (readableBytes (outputBuffer (conns w c)) + length data)"
  define p where "p \<longleftrightarrow> readableBytes (outputBuffer (conns w c)) + length data \<ge> highWaterMark (conns w c) \<and>
      readableBytes (outputBuffer (conns w c)) < highWaterMark (conns w c) \<and> has_highWaterMark (conns w c)"
  define fs where "fs = (if p then [f] else [])"
  obtain b where b: "append_buf (outputBuffer (conns w c)) data = Inr b" "holds (unsent w c @ data) b"
    using holds_append_buf [OF holdsI [OF cc(3) refl], of data] by blast
  define w1 where "w1 = queue_if p f w"
  define w2 where "w2 = set_conn c ((conns w1 c)\<lparr>outputBuffer := b\<rparr>) w1"
  have cn: "conns w2 c = (conns w c)\<lparr>outputBuffer := b\<rparr>" by (simp add: w2_def w1_def set_conn_def)
  have "touched c (fs @ []) w w2"
    unfolding w2_def fs_def w1_def by (rule touched_trans [OF touched_queue_if touched_set_conn]) simp_all
  then have t: "touched c fs w w2" by simp
  have op2: "conn_open w2 c" using op cn by (simp add: conn_open_def)
  have out: "queue_output c data w = (if \<not> isWriting (chans w2 c) then enableWriting c w2 else Inr w2)"
    unfolding queue_output_def Let_def p_def [symmetric] f_def [symmetric] w1_def [symmetric]
    by (simp add: w1_def w2_def b(1) cc set_conn_def)
  have ch: "chans w2 = chans w" using t by (simp add: touched_def)
  have ne: "content b \<noteq> []" "buffer_inv b" using b(2) data by (auto simp: holds_def)
  have calls: "f' \<in> set fs \<Longrightarrow> call_ok w2 f'" for f'
    using c t by (auto simp: fs_def f_def touched_def split: if_splits)
  have nd: "F_connectDestroyed c' \<notin> set fs" for c' by (simp add: fs_def f_def)
  note ok2 = touched_open_ok [OF ok op t nd op2, unfolded cn, simplified, OF cc(2) ne(2)]
  have st: "c_state (conns w c) \<noteq> kConnected \<Longrightarrow> c_state (conns w2 c) \<noteq> kConnected" by (simp add: cn)
  have k: "keeps {} w w2" using touched_keeps [OF t] op2 by blast
  show ?thesis
  proof (cases "isWriting (chans w c)")
    case True
    have "net_inv A X rs w2"
      using ok2(1) ne True shut
      by (intro touched_inv [OF inv c t calls nd st]) simp_all
    with True k b(2) show ?thesis by (auto simp: out ch cn holds_def)
  next
    case False
    let ?e = "ch_events (chans w c) OR kWriteEvent"
    have "conn_ok X (rs @ pendingFunctors w2) (watched c ?e w2) c"
      using ok2(2) [of ?e] shut o(6) ne event_bits(1) [of "ch_events (chans w c)"]
      by (simp add: event_bits(2) isReading_def)
    from touched_watched_inv [OF inv c t o(2) calls nd st refl this]
    have "net_inv A X rs (watched c ?e w2)" "enableWriting c w2 = Inr (watched c ?e w2)"
      by (simp_all add: enableWriting_def ch)
    moreover have "keeps {} w (watched c ?e w2)"
      using watched_keeps [OF k] o(2) t by (simp add: registered_def touched_def)
    ultimately show ?thesis
      using False b(2) by (auto simp: out ch cn holds_def watched_def Let_def)
  qed
qed

lemma sendInLoop_ok:
  assumes inv: "net_inv A X rs w" and c: "alive w c"
  shows "\<exists>w'. sendInLoop c data w = Inr w' \<and> net_inv A X rs w' \<and> keeps {} w w' \<and> (conn_open w c \<longrightarrow> sends c data w w')"
proof (cases "conn_open w c")
  case False
  then have "c_state (conns w c) = kDisconnected"
    using net_invD(8) [OF inv c] by (auto simp: conn_ok_def)
  with False inv show ?thesis by (auto simp: sendInLoop_def assertInLoopThread_def net_invD(2))
next
  case True
  obtain n e w1 where dw: "direct_write c data w = (n, e, w1)" by (metis prod_cases3)
  note d = direct_write_spec [OF inv c True dw]
  have st: "stream w1 c = stream w c @ take n data"
    using d(6) by (cases "n = 0") (simp_all add: stream_def d(5))
  have eq: "sendInLoop c data w = (if \<not> e \<and> length data - n > 0 then queue_output c (drop n data) w1 else Inr w1)"
    using True dw inv by (auto simp: sendInLoop_def assertInLoopThread_def net_invD(2) conn_open_def)
  show ?thesis
  proof (cases "\<not> e \<and> length data - n > 0")
    case True
    have "alive w1 c" using c d(2) by (simp add: keeps_def)
    moreover have "\<not> sock_shut (conns w1 c)" using True d(5,8) by auto
    ultimately obtain w' b where w': "queue_output c (drop n data) w1 = Inr w'" "net_inv A X rs w'" "keeps {} w1 w'"
      "conns w' c = (conns w1 c)\<lparr>outputBuffer := b\<rparr>" "content b = unsent w1 c @ drop n data"
      using queue_output_spec [OF d(1) _ d(3), of "drop n data"] True by auto
    have "stream w' c = stream w1 c @ drop n data" by (simp add: stream_def w'(4,5))
    then have "stream w' c = stream w c @ data" by (simp add: st)
    then have "sends c data w w'" by (simp add: sends_def w'(4) d(5))
    with True eq w' keeps_trans [OF d(2) w'(3)] show ?thesis by auto
  next
    case False
    with st d(4,7) have "sends c data w w1" by (auto simp: sends_def d(5))
    with False eq d(1,2) show ?thesis by auto
  qed
qed

section \<open>Shutting down\<close>

lemma conn_ok_closed: "conn_ok X fs w c \<Longrightarrow> \<not> conn_open w c \<Longrightarrow> c_state (conns w c) = kDisconnected"
  by (simp add: conn_ok_def)

lemma touched_state_only:
  assumes inv: "net_inv A X rs w" and c: "alive w c" and t: "touched c fs w w1"
    and cn: "conns w1 c = (conns w c)\<lparr>c_state := s, sock_shut := b, tcp_nodelay := nd\<rparr>"
    and "conn_open w c \<Longrightarrow> s = kConnected \<or> s = kDisconnecting" and "\<not> conn_open w c \<Longrightarrow> s = kDisconnected"
    and "conn_open w c \<Longrightarrow> b \<Longrightarrow> s = kDisconnecting \<and> unsent w c = []"
    and "c_state (conns w c) \<noteq> kConnected \<Longrightarrow> s \<noteq> kConnected"
    and "\<And>f. f \<in> set fs \<Longrightarrow> call_ok w1 f" "\<And>c'. F_connectDestroyed c' \<notin> set fs"
  shows "net_inv A X rs w1" and "keeps {} w w1"
proof -
  note ok = net_invD(8) [OF inv c]
  have o: "conn_open w1 c \<longleftrightarrow> conn_open w c" using assms(5,6) by (auto simp: conn_open_def cn)
  show "keeps {} w w1" using touched_keeps [OF t] o by blast
  have "conn_ok X (rs @ pendingFunctors w1) w1 c"
  proof (cases "conn_open w c")
    case True
    then show ?thesis
      using assms(7,10) o conn_okD [OF ok] conn_ok_open [OF ok True]
      by (intro touched_open_ok(1) [OF ok True t]) (auto simp: cn)
  next
    case False
    have "count_list fs (F_connectDestroyed c) = 0" using assms(10) by (simp add: count_list_0_iff)
    with ok False t cn assms(6) o show ?thesis
      by (simp add: conn_ok_def registered_def listed_def touched_def cong: if_cong)
  qed
  then show "net_inv A X rs w1"
    using assms(8,9,10) cn by (intro touched_inv [OF inv c t]) auto
qed

lemma touched_setState: "touched c [] w (setState c s w)"
  by (simp add: setState_def touched_set_conn)

lemma conns_setState [simp]: "conns (setState c s w) c = (conns w c)\<lparr>c_state := s\<rparr>"
  "chans (setState c s w) = chans w" "isInLoopThread (setState c s w) = isInLoopThread w"
  by (simp_all add: setState_def set_conn_def isInLoopThread_def)

lemma shutdownInLoop_ok:
  assumes inv: "net_inv A X rs w" and c: "alive w c" and s: "c_state (conns w c) \<noteq> kConnected"
  shows "\<exists>w'. shutdownInLoop c w = Inr w' \<and> net_inv A X rs w' \<and> keeps {} w w' \<and>
    conns w' c = (conns w c)\<lparr>sock_shut := sock_shut (conns w c) \<or> \<not> isWriting (chans w c)\<rparr>"
proof (cases "isWriting (chans w c)")
  case True
  then show ?thesis
    using assms conn_okD(4) [OF net_invD(8) [OF inv c]]
    by (simp add: shutdownInLoop_def assertInLoopThread_def net_invD(2))
next
  case False
  note ok = net_invD(8) [OF inv c]
  let ?w = "shutdownWrite c w"
  have cn: "conns ?w c = (conns w c)\<lparr>c_state := c_state (conns w c), sock_shut := True,
      tcp_nodelay := tcp_nodelay (conns w c)\<rparr>" by (simp add: shutdownWrite_def set_conn_def)
  have t: "touched c [] w ?w" by (simp add: shutdownWrite_def touched_set_conn)
  have u: "conn_open w c \<Longrightarrow> unsent w c = []" using conn_ok_open(7) [OF ok] False by blast
  have "conn_open w c \<Longrightarrow> c_state (conns w c) = kDisconnecting" using s by (simp add: conn_open_def)
  then have "net_inv A X rs ?w" "keeps {} w ?w"
    using touched_state_only [OF inv c t cn] s u conn_ok_closed [OF ok] by simp_all
  with False cn show ?thesis
    using inv conn_okD(4) [OF ok] by (simp add: shutdownInLoop_def assertInLoopThread_def net_invD(2))
qed

lemma shutdown_ok:
  assumes inv: "net_inv A X rs w" and c: "alive w c"
  shows "\<exists>w'. shutdown c w = Inr w' \<and> net_inv A X rs w' \<and> keeps {} w w' \<and>
    conns w' c = (if c_state (conns w c) = kConnected
      then (conns w c)\<lparr>c_state := kDisconnecting, sock_shut := unsent w c = []\<rparr> else conns w c)"
proof (cases "c_state (conns w c) = kConnected")
  case False
  with inv show ?thesis by (simp add: shutdown_def)
next
  case True
  note ok = net_invD(8) [OF inv c]
  have op: "conn_open w c" using True by (simp add: conn_open_def)
  note o = conn_ok_open [OF ok op]
  let ?w = "setState c kDisconnecting w"
  have cn: "conns ?w c = (conns w c)\<lparr>c_state := kDisconnecting, sock_shut := sock_shut (conns w c),
      tcp_nodelay := tcp_nodelay (conns w c)\<rparr>" by simp
  have s: "\<not> sock_shut (conns w c)" using o(8) True by auto
  have w: "net_inv A X rs ?w" "keeps {} w ?w"
    using touched_state_only [OF inv c touched_setState cn] op s by auto
  then have "alive ?w c" using c by (simp add: keeps_def)
  from shutdownInLoop_ok [OF w(1) this] obtain w' where w': "shutdownInLoop c ?w = Inr w'" "net_inv A X rs w'"
    "keeps {} ?w w'" "conns w' c = (conns ?w c)\<lparr>sock_shut := sock_shut (conns ?w c) \<or> \<not> isWriting (chans ?w c)\<rparr>"
    by auto
  with True s o(7) w(2) inv show ?thesis
    by (auto simp: shutdown_def net_invD(2) intro: keeps_trans)
qed

lemma forceClose_ok:
  assumes inv: "net_inv A X rs w" and c: "alive w c"
  shows "net_inv A X rs (forceClose c w)" and "keeps {} w (forceClose c w)"
proof -
  let ?w = "queueInLoop (F_forceCloseInLoop c) (setState c kDisconnecting w)"
  note ok = net_invD(8) [OF inv c]
  have "net_inv A X rs ?w \<and> keeps {} w ?w" if op: "conn_open w c"
  proof -
    have cn: "conns ?w c = (conns w c)\<lparr>c_state := kDisconnecting, sock_shut := sock_shut (conns w c),
      tcp_nodelay := tcp_nodelay (conns w c)\<rparr>" by simp
    have t: "touched c [F_forceCloseInLoop c] w ?w"
      using touched_trans [OF touched_setState touched_queueInLoop] by fastforce
    show ?thesis
      using touched_state_only [OF inv c t cn] op conn_ok_open(8) [OF ok op] c t
      by (auto simp: touched_def)
  qed
  with inv show "net_inv A X rs (forceClose c w)" "keeps {} w (forceClose c w)"
    by (auto simp: forceClose_def conn_open_def)
qed

lemma setTcpNoDelay_ok:
  assumes inv: "net_inv A X rs w" and c: "alive w c"
  shows "net_inv A X rs (setTcpNoDelay c on w)" and "keeps {} w (setTcpNoDelay c on w)"
proof -
  let ?w = "setTcpNoDelay c on w"
  have cn: "conns ?w c = (conns w c)\<lparr>c_state := c_state (conns w c), sock_shut := sock_shut (conns w c),
      tcp_nodelay := on\<rparr>" by (simp add: setTcpNoDelay_def set_conn_def)
  have t: "touched c [] w ?w" by (simp add: setTcpNoDelay_def touched_set_conn)
  note ok = net_invD(8) [OF inv c]
  have "conn_open w c \<Longrightarrow> c_state (conns w c) = kConnected \<or> c_state (conns w c) = kDisconnecting"
    by (simp add: conn_open_def)
  then show "net_inv A X rs ?w" "keeps {} w ?w"
    using touched_state_only [OF inv c t cn] conn_ok_open(8) [OF ok] conn_ok_closed [OF ok] by simp_all
qed

section \<open>Writing the queue\<close>

text \<open>A change of the buffers and of what the socket took, with the channel following the output buffer.\<close>

lemma touched_buffers:
  assumes inv: "net_inv A X rs w" and c: "alive w c" and op: "conn_open w c" and t: "touched c fs w w1"
    and cn: "conns w1 c = (conns w c)\<lparr>sock_out := so, inputBuffer := ib, outputBuffer := ob\<rparr>"
    and b: "buffer_inv ib" "buffer_inv ob" and shut: "sock_shut (conns w c) \<Longrightarrow> content ob = []"
    and calls: "\<And>f. f \<in> set fs \<Longrightarrow> call_ok w1 f" "\<And>c'. F_connectDestroyed c' \<notin> set fs"
  shows "keeps {} w w1" and "(isWriting (chans w c) \<longleftrightarrow> content ob \<noteq> []) \<Longrightarrow> net_inv A X rs w1"
    and "content ob = [] \<Longrightarrow> \<exists>w2. disableWriting c w1 = Inr w2 \<and> net_inv A X rs w2 \<and> keeps {} w w2 \<and> conns w2 = conns w1"
proof -
  note ok = net_invD(8) [OF inv c]
  have op1: "conn_open w1 c" using op by (simp add: conn_open_def cn)
  have st: "c_state (conns w c) \<noteq> kConnected \<Longrightarrow> c_state (conns w1 c) \<noteq> kConnected" by (simp add: cn)
  have ch: "chans w1 = chans w" using t by (simp add: touched_def)
  note o = conn_ok_open [OF ok op]
  note ok2 = touched_open_ok [OF ok op t calls(2) op1, unfolded cn, simplified, OF b]
  show k: "keeps {} w w1" using touched_keeps [OF t] op1 by blast
  show "(isWriting (chans w c) \<longleftrightarrow> content ob \<noteq> []) \<Longrightarrow> net_inv A X rs w1"
    using ok2(1) shut o(8) by (intro touched_inv [OF inv c t calls(1) calls(2) st]) simp_all
  show "\<exists>w2. disableWriting c w1 = Inr w2 \<and> net_inv A X rs w2 \<and> keeps {} w w2 \<and> conns w2 = conns w1" if e: "content ob = []"
  proof -
    let ?e = "ch_events (chans w c) AND NOT kWriteEvent"
    have "conn_ok X (rs @ pendingFunctors w1) (watched c ?e w1) c"
      using ok2(2) [of ?e] shut o(6,8) e by (simp add: event_bits(3,4) isReading_def)
    from touched_watched_inv [OF inv c t o(2) calls(1) calls(2) st refl this]
    have "net_inv A X rs (watched c ?e w1)" "disableWriting c w1 = Inr (watched c ?e w1)"
      by (simp_all add: disableWriting_def ch)
    moreover have "keeps {} w (watched c ?e w1)"
      using watched_keeps [OF k] o(2) t by (simp add: registered_def touched_def)
    ultimately show ?thesis by (simp add: watched_def Let_def)
  qed
qed

lemma touched_queue_ok:
  assumes inv: "net_inv A X rs w" and c: "alive w c" and f: "call_ok (queueInLoop f w) f"
    and n: "\<And>c'. F_connectDestroyed c' \<noteq> f"
  shows "net_inv A X rs (queue_if p f w)" and "keeps {} w (queue_if p f w)"
proof -
  note ok = net_invD(8) [OF inv c]
  let ?w = "queueInLoop f w"
  have t: "touched c [f] w ?w" by (rule touched_queueInLoop)
  have cn: "conns ?w c = (conns w c)\<lparr>c_state := c_state (conns w c), sock_shut := sock_shut (conns w c),
      tcp_nodelay := tcp_nodelay (conns w c)\<rparr>" by simp
  have "conn_open w c \<Longrightarrow> c_state (conns w c) = kConnected \<or> c_state (conns w c) = kDisconnecting"
    by (simp add: conn_open_def)
  then have "net_inv A X rs ?w \<and> keeps {} w ?w"
    using touched_state_only [OF inv c t cn] conn_ok_open(8) [OF ok] conn_ok_closed [OF ok] f n by simp
  with inv show "net_inv A X rs (queue_if p f w)" "keeps {} w (queue_if p f w)" by (simp_all add: queue_if_def)
qed

text \<open>What becomes of a connection when its output buffer has drained.\<close>

lemma drained_ok:
  assumes inv: "net_inv A X rs w" and c: "alive w c" and u: "conn_open w c" "unsent w c = []"
  shows "\<exists>w'. (let w4 = queue_if (has_writeComplete (conns w c)) (F_writeComplete c) w
      in if c_state (conns w4 c) = kDisconnecting then shutdownInLoop c w4 else Inr w4) = Inr w' \<and>
    net_inv A X rs w' \<and> keeps {} w w' \<and>
    conns w' c = (conns w c)\<lparr>sock_shut := sock_shut (conns w c) \<or> c_state (conns w c) = kDisconnecting\<rparr>"
proof -
  let ?w = "queue_if (has_writeComplete (conns w c)) (F_writeComplete c) w"
  have "call_ok (queueInLoop (F_writeComplete c) w) (F_writeComplete c)"
    using c touched_queueInLoop [of c "F_writeComplete c" w] by (simp add: touched_def)
  from touched_queue_ok [OF inv c this] have q: "net_inv A X rs ?w" "keeps {} w ?w" by simp_all
  then have al: "alive ?w c" using c by (simp add: keeps_def)
  have nw: "\<not> isWriting (chans w c)" using conn_ok_open(7) [OF net_invD(8) [OF inv c] u(1)] u(2) by simp
  show ?thesis
  proof (cases "c_state (conns w c) = kDisconnecting")
    case True
    with shutdownInLoop_ok [OF q(1) al] q(2) nw show ?thesis
      by (auto simp: Let_def intro: keeps_trans)
  next
    case False
    with q show ?thesis by (simp add: Let_def)
  qed
qed

lemma conn_handleWrite_ok:
  assumes inv: "net_inv A X rs w" and c: "alive w c"
  shows "\<exists>w'. conn_handleWrite c w = Inr w' \<and> net_inv A X rs w' \<and> keeps {} w w' \<and>
    (conn_open w c \<longrightarrow> stream w' c = stream w c \<and> c_state (conns w' c) = c_state (conns w c) \<and>
       inputBuffer (conns w' c) = inputBuffer (conns w c) \<and>
       (sock_shut (conns w' c) \<longleftrightarrow> sock_shut (conns w c) \<or>
          c_state (conns w c) = kDisconnecting \<and> unsent w c \<noteq> [] \<and> unsent w' c = []) \<and>
       (\<forall>n. k_write w (k_writes w) = Inr n \<longrightarrow> unsent w' c = drop n (unsent w c)))"
proof (cases "isWriting (chans w c)")
  case False
  with inv conn_okD(4) [OF net_invD(8) [OF inv c]] conn_ok_open(7) [OF net_invD(8) [OF inv c]] show ?thesis
    by (auto simp: conn_handleWrite_def assertInLoopThread_def net_invD(2))
next
  case True
  note ok = net_invD(8) [OF inv c]
  note cc = conn_okD(4,5,6) [OF ok]
  have op: "conn_open w c" using ok True
    by (auto simp: conn_ok_def isWriting_def isNoneEvent_def kNoneEvent_def split: if_splits)
  note o = conn_ok_open [OF ok op]
  have ns: "\<not> sock_shut (conns w c)" using o(7,8) True by auto
  have data: "take (readableBytes (outputBuffer (conns w c))) (peek (outputBuffer (conns w c))) = unsent w c"
    by (rule take_peek [OF cc(3)])
  let ?w0 = "w\<lparr>k_writes := k_writes w + 1\<rparr>"
  have t0: "touched c [] w ?w0" by (simp add: touched_def)
  have h: "holds (unsent w c) (outputBuffer (conns w c))" using cc(3) by auto
  show ?thesis
  proof (cases "k_write w (k_writes w)")
    case (Inl err)
    then have "conn_handleWrite c w = Inr ?w0"
      using True inv ns cc(1)
      by (simp add: conn_handleWrite_def assertInLoopThread_def net_invD(2) sock_write_def Let_def)
    moreover have "net_inv A X rs ?w0" "keeps {} w ?w0"
      using touched_buffers(1,2) [OF inv c op t0, where so = "sock_out (conns w c)" and
          ib = "inputBuffer (conns w c)" and ob = "outputBuffer (conns w c)"] cc o(7) ns by simp_all
    ultimately show ?thesis using ns Inl by (simp add: stream_def)
  next
    case (Inr N)
    let ?n = "min N (length (unsent w c))" and ?u = "unsent w c"
    obtain b1 where b1: "retrieve (outputBuffer (conns w c)) ?n = Inr b1" "holds (drop ?n ?u) b1"
      using holds_retrieve [OF h, of ?n] by auto
    let ?cn = "(conns w c)\<lparr>sock_out := sock_out (conns w c) @ take ?n ?u\<rparr>"
    let ?w1 = "set_conn c ?cn ?w0" and ?w2 = "set_conn c (?cn\<lparr>outputBuffer := b1\<rparr>) (set_conn c ?cn ?w0)"
    have t1: "touched c [] w ?w1" and t2: "touched c [] w ?w2" by (simp_all add: touched_def set_conn_def)
    have cn2: "conns ?w2 c = (conns w c)\<lparr>sock_out := sock_out (conns w c) @ take ?n ?u,
        inputBuffer := inputBuffer (conns w c), outputBuffer := b1\<rparr>" by (simp add: set_conn_def)
    have cn1: "conns ?w1 c = (conns w c)\<lparr>sock_out := sock_out (conns w c) @ take ?n ?u,
        inputBuffer := inputBuffer (conns w c), outputBuffer := outputBuffer (conns w c)\<rparr>"
      by (simp add: set_conn_def)
    have r: "readableBytes b1 = 0 \<longleftrightarrow> content b1 = []" "buffer_inv b1" "content b1 = drop ?n ?u"
      using b1(2) by (auto simp: holds_def length_content [symmetric])
    have hw: "conn_handleWrite c w = (if ?n > 0 then if readableBytes b1 = 0 then
          bind_res (disableWriting c ?w2) (\<lambda>w3.
            let w4 = queue_if (has_writeComplete (conns w3 c)) (F_writeComplete c) w3
            in if c_state (conns w4 c) = kDisconnecting then shutdownInLoop c w4 else Inr w4)
        else Inr ?w2 else Inr ?w1)"
    proof -
      have sw: "sock_write c ?u w = (Inr ?n, ?w1)" using ns Inr by (simp add: sock_write_def Let_def)
      show ?thesis
        unfolding conn_handleWrite_def Let_def data cc(1) sw
        using True inv b1(1) cc(1) by (simp add: assertInLoopThread_def net_invD(2) set_conn_def)
    qed
    note tb = touched_buffers [OF inv c op t2 cn2 cc(2) r(2)]
    have ne: "?u \<noteq> []" using o(7) True by simp
    consider (none) "?n = 0" | (some) "?n > 0" "content b1 \<noteq> []" | (all) "?n > 0" "content b1 = []" by blast
    then show ?thesis
    proof cases
      case none
      then have "N = 0" using ne by (auto simp: min_def split: if_splits)
      moreover have "net_inv A X rs ?w1" "keeps {} w ?w1"
        using touched_buffers(1,2) [OF inv c op t1 cn1] cc o(7) ns by simp_all
      ultimately show ?thesis using none hw Inr ne by (simp add: stream_def set_conn_def)
    next
      case some
      with hw r(1) have "conn_handleWrite c w = Inr ?w2" by simp
      moreover have "net_inv A X rs ?w2" "keeps {} w ?w2" using tb(1,2) True some(2) ns by simp_all
      moreover have "take ?n ?u @ drop ?n ?u = ?u" "drop ?n ?u = drop N ?u" by (auto simp: min_def)
      ultimately show ?thesis using Inr some(2) r(3) by (simp add: stream_def set_conn_def)
    next
      case all
      obtain w3 where w3: "disableWriting c ?w2 = Inr w3" "net_inv A X rs w3" "keeps {} w w3" "conns w3 = conns ?w2"
        using tb(3) [OF _ _ _ all(2)] ns by auto
      have "alive w3 c" "conn_open w3 c" using w3(3) c op by (auto simp: keeps_def)
      moreover have "unsent w3 c = []" using all(2) by (simp add: w3(4) set_conn_def)
      ultimately obtain w' where w': "(let w4 = queue_if (has_writeComplete (conns w3 c)) (F_writeComplete c) w3
          in if c_state (conns w4 c) = kDisconnecting then shutdownInLoop c w4 else Inr w4) = Inr w'"
        "net_inv A X rs w'" "keeps {} w3 w'"
        "conns w' c = (conns w3 c)\<lparr>sock_shut := sock_shut (conns w3 c) \<or> c_state (conns w3 c) = kDisconnecting\<rparr>"
        using drained_ok [OF w3(2), of c] by blast
      have "conn_handleWrite c w = Inr w'" using hw all r(1) w3(1) w'(1) by simp
      moreover have "take ?n ?u = ?u" "drop N ?u = []" using all(2) r(3) by (simp_all add: min_def split: if_splits)
      ultimately show ?thesis
        using Inr w' keeps_trans [OF w3(3) w'(3)] all(2) ne ns by (simp add: stream_def w3(4) set_conn_def)
    qed
  qed
qed

section \<open>Code of the user\<close>

text \<open>\<open>safe_res F m Q\<close>: the computation returns with \<open>Q\<close>, or ends in a fault of \<open>F\<close>.\<close>

definition safe_res :: "('e \<Rightarrow> bool) \<Rightarrow> 'e + 'a \<Rightarrow> ('a \<Rightarrow> bool) \<Rightarrow> bool" where
  "safe_res F m Q = (case m of Inl e \<Rightarrow> F e | Inr x \<Rightarrow> Q x)"

lemma safe_res_simps [simp]: "safe_res F (Inr x) Q = Q x" "safe_res F (Inl e) Q = F e"
  by (simp_all add: safe_res_def)

lemma safe_res_bind:
  "safe_res F m P \<Longrightarrow> (\<And>x. P x \<Longrightarrow> safe_res F (f x) Q) \<Longrightarrow> safe_res F (bind_res m f) Q"
  by (cases m) auto

lemma safe_res_mono: "safe_res F m P \<Longrightarrow> (\<And>x. P x \<Longrightarrow> Q x) \<Longrightarrow> safe_res F m Q"
  by (cases m) auto

fun callback_conn :: "callback \<Rightarrow> nat" where
  "callback_conn (Connection_cb c) = c"
| "callback_conn (Message_cb c) = c"
| "callback_conn (WriteComplete_cb c) = c"
| "callback_conn (HighWaterMark_cb c n) = c"

lemma net_inv_drop:
  assumes "net_inv A X (f # rs) w" and "\<And>c. F_connectDestroyed c \<noteq> f"
  shows "net_inv A X rs w"
proof -
  have "conn_ok X (rs @ pendingFunctors w) w c" if "alive w c" for c
  proof (rule conn_ok_cong [OF net_invD(8) [OF assms(1) that]])
    have "f \<noteq> F_connectDestroyed c" using assms(2) [of c] by metis
    then show "count_list (rs @ pendingFunctors w) (F_connectDestroyed c)
        = count_list ((f # rs) @ pendingFunctors w) (F_connectDestroyed c)" by simp
  qed simp_all
  then show ?thesis using assms(1) unfolding net_inv_def by auto
qed

text \<open>
  What the reactor asks of the code of the user: the callbacks keep the invariant, as code that acts on connections by
  sending, shutting down and closing does, or end in a fault of their own.
\<close>

locale net_app = net_user user for user :: "'u user_code" +
  fixes A :: "'u \<Rightarrow> bool" and app_fault :: "cxx_fault \<Rightarrow> bool"
  assumes user_inv: "net_inv A X rs w \<Longrightarrow> alive w (callback_conn k) \<Longrightarrow>
    safe_res app_fault (user k w) (\<lambda>w'. net_inv A X rs w' \<and> keeps {} w w')"
begin

abbreviation safe :: "'u net res \<Rightarrow> ('u net \<Rightarrow> bool) \<Rightarrow> bool" where
  "safe m Q \<equiv> safe_res app_fault m Q"

lemma handleClose_ok:
  assumes inv: "net_inv A X rs w" and c: "alive w c" and op: "conn_open w c"
  shows "safe (handleClose user c w) (\<lambda>w'. net_inv A X rs w' \<and> keeps {c} w w')"
proof -
  note ok = net_invD(8) [OF inv c]
  note o = conn_ok_open [OF ok op] and d = conn_okD [OF ok]
  let ?w1 = "setState c kDisconnected w" and ?w2 = "watched c kNoneEvent (setState c kDisconnected w)"
  have t: "touched c [] w ?w1" by (rule touched_setState)
  have cl: "conn_ok (insert c X) (rs @ pendingFunctors ?w1) ?w2 c"
    using o d t
    by (simp add: conn_ok_def conn_open_def registered_def listed_def watched_def Let_def touched_def isNoneEvent_def)
  note w2 = touched_watched_inv [OF inv c t o(2) _ _ _ _ cl]
  have i2: "net_inv A (insert c X) rs ?w2" using w2(1) by simp
  have e2: "disableAll c ?w1 = Inr ?w2" using w2(2) by (simp add: disableAll_def)
  have "keeps {c} w ?w1" using touched_keeps [OF t] by blast
  then have k2: "keeps {c} w ?w2"
    using watched_keeps o(2) by (fastforce simp: registered_def setState_def set_conn_def)
  have "safe (bind_res (user (Connection_cb c) ?w2) (removeConnection c)) (\<lambda>w'. net_inv A X rs w' \<and> keeps {c} w w')"
  proof (rule safe_res_bind [OF user_inv [OF i2]])
    show "alive ?w2 (callback_conn (Connection_cb c))" using c k2 by (simp add: keeps_def)
    fix w3 assume "net_inv A (insert c X) rs w3 \<and> keeps {} ?w2 w3"
    then have i3: "net_inv A (insert c X) rs w3" and k3: "keeps {c} w w3"
      using k2 by (auto intro: keeps_trans keeps_mono)
    have c3: "alive w3 c" using k3 c by (simp add: keeps_def)
    note ok3 = net_invD(8) [OF i3 c3]
    have nop: "\<not> conn_open w3 c" using conn_ok_open(1) [OF ok3] by blast
    let ?w4 = "queueInLoop (F_connectDestroyed c) (w3\<lparr>connections := (connections w3)(c_name (conns w3 c) := None)\<rparr>)"
    have f: "pendingFunctors ?w4 = pendingFunctors w3 @ [F_connectDestroyed c]" "chans ?w4 = chans w3" "conns ?w4 = conns w3"
        "alive ?w4 = alive w3" "ep_refuses ?w4 = ep_refuses w3" "channels ?w4 = channels w3" "ep_interest ?w4 = ep_interest w3"
        "wakeupChannel ?w4 = wakeupChannel w3" "acceptChannel ?w4 = acceptChannel w3" "next_obj ?w4 = next_obj w3"
        "connections ?w4 = (connections w3)(c_name (conns w3 c) := None)" "isInLoopThread ?w4 = isInLoopThread w3"
        "app_data ?w4 = app_data w3"
      by (simp_all add: queueInLoop_def Let_def queue_push_def wakeup_def isInLoopThread_def)
    have l3: "listed w3 c" "registered w3 c" using ok3 nop by (simp_all add: conn_ok_def)
    have "removeConnection c w3 = Inr ?w4"
      using i3 l3(1) by (simp add: removeConnection_def removeConnectionInLoop_def assertInLoopThread_def net_invD(2)
          listed_def Let_def)
    moreover have "net_inv A X rs ?w4"
    proof (rule net_inv_step [OF i3 c3, where fs = "[F_connectDestroyed c]" and rs' = rs])
      show "poller_ok ?w4" using poller_ok_cong [of ?w4 w3] net_invD(1) [OF i3] f by simp
      show "conn_ok X (rs @ pendingFunctors ?w4) ?w4 c"
        using ok3 nop o(1) l3 by (simp add: conn_ok_def f registered_def listed_def conn_open_def)
    qed (use l3 f c3 net_invD(2) [OF i3] o(1) in \<open>auto simp: listed_def\<close>)
    moreover have "keeps {c} w3 ?w4"
      by (simp add: keeps_def queueInLoop_def Let_def queue_push_def wakeup_def conn_open_def)
    ultimately show "safe (removeConnection c w3) (\<lambda>w'. net_inv A X rs w' \<and> keeps {c} w w')"
      using k3 by (auto intro: keeps_trans)
  qed
  then show ?thesis
    using op inv d(4) e2 by (simp add: handleClose_def assertInLoopThread_def net_invD(2) conn_open_def)
qed

end

text \<open>What the invariant does not read.\<close>

definition same_chan :: "Channel \<Rightarrow> Channel \<Rightarrow> bool" where
  "same_chan x y \<longleftrightarrow> ch_fd x = ch_fd y \<and> ch_index x = ch_index y \<and> ch_events x = ch_events y \<and> addedToLoop x = addedToLoop y"

lemma net_inv_fields:
  assumes inv: "net_inv A X rs w" and chs: "\<And>c. same_chan (chans w' c) (chans w c)"
    and f: "conns w' = conns w" "alive w' = alive w" "channels w' = channels w" "ep_interest w' = ep_interest w"
      "ep_refuses w' = ep_refuses w" "threadId w' = threadId w" "this_tid w' = this_tid w"
      "wakeupChannel w' = wakeupChannel w" "acceptChannel w' = acceptChannel w" "next_obj w' = next_obj w"
      "connections w' = connections w" and d: "A (app_data w) \<Longrightarrow> A (app_data w')" and q: "rs' @ pendingFunctors w' = rs @ pendingFunctors w"
  shows "net_inv A X rs' w'"
proof -
  have e: "ch_fd (chans w' c) = ch_fd (chans w c)" "ch_index (chans w' c) = ch_index (chans w c)"
    "ch_events (chans w' c) = ch_events (chans w c)" "addedToLoop (chans w' c) = addedToLoop (chans w c)" for c
    using chs [of c] by (simp_all add: same_chan_def)
  have b: "isNoneEvent (chans w' c) = isNoneEvent (chans w c)" "isReading (chans w' c) = isReading (chans w c)"
    "isWriting (chans w' c) = isWriting (chans w c)" "registered w' c = registered w c" "listed w' c = listed w c"
    "conn_open w' c = conn_open w c" for c
    by (simp_all add: isNoneEvent_def isReading_def isWriting_def registered_def listed_def conn_open_def e f)
  have "poller_ok w' = poller_ok w" by (simp only: poller_ok_def e b f)
  moreover have "conn_ok X fs w' c = conn_ok X fs w c" for fs c by (simp only: conn_ok_def e b f)
  moreover have "call_ok w' g = call_ok w g" for g by (cases g) (simp_all add: f)
  ultimately show ?thesis using inv d unfolding net_inv_def isInLoopThread_def q b f by simp
qed

context net_app
begin

lemma conn_handleRead_ok:
  assumes inv: "net_inv A X rs w" and c: "alive w c" and op: "conn_open w c"
  shows "safe (conn_handleRead user c w) (\<lambda>w'. net_inv A X rs w' \<and> keeps {c} w w')"
proof -
  note ok = net_invD(8) [OF inv c]
  note o = conn_ok_open [OF ok op] and d = conn_okD [OF ok]
  obtain n b where r: "readFd (sock_readv w) (inputBuffer (conns w c)) = Inr (n, b)" "buffer_inv b"
  proof (cases "sock_readv w (if writableBytes (inputBuffer (conns w c)) < extrabuf_size
      then [writableBytes (inputBuffer (conns w c)), extrabuf_size] else [writableBytes (inputBuffer (conns w c))])")
    case (Inl err)
    with that d(5) show ?thesis by (auto simp: readFd_def Let_def)
  next
    case (Inr data)
    from holds_readFd [where readv = "sock_readv w", OF holdsI [OF d(5) refl] this] that show ?thesis by (auto simp: res_ok_def holds_def)
  qed
  let ?w = "(set_conn c ((conns w c)\<lparr>inputBuffer := b\<rparr>) w)\<lparr>k_reads := Suc (k_reads w)\<rparr>"
  have t: "touched c [] w ?w" by (simp add: touched_def set_conn_def)
  have cn: "conns ?w c = (conns w c)\<lparr>sock_out := sock_out (conns w c), inputBuffer := b,
      outputBuffer := outputBuffer (conns w c)\<rparr>" by (simp add: set_conn_def)
  have w: "net_inv A X rs ?w" "keeps {} w ?w"
    using touched_buffers(1,2) [OF inv c op t cn r(2) d(6)] o(7,8) by auto
  then have w1: "alive ?w c" "conn_open ?w c" "keeps {c} w ?w"
    using c op by (auto simp: keeps_def)
  have "safe (case n of Inr m \<Rightarrow> if m > 0 then user (Message_cb c) ?w else handleClose user c ?w
      | Inl savedErrno \<Rightarrow> conn_handleError c ?w) (\<lambda>w'. net_inv A X rs w' \<and> keeps {c} w w')"
  proof (cases n)
    case (Inl e)
    with w w1 show ?thesis by (simp add: conn_handleError_def)
  next
    case (Inr m)
    have "safe (user (Message_cb c) ?w) (\<lambda>w'. net_inv A X rs w' \<and> keeps {c} w w')"
      using w1 by (intro safe_res_mono [OF user_inv [OF w(1)]]) (auto intro: keeps_trans keeps_mono)
    moreover have "safe (handleClose user c ?w) (\<lambda>w'. net_inv A X rs w' \<and> keeps {c} w w')"
      using w1 by (intro safe_res_mono [OF handleClose_ok [OF w(1)]]) (auto intro: keeps_trans)
    ultimately show ?thesis using Inr by simp
  qed
  then show ?thesis
    using inv by (simp add: conn_handleRead_def assertInLoopThread_def net_invD(2) r(1) Let_def)
qed

lemma connectDestroyed_ok:
  assumes inv: "net_inv A X (F_connectDestroyed c # rs) w" and h: "\<not> eventHandling w"
  shows "\<exists>w'. connectDestroyed user c w = Inr w' \<and> net_inv A X rs w' \<and> keeps {} w w'"
proof -
  have c: "alive w c" using net_invD(10) [OF inv, of "F_connectDestroyed c"] by simp
  note ok = net_invD(8) [OF inv c]
  have nop: "\<not> conn_open w c" using conn_ok_open(4) [OF ok] by auto
  have cl: "c_state (conns w c) = kDisconnected" "isNoneEvent (chans w c)" "c \<notin> X" "registered w c" "\<not> listed w c"
      "count_list (rs @ pendingFunctors w) (F_connectDestroyed c) = 0"
    using ok nop by (simp_all add: conn_ok_def split: if_splits)
  have rm: "ch_remove c w = Inr (unwatched c w)" "poller_ok (unwatched c w)"
    using ch_remove_unwatched [OF net_invD(1) [OF inv], of c] cl net_invD(2,3) [OF inv] h
    by (simp_all add: registered_def)
  have f: "conns (unwatched c w) = conns w" "alive (unwatched c w) = alive w" "isInLoopThread (unwatched c w) = isInLoopThread w"
      "pendingFunctors (unwatched c w) = pendingFunctors w" "connections (unwatched c w) = connections w"
      "ch_fd (chans (unwatched c w) c) = ch_fd (chans w c)" "wakeupChannel (unwatched c w) = wakeupChannel w"
      "acceptChannel (unwatched c w) = acceptChannel w" "next_obj (unwatched c w) = next_obj w"
    by (simp_all add: unwatched_def isInLoopThread_def)
  have "net_inv A X rs (unwatched c w)"
  proof (rule net_inv_step [OF inv c, where fs = "[]" and rs' = rs])
    show "conn_ok X (rs @ pendingFunctors (unwatched c w)) (unwatched c w) c"
      using cl conn_okD [OF ok] nop
      by (simp add: conn_ok_def conn_open_def f) (simp add: registered_def listed_def unwatched_def isNoneEvent_def)
  qed (use cl(4) rm(2) net_invD(2) [OF inv] in \<open>auto simp: f unwatched_def isInLoopThread_def\<close>)
  moreover have "keeps {} w (unwatched c w)"
    by (auto simp: keeps_def unwatched_def conn_open_def)
  ultimately show ?thesis
    using cl(1) inv rm(1) conn_okD(4) [OF ok]
    by (simp add: connectDestroyed_def assertInLoopThread_def net_invD(2))
qed

text \<open>Every functor that the queue may hold runs.\<close>

lemma exec_ok:
  assumes inv: "net_inv A X (f # rs) w" and h: "\<not> eventHandling w"
  shows "safe (exec user f w) (\<lambda>w'. net_inv A X rs w' \<and> keeps UNIV w w')"
proof -
  have f: "call_ok w f" using net_invD(10) [OF inv] by simp
  have drop: "net_inv A X rs w" if "\<And>c. F_connectDestroyed c \<noteq> f" by (rule net_inv_drop [OF inv that])
  have up: "keeps S w w' \<Longrightarrow> keeps UNIV w w'" for S w' by (erule keeps_mono) simp
  show ?thesis
  proof (cases f)
    case (F_sendInLoop c data)
    with f drop sendInLoop_ok [of A X rs w c data] up show ?thesis by (auto simp: deref_def)
  next
    case (F_shutdownInLoop c)
    with f drop shutdownInLoop_ok [of A X rs w c] up show ?thesis by (auto simp: deref_def)
  next
    case (F_forceCloseInLoop c)
    with drop have i: "net_inv A X rs w" by simp
    show ?thesis
    proof (cases "conn_open w c")
      case True
      have "safe (handleClose user c w) (\<lambda>w'. net_inv A X rs w' \<and> keeps UNIV w w')"
        using f F_forceCloseInLoop by (intro safe_res_mono [OF handleClose_ok [OF i _ True]]) (auto dest: up)
      with True F_forceCloseInLoop i show ?thesis
        by (auto simp: forceCloseInLoop_def assertInLoopThread_def net_invD(2) conn_open_def)
    next
      case False
      with F_forceCloseInLoop i show ?thesis
        by (simp add: forceCloseInLoop_def assertInLoopThread_def net_invD(2) conn_open_def)
    qed
  next
    case (F_writeComplete c)
    with f drop show ?thesis by (auto intro!: safe_res_mono [OF user_inv [of X rs]] dest: up)
  next
    case (F_highWaterMark c n)
    with f drop show ?thesis by (auto intro!: safe_res_mono [OF user_inv [of X rs]] dest: up)
  next
    case (F_connectDestroyed c)
    with connectDestroyed_ok [of X c rs w] inv h up show ?thesis by auto
  qed (use f in auto)
qed

lemma doPendingFunctors_ok:
  assumes inv: "net_inv A {} [] w" and h: "\<not> eventHandling w"
  shows "safe (doPendingFunctors (exec user) w) (\<lambda>w'. net_inv A {} [] w' \<and> \<not> eventHandling w')"
proof -
  have run: "safe (run_all (\<lambda>w f. exec user f w) w fs) (\<lambda>w'. net_inv A {} [] w' \<and> \<not> eventHandling w')"
    if "net_inv A {} fs w" "\<not> eventHandling w" for fs w
    using that
  proof (induction fs arbitrary: w)
    case (Cons f fs)
    show ?case unfolding run_all.simps
      by (rule safe_res_bind [OF exec_ok [OF Cons.prems]]) (use Cons in \<open>auto simp: keeps_def\<close>)
  qed simp
  let ?w = "w\<lparr>callingPendingFunctors := True, pendingFunctors := []\<rparr>"
  have "net_inv A {} (pendingFunctors w) ?w" by (rule net_inv_fields [OF inv]) (simp_all add: same_chan_def)
  from run [OF this] h have "safe (run_all (\<lambda>w f. exec user f w) ?w (pendingFunctors w))
      (\<lambda>w'. net_inv A {} [] w' \<and> \<not> eventHandling w')" by simp
  moreover have "net_inv A {} [] (w'\<lparr>callingPendingFunctors := False\<rparr>)" if "net_inv A {} [] w'" for w' :: "'u net"
    by (rule net_inv_fields [OF that]) (simp_all add: same_chan_def)
  ultimately show ?thesis
    by (auto simp: doPendingFunctors_def take_functors_def intro: safe_res_bind)
qed

end

section \<open>Accepting\<close>

text \<open>
  What the kernel and the numbering of connections owe the acceptor: \<open>accept4\<close> returns a descriptor that is not in use, or
  an expected error; the next name is free.
\<close>

definition fresh_accept :: "'u net \<Rightarrow> bool" where
  "fresh_accept w \<longleftrightarrow>
     (case k_accept w (k_accepts w) of Inl err \<Rightarrow> accept_expected err | Inr fd \<Rightarrow> channels w fd = None) \<and>
     connections w (conn_name w) = None"

lemma keeps_fresh: "keeps S w w' \<Longrightarrow> fresh_accept w \<Longrightarrow> fresh_accept w'"
  by (simp add: keeps_def fresh_accept_def conn_name_def split: sum.splits)

definition survives :: "nat set \<Rightarrow> 'u net \<Rightarrow> 'u net \<Rightarrow> bool" where
  "survives S w w' \<longleftrightarrow>
     wakeupChannel w' = wakeupChannel w \<and> acceptChannel w' = acceptChannel w \<and> eventHandling w' = eventHandling w \<and>
     (\<forall>c. alive w c \<longrightarrow> c \<notin> S \<longrightarrow> conn_open w c \<longrightarrow> alive w' c \<and> conn_open w' c) \<and>
     next_obj w \<le> next_obj w' \<and> (\<forall>c < next_obj w. ch_revents (chans w' c) = ch_revents (chans w c))"

lemma keeps_survives: "keeps S w w' \<Longrightarrow> survives S w w'"
  by (simp add: keeps_def survives_def)

lemma survives_trans: "survives S w w1 \<Longrightarrow> survives S w1 w2 \<Longrightarrow> survives S w w2"
  by (simp add: survives_def)

text \<open>A connection as \<open>newConnection\<close> makes it, up to its callback.\<close>

definition accepted :: "int \<Rightarrow> 'u net \<Rightarrow> 'u net" where
  "accepted fd w =
     (let c = next_obj w; name = conn_name w
      in w\<lparr>nextConnId := nextConnId w + 1, next_obj := c + 1,
           chans := (chans w)(c := (new_Channel fd)\<lparr>has_read := True, has_write := True, has_close := True,
             has_error := True, tie_to := c, tied := True, ch_events := kReadEvent, addedToLoop := True, ch_index := kAdded\<rparr>),
           conns := (conns w)(c := (new_TcpConnection name c)\<lparr>has_writeComplete := srv_writeComplete w, c_state := kConnected\<rparr>),
           alive := (alive w)(c := True), connections := (connections w)(name \<mapsto> c),
           channels := (channels w)(fd \<mapsto> c), ep_interest := (ep_interest w)(fd \<mapsto> (kReadEvent, c))\<rparr>)"

lemma net_inv_bound: "net_inv A X rs w \<Longrightarrow> channels w fd = Some c \<Longrightarrow> c < next_obj w"
  using net_invD(6,7,8,9) [of A X rs w] conn_okD(1) by blast

lemma net_inv_alive: "net_inv A X rs w \<Longrightarrow> alive w c \<Longrightarrow> c < next_obj w"
  using conn_okD(1) net_invD(8) by blast

lemma accepted_ok:
  assumes inv: "net_inv A {} rs w" and fd: "channels w fd = None" and nm: "connections w (conn_name w) = None"
  shows "net_inv A {} rs (accepted fd w)" and "survives {} w (accepted fd w)"
    and "newConnection user fd w = user (Connection_cb (next_obj w)) (accepted fd w)"
proof -
  define c where "c = next_obj w"
  define w' where "w' = accepted fd w"
  note D = net_invD [OF inv]
  have na: "\<not> alive w c" using net_inv_alive [OF inv] by (auto simp: c_def)
  have nc: "channels w fd' \<noteq> Some c" for fd' using net_inv_bound [OF inv] by (auto simp: c_def)
  have old: "chans w' c' = chans w c'" "conns w' c' = conns w c'" "alive w' c' = alive w c'" if "c' \<noteq> c" for c'
    using that by (simp_all add: w'_def accepted_def Let_def c_def [symmetric])
  have new: "chans w' c = (new_Channel fd)\<lparr>has_read := True, has_write := True, has_close := True,
        has_error := True, tie_to := c, tied := True, ch_events := kReadEvent, addedToLoop := True, ch_index := kAdded\<rparr>"
      "conns w' c = (new_TcpConnection (conn_name w) c)\<lparr>has_writeComplete := srv_writeComplete w, c_state := kConnected\<rparr>"
      "alive w' c" and tab: "channels w' = (channels w)(fd \<mapsto> c)" "connections w' = (connections w)(conn_name w \<mapsto> c)"
      "ep_interest w' = (ep_interest w)(fd \<mapsto> (kReadEvent, c))"
    and rest: "pendingFunctors w' = pendingFunctors w" "ep_refuses w' = ep_refuses w" "wakeupChannel w' = wakeupChannel w"
      "acceptChannel w' = acceptChannel w" "next_obj w' = c + 1" "isInLoopThread w' = isInLoopThread w"
      "eventHandling w' = eventHandling w" "app_data w' = app_data w"
    by (simp_all add: w'_def accepted_def Let_def c_def [symmetric] isInLoopThread_def)
  have regold: "chans w' a = chans w a" if "channels w fd' = Some a" for fd' a
    using that nc old(1) by metis
  have po: "poller_ok w'"
  proof (rule poller_okI)
    fix fd' c' assume "channels w' fd' = Some c'"
    then have "fd' = fd \<and> c' = c \<or> channels w fd' = Some c' \<and> c' \<noteq> c"
      using nc by (auto simp: tab split: if_splits)
    then show "ch_fd (chans w' c') = fd' \<and> (ch_index (chans w' c') = kAdded \<or>
        ch_index (chans w' c') = kDeleted \<and> isNoneEvent (chans w' c'))"
      using poller_okD(1,2) [OF D(1), of fd' c'] old by (auto simp: new new_Channel_def)
  next
    fix fd'
    show "ep_interest w' fd' = (case channels w' fd' of None \<Rightarrow> None
        | Some c' \<Rightarrow> if ch_index (chans w' c') = kAdded then Some (ch_events (chans w' c'), c') else None)"
      using poller_okD(3) [OF D(1), of fd'] regold [of fd']
      by (cases "fd' = fd"; cases "channels w fd'") (auto simp: tab new)
  qed
  have reg: "registered w' c' = registered w c'" "listed w' c' = listed w c'" if "c' \<noteq> c" for c'
    using that old [OF that] fd nm by (auto simp: registered_def listed_def tab)
  have lt: "alive w c' \<Longrightarrow> c' \<noteq> c" for c' using na by auto
  have okold: "conn_ok {} (rs @ pendingFunctors w') w' c'" if "alive w c'" for c'
    using old [OF lt [OF that]] reg [OF lt [OF that]] rest
    by (intro conn_ok_cong [OF D(8) [OF that]]) (simp_all add: c_def)
  have "count_list (rs @ pendingFunctors w) (F_connectDestroyed c) = 0"
    using D(10) na by (fastforce simp: count_list_0_iff)
  then have oknew: "conn_ok {} (rs @ pendingFunctors w') w' c"
    using D(6,7) holds_new_Buffer [of kInitialSize] unfolding conn_ok_def
    by (simp add: new rest conn_open_def registered_def listed_def tab isReading_def isWriting_def
        new_TcpConnection_def new_Channel_def c_def [symmetric] holds_def)
      (simp add: ev_defs)
  have live: "alive w' c' \<and> conns w' c' = conns w c'" if "alive w c'" for c'
    using that old [OF lt [OF that]] by simp
  have call: "call_ok w f \<Longrightarrow> call_ok w' f" for f
    by (cases f) (auto simp: live)
  have sp: "wakeupChannel w \<noteq> c" "acceptChannel w \<noteq> c" using D(6,7) by (auto simp: c_def)
  show "net_inv A {} rs (accepted fd w)"
    unfolding w'_def [symmetric] net_inv_def
  proof (intro conjI allI impI ballI)
    fix c' assume "alive w' c'"
    then show "conn_ok {} (rs @ pendingFunctors w') w' c'" using okold oknew old by (cases "c' = c") auto
  next
    fix fd' c' assume "channels w' fd' = Some c'"
    then show "c' = wakeupChannel w' \<or> c' = acceptChannel w' \<or> alive w' c'"
      using D(9) [of fd' c'] nc [of fd'] old(3) [of c'] new(3) rest by (auto simp: tab split: if_splits)
  next
    fix f assume "f \<in> set (rs @ pendingFunctors w')"
    then show "call_ok w' f" using D(10) call rest by simp
  qed (use po D(2-7,11) reg sp rest in \<open>simp_all add: c_def\<close>)
  show "survives {} w (accepted fd w)"
    unfolding w'_def [symmetric] survives_def
    using old lt rest by (auto simp: conn_open_def c_def)
  let ?w1 = "w\<lparr>nextConnId := nextConnId w + 1, next_obj := c + 1,
      chans := (chans w)(c := (new_Channel fd)\<lparr>has_read := True, has_write := True, has_close := True, has_error := True\<rparr>),
      conns := (conns w)(c := (new_TcpConnection (conn_name w) c)\<lparr>has_writeComplete := srv_writeComplete w\<rparr>),
      alive := (alive w)(c := True), connections := (connections w)(conn_name w \<mapsto> c)\<rparr>"
  define w2 where "w2 = ch_tie c c (setState c kConnected ?w1)"
  have f2: "channels w2 = channels w" "ep_interest w2 = ep_interest w" "ep_refuses w2 = ep_refuses w"
      "isInLoopThread w2 = isInLoopThread w" "c' \<noteq> c \<Longrightarrow> chans w2 c' = chans w c'"
      "chans w2 c = (new_Channel fd)\<lparr>has_read := True, has_write := True, has_close := True, has_error := True,
         tie_to := c, tied := True\<rparr>" for c'
    by (simp_all add: w2_def ch_tie_def setState_def set_conn_def set_chan_def isInLoopThread_def)
  have po2: "poller_ok w2"
    using poller_okD [OF D(1)] nc f2(5)
    by (intro poller_okI) (auto simp: f2(1,2) split: option.splits, (metis option.inject)+)
  have "chan_ok w2 c" using fd D(3) by (simp add: chan_ok_def f2 new_Channel_def isNoneEvent_def kNoneEvent_def kNew_def)
  from channel_ops(1) [OF po2 this] D(2)
  have "enableReading c w2 = Inr (watched c (0 OR kReadEvent) w2)" by (simp add: f2 new_Channel_def)
  moreover have "watched c (0 OR kReadEvent) w2 = accepted fd w"
    by (simp add: watched_def Let_def f2 new_Channel_def index_defs)
      (simp add: w2_def accepted_def Let_def ch_tie_def setState_def set_conn_def set_chan_def c_def new_Channel_def index_defs)
  ultimately have er: "enableReading c w2 = Inr (accepted fd w)" by simp
  have "newConnection user fd w = connectEstablished user c ?w1"
    using D(2) by (simp add: newConnection_def assertInLoopThread_def Let_def c_def [symmetric])
  also have "\<dots> = bind_res (enableReading c w2) (user (Connection_cb c))"
    using D(2) unfolding connectEstablished_def
    by (simp add: assertInLoopThread_def isInLoopThread_def new_TcpConnection_def Let_def)
      (simp add: w2_def new_TcpConnection_def ch_tie_def setState_def set_conn_def set_chan_def)
  finally show "newConnection user fd w = user (Connection_cb (next_obj w)) (accepted fd w)"
    unfolding er c_def [symmetric] by simp
qed


text \<open>
  What the kernel owes a turn: events of registered channels, no descriptor twice, at most as many as there is room
  for; on a TCP socket a hang-up comes with a readable end of file wherever reading was asked for.
\<close>

definition tcp_revents :: "32 word \<Rightarrow> bool" where
  "tcp_revents r \<longleftrightarrow> (r AND ev_hup \<noteq> 0 \<longrightarrow> r AND ev_in \<noteq> 0 \<or> r AND (ev_in OR ev_pri OR ev_rdhup) = 0)"

definition wait_ok :: "nat + (32 word \<times> nat) list \<Rightarrow> ('f, 'z) EventLoop_scheme \<Rightarrow> bool" where
  "wait_ok wait w = (case wait of Inl err \<Rightarrow> True
     | Inr evs \<Rightarrow> length evs \<le> ep_size w \<and> distinct (map snd evs) \<and>
         (\<forall>(r, c) \<in> set evs. ep_interest w (ch_fd (chans w c)) \<noteq> None \<and>
            snd (the (ep_interest w (ch_fd (chans w c)))) = c \<and> tcp_revents r))"

lemma fillActiveChannels_eq:
  assumes "\<forall>(r, c) \<in> set evs. channels w (ch_fd (chans w c)) = Some c" and "distinct (map snd evs)"
  shows "fillActiveChannels evs w acc = Inr (acc @ map snd evs,
    w\<lparr>chans := (\<lambda>c. case map_of (map prod.swap evs) c of None \<Rightarrow> chans w c | Some r \<Rightarrow> (chans w c)\<lparr>ch_revents := r\<rparr>)\<rparr>)"
  using assms
proof (induction evs arbitrary: w acc)
  case Nil
  then show ?case by simp
next
  case (Cons p evs)
  obtain r c where p: "p = (r, c)" by fastforce
  let ?w = "set_chan c ((chans w c)\<lparr>ch_revents := r\<rparr>) w"
  have e: "ch_fd (chans ?w c') = ch_fd (chans w c')" "channels ?w = channels w" for c' by (simp_all add: set_chan_def)
  have "fillActiveChannels evs ?w (acc @ [c]) = Inr ((acc @ [c]) @ map snd evs,
      ?w\<lparr>chans := (\<lambda>c. case map_of (map prod.swap evs) c of None \<Rightarrow> chans ?w c | Some r \<Rightarrow> (chans ?w c)\<lparr>ch_revents := r\<rparr>)\<rparr>)"
    using Cons.prems by (intro Cons.IH) (auto simp: e p)
  moreover have "c \<notin> snd ` set evs" using Cons.prems(2) by (simp add: p)
  then have "map_of (map prod.swap evs) c = None" by (force simp: map_of_eq_None_iff)
  then have "?w\<lparr>chans := (\<lambda>c. case map_of (map prod.swap evs) c of None \<Rightarrow> chans ?w c | Some r \<Rightarrow> (chans ?w c)\<lparr>ch_revents := r\<rparr>)\<rparr>
      = w\<lparr>chans := (\<lambda>c. case map_of (map prod.swap (p # evs)) c of None \<Rightarrow> chans w c | Some r \<Rightarrow> (chans w c)\<lparr>ch_revents := r\<rparr>)\<rparr>"
    by (auto simp: p set_chan_def fun_eq_iff split: option.splits intro!: EventLoop.equality)
  ultimately show ?case using Cons.prems(1) by (simp add: p)
qed

lemma poll_phase_ok:
  assumes inv: "net_inv A {} [] w" and wait: "wait_ok wait w" and fresh: "fresh_accept w"
  shows "\<exists>w1. poll_phase wait w = Inr w1 \<and> net_inv A {} [] w1 \<and> fresh_accept w1 \<and> distinct (activeChannels w1) \<and>
    (\<forall>c \<in> set (activeChannels w1). c = wakeupChannel w1 \<or> c = acceptChannel w1 \<or>
       alive w1 c \<and> conn_open w1 c \<and> tcp_revents (ch_revents (chans w1 c)))"
proof -
  have key: "\<exists>w1. poll_phase wait w = Inr w1 \<and> net_inv A {} [] w1 \<and> fresh_accept w1 \<and> distinct (activeChannels w1) \<and>
    (\<forall>c \<in> set (activeChannels w1). c = wakeupChannel w1 \<or> c = acceptChannel w1 \<or>
       alive w1 c \<and> conn_open w1 c \<and> tcp_revents (ch_revents (chans w1 c)))"
    if ep: "ep_poll wait (w\<lparr>activeChannels := []\<rparr>) = Inr (map snd evs, w0)"
      and ds: "distinct (map snd evs)" and ev: "\<forall>(r, c) \<in> set evs. ep_interest w (ch_fd (chans w c)) \<noteq> None \<and>
          snd (the (ep_interest w (ch_fd (chans w c)))) = c \<and> tcp_revents r"
      and w0: "w0 = w\<lparr>activeChannels := [], ep_size := n, chans := (\<lambda>c. case map_of (map prod.swap evs) c of
          None \<Rightarrow> chans w c | Some r \<Rightarrow> (chans w c)\<lparr>ch_revents := r\<rparr>)\<rparr>" for evs w0 n
  proof -
    define w1 where "w1 = w0\<lparr>activeChannels := map snd evs, iteration := iteration w0 + 1, eventHandling := True\<rparr>"
    have "net_inv A {} [] w1"
      by (rule net_inv_fields [OF inv]) (simp_all add: w1_def w0 same_chan_def split: option.splits)
    moreover have "fresh_accept w1"
      using fresh by (simp add: fresh_accept_def w1_def w0 conn_name_def split: sum.splits)
    moreover have "c = wakeupChannel w1 \<or> c = acceptChannel w1 \<or>
       alive w1 c \<and> conn_open w1 c \<and> tcp_revents (ch_revents (chans w1 c))" if "c \<in> snd ` set evs" for c
    proof -
      from that obtain r where r: "(r, c) \<in> set evs" by auto
      with ev have i: "ep_interest w (ch_fd (chans w c)) \<noteq> None" "snd (the (ep_interest w (ch_fd (chans w c)))) = c" "tcp_revents r"
        by auto
      with poller_okD(3) [OF net_invD(1) [OF inv], of "ch_fd (chans w c)"]
      have ch: "channels w (ch_fd (chans w c)) = Some c" "ch_index (chans w c) = kAdded"
        by (auto split: option.splits if_splits)
      have "map_of (map prod.swap evs) c = Some r" using r ds
        by (intro map_of_is_SomeI) (force simp: comp_def)+
      then have "tcp_revents (ch_revents (chans w1 c))" using i(3) by (simp add: w1_def w0)
      moreover have "conn_open w c" if "alive w c"
        using net_invD(8) [OF inv that] ch by (auto simp: conn_ok_def registered_def index_defs split: if_splits)
      ultimately show ?thesis
        using net_invD(9) [OF inv ch(1)] by (auto simp: w1_def w0 conn_open_def)
    qed
    moreover have "poll_phase wait w = Inr w1" by (simp add: poll_phase_def ep w1_def)
    ultimately show ?thesis using ds by (auto simp: w1_def)
  qed
  show ?thesis
  proof (cases wait)
    case (Inl err)
    then show ?thesis by (intro key [of "[]" "w\<lparr>activeChannels := []\<rparr>" "ep_size w"]) (simp_all add: ep_poll_def)
  next
    case (Inr evs)
    have ds: "distinct (map snd evs)" and ev: "\<forall>(r, c) \<in> set evs. ep_interest w (ch_fd (chans w c)) \<noteq> None \<and>
          snd (the (ep_interest w (ch_fd (chans w c)))) = c \<and> tcp_revents r" and len: "length evs \<le> ep_size w"
      using wait Inr by (simp_all add: wait_ok_def)
    have "\<forall>(r, c) \<in> set evs. channels (w\<lparr>activeChannels := []\<rparr>) (ch_fd (chans (w\<lparr>activeChannels := []\<rparr>) c)) = Some c"
      using ev poller_okD(3) [OF net_invD(1) [OF inv]] by (fastforce split: option.splits if_splits)
    note fa = fillActiveChannels_eq [OF this ds, of "[]"]
    show ?thesis
      using Inr len ds ev
      by (intro key [of evs _ "if evs \<noteq> [] \<and> length evs = ep_size w then ep_size w * 2 else ep_size w"])
        (auto simp: ep_poll_def fa cong: option.case_cong)
  qed
qed

context net_app
begin

lemma acceptor_ok:
  assumes inv: "net_inv A {} rs w" and fresh: "fresh_accept w"
  shows "safe (acceptor_handleRead user w) (\<lambda>w'. net_inv A {} rs w' \<and> survives {} w w')"
proof -
  let ?w = "w\<lparr>k_accepts := Suc (k_accepts w)\<rparr>"
  have i: "net_inv A {} rs ?w" by (rule net_inv_fields [OF inv]) (simp_all add: same_chan_def)
  have s: "survives {} w ?w" by (simp add: survives_def conn_open_def)
  show ?thesis
  proof (cases "k_accept w (k_accepts w)")
    case (Inl err)
    let ?v = "?w\<lparr>k_accepts := Suc (k_accepts ?w), idleFd := k_open ?w (k_opens ?w), k_opens := Suc (k_opens ?w)\<rparr>"
    have "net_inv A {} rs ?v" by (rule net_inv_fields [OF inv]) (simp_all add: same_chan_def)
    moreover have "survives {} w ?v" by (simp add: survives_def conn_open_def)
    ultimately show ?thesis
      using Inl fresh i s inv
      by (simp add: acceptor_handleRead_def sock_accept_def assertInLoopThread_def net_invD(2) fresh_accept_def)
  next
    case (Inr fd)
    have f: "channels ?w fd = None" "connections ?w (conn_name ?w) = None"
      using fresh Inr by (simp_all add: fresh_accept_def conn_name_def)
    note a = accepted_ok [OF i f]
    have "safe (user (Connection_cb (next_obj ?w)) (accepted fd ?w)) (\<lambda>w'. net_inv A {} rs w' \<and> survives {} w w')"
    proof (rule safe_res_mono [OF user_inv [OF a(1)]])
      show "alive (accepted fd ?w) (callback_conn (Connection_cb (next_obj ?w)))"
        by (simp add: accepted_def Let_def)
    qed (auto intro: survives_trans [OF survives_trans [OF s a(2)]] keeps_survives)
    then show ?thesis
      using Inr inv a(3)
      by (simp add: acceptor_handleRead_def sock_accept_def assertInLoopThread_def net_invD(2))
  qed
qed

section \<open>A turn of the loop\<close>

text \<open>An event handler in stages: one predicate between any two callbacks.\<close>

lemma handleEvent_stages:
  assumes start: "P (set_chan c ((chans w c)\<lparr>ch_eventHandling := True\<rparr>) w)"
    and cl: "\<And>w. P w \<Longrightarrow> ch_revents (chans w c) AND ev_hup \<noteq> 0 \<Longrightarrow> ch_revents (chans w c) AND ev_in = 0 \<Longrightarrow>
      safe (cb c On_close w) B" and cl': "\<And>w. P w \<Longrightarrow> B w"
    and er: "\<And>w. B w \<Longrightarrow> safe (cb c On_error w) B"
    and rd: "\<And>w. B w \<Longrightarrow> ch_revents (chans w c) AND (ev_in OR ev_pri OR ev_rdhup) \<noteq> 0 \<Longrightarrow> safe (cb c On_read w) Q"
    and rd': "\<And>w. B w \<Longrightarrow> Q w"
    and wr: "\<And>w. Q w \<Longrightarrow> safe (cb c On_write w) Q"
    and fin: "\<And>w. Q w \<Longrightarrow> Q (set_chan c ((chans w c)\<lparr>ch_eventHandling := False\<rparr>) w)" and same: "Q w"
  shows "safe (handleEvent cb c w) Q"
proof -
  have "safe (handleEventWithGuard cb c w) Q"
    unfolding handleEventWithGuard_def
    apply (rule safe_res_bind [of _ _ P], simp add: start)
    apply (rule safe_res_bind [of _ _ B], simp add: cl cl')
    apply (rule safe_res_bind [of _ _ B], simp add: er)
    apply (rule safe_res_bind [of _ _ Q], simp add: rd rd')
    apply (rule safe_res_bind [of _ _ Q], simp add: wr)
    apply (simp add: fin)
    done
  then show ?thesis by (simp add: handleEvent_def same)
qed

lemma net_inv_flag: "net_inv A X rs w \<Longrightarrow> net_inv A X rs (set_chan c ((chans w c)\<lparr>ch_eventHandling := b\<rparr>) w)"
  by (erule net_inv_fields) (simp_all add: set_chan_def same_chan_def)

lemma keeps_flag: "keeps S w (set_chan c ((chans w c)\<lparr>ch_eventHandling := b\<rparr>) w)"
  by (simp add: keeps_def set_chan_def conn_open_def)

lemma handle_conn_ok:
  assumes inv: "net_inv A {} rs w" and c: "alive w c" and op: "conn_open w c" and r: "tcp_revents (ch_revents (chans w c))"
  shows "safe (handleEvent (net_handler user) c w) (\<lambda>w'. net_inv A {} rs w' \<and> keeps {c} w w')"
proof (rule handleEvent_stages [where P = "\<lambda>w'. (net_inv A {} rs w' \<and> keeps {c} w w') \<and> conn_open w' c" and
      B = "\<lambda>w'. (net_inv A {} rs w' \<and> keeps {c} w w') \<and>
        (conn_open w' c \<or> ch_revents (chans w c) AND (ev_in OR ev_pri OR ev_rdhup) = 0)"])
  have hd: "net_handler user c k w1 = conn_event user c k w1" "alive w1 c"
    if "net_inv A {} rs w1 \<and> keeps {c} w w1" for w1 k
    using that c conn_okD(2,3) [OF net_invD(8), of A "{}" rs w1 c] by (auto simp: net_handler_def keeps_def)
  have up: "keeps {c} w w1 \<Longrightarrow> keeps S w1 w2 \<Longrightarrow> S \<subseteq> {c} \<Longrightarrow> keeps {c} w w2" for S w1 w2
    by (blast intro: keeps_trans keeps_mono)
  show "(net_inv A {} rs (set_chan c ((chans w c)\<lparr>ch_eventHandling := True\<rparr>) w) \<and>
      keeps {c} w (set_chan c ((chans w c)\<lparr>ch_eventHandling := True\<rparr>) w)) \<and>
      conn_open (set_chan c ((chans w c)\<lparr>ch_eventHandling := True\<rparr>) w) c"
    using net_inv_flag [OF inv] keeps_flag op by (simp add: conn_open_def set_chan_def)
  show "safe (net_handler user c On_close w1) (\<lambda>w'. (net_inv A {} rs w' \<and> keeps {c} w w') \<and>
      (conn_open w' c \<or> ch_revents (chans w c) AND (ev_in OR ev_pri OR ev_rdhup) = 0))"
    if P: "(net_inv A {} rs w1 \<and> keeps {c} w w1) \<and> conn_open w1 c" and "ch_revents (chans w1 c) AND ev_hup \<noteq> 0"
      "ch_revents (chans w1 c) AND ev_in = 0" for w1
  proof -
    have "ch_revents (chans w c) AND (ev_in OR ev_pri OR ev_rdhup) = 0"
      using that r by (simp add: tcp_revents_def keeps_def)
    moreover have "safe (handleClose user c w1) (\<lambda>w'. net_inv A {} rs w' \<and> keeps {c} w w')"
      using P hd by (intro safe_res_mono [OF handleClose_ok [of "{}" rs]]) (auto intro: keeps_trans)
    ultimately show ?thesis using hd P by (simp add: conn_event_def)
  qed
  show "safe (net_handler user c On_error w1) (\<lambda>w'. (net_inv A {} rs w' \<and> keeps {c} w w') \<and>
      (conn_open w' c \<or> ch_revents (chans w c) AND (ev_in OR ev_pri OR ev_rdhup) = 0))"
    if "(net_inv A {} rs w1 \<and> keeps {c} w w1) \<and>
      (conn_open w1 c \<or> ch_revents (chans w c) AND (ev_in OR ev_pri OR ev_rdhup) = 0)" for w1
    using that hd by (simp add: conn_event_def conn_handleError_def)
  show "safe (net_handler user c On_read w1) (\<lambda>w'. net_inv A {} rs w' \<and> keeps {c} w w')"
    if P: "(net_inv A {} rs w1 \<and> keeps {c} w w1) \<and>
      (conn_open w1 c \<or> ch_revents (chans w c) AND (ev_in OR ev_pri OR ev_rdhup) = 0)"
      "ch_revents (chans w1 c) AND (ev_in OR ev_pri OR ev_rdhup) \<noteq> 0" for w1
  proof -
    have "conn_open w1 c" using P by (auto simp: keeps_def)
    then have "safe (conn_handleRead user c w1) (\<lambda>w'. net_inv A {} rs w' \<and> keeps {c} w w')"
      using P hd by (intro safe_res_mono [OF conn_handleRead_ok [of "{}" rs]]) (auto intro: keeps_trans)
    then show ?thesis using hd P by (simp add: conn_event_def)
  qed
  show "safe (net_handler user c On_write w1) (\<lambda>w'. net_inv A {} rs w' \<and> keeps {c} w w')"
    if P: "net_inv A {} rs w1 \<and> keeps {c} w w1" for w1
    using conn_handleWrite_ok [of A "{}" rs w1 c] hd [OF P] P up by (auto simp: conn_event_def)
  show "net_inv A {} rs (set_chan c ((chans w1 c)\<lparr>ch_eventHandling := False\<rparr>) w1) \<and>
      keeps {c} w (set_chan c ((chans w1 c)\<lparr>ch_eventHandling := False\<rparr>) w1)"
    if "net_inv A {} rs w1 \<and> keeps {c} w w1" for w1
    using that net_inv_flag keeps_flag keeps_trans by blast
qed (use inv in auto)

lemma handle_wakeup_ok:
  assumes inv: "net_inv A {} rs w" and c: "c = wakeupChannel w"
  shows "safe (handleEvent (net_handler user) c w) (\<lambda>w'. net_inv A {} rs w' \<and> keeps {} w w')"
proof -
  let ?P = "\<lambda>w'. net_inv A {} rs w' \<and> keeps {} w w'"
  have fl: "?P (set_chan c ((chans w1 c)\<lparr>ch_eventHandling := b\<rparr>) w1)" if "?P w1" for w1 b
    using that net_inv_flag keeps_flag keeps_trans by blast
  have cb: "safe (net_handler user c k w1) ?P" if "?P w1" for w1 k
  proof -
    have "net_inv A {} rs (loop_handleRead w1)" using that
      by (auto intro: net_inv_fields simp: loop_handleRead_def same_chan_def)
    moreover have "keeps {} w1 (loop_handleRead w1)" by (simp add: keeps_def loop_handleRead_def conn_open_def)
    moreover have "wakeupChannel w1 = wakeupChannel w" using that by (simp add: keeps_def)
    ultimately show ?thesis using that c keeps_trans [of "{}" w w1] by (simp add: net_handler_def)
  qed
  show ?thesis
    by (rule handleEvent_stages [where P = ?P and B = ?P]) (use fl cb inv in \<open>simp_all\<close>)
qed

lemma handle_acceptor_ok:
  assumes inv: "net_inv A {} rs w" and c: "c = acceptChannel w" and fresh: "fresh_accept w"
  shows "safe (handleEvent (net_handler user) c w) (\<lambda>w'. net_inv A {} rs w' \<and> survives {} w w')"
proof (cases "acceptChannel w = wakeupChannel w")
  case True
  with handle_wakeup_ok [OF inv] c show ?thesis by (auto intro: safe_res_mono keeps_survives)
next
  case False
  let ?P = "\<lambda>w'. net_inv A {} rs w' \<and> keeps {} w w'" and ?Q = "\<lambda>w'. net_inv A {} rs w' \<and> survives {} w w'"
  have PQ: "?P w1 \<Longrightarrow> ?Q w1" for w1 by (simp add: keeps_survives)
  have fl: "?P (set_chan c ((chans w1 c)\<lparr>ch_eventHandling := b\<rparr>) w1)" if "?P w1" for w1 b
    using that net_inv_flag keeps_flag keeps_trans by blast
  have fl': "?Q (set_chan c ((chans w1 c)\<lparr>ch_eventHandling := b\<rparr>) w1)" if "?Q w1" for w1 b
    using that net_inv_flag survives_trans [OF _ keeps_survives [OF keeps_flag]] by blast
  have ch: "wakeupChannel w1 = wakeupChannel w \<and> acceptChannel w1 = acceptChannel w" if "?Q w1" for w1
    using that by (simp add: survives_def)
  have other: "safe (net_handler user c k w1) ?P" if "?P w1" "k \<noteq> On_read" for w1 k
    using that c False ch [OF PQ] by (auto simp: net_handler_def)
  have rd: "safe (net_handler user c On_read w1) ?Q" if "?P w1" for w1
  proof -
    have "safe (acceptor_handleRead user w1) ?Q"
      using that fresh by (intro safe_res_mono [OF acceptor_ok [of rs]])
        (auto intro: keeps_fresh survives_trans [OF keeps_survives])
    then show ?thesis using c False ch [OF PQ [OF that]] by (simp add: net_handler_def)
  qed
  have wr: "safe (net_handler user c On_write w1) ?Q" if "?Q w1" for w1
    using that c False ch [OF that] by (simp add: net_handler_def)
  show ?thesis
    by (rule handleEvent_stages [where P = ?P and B = ?P])
      (use fl fl' other rd wr PQ inv in \<open>simp_all\<close>)
qed

end

context net_app
begin

definition handling_ok :: "nat list \<Rightarrow> 'u net \<Rightarrow> bool" where
  "handling_ok cs w \<longleftrightarrow> net_inv A {} [] w \<and> distinct cs \<and> (acceptChannel w \<in> set cs \<longrightarrow> fresh_accept w) \<and>
     (\<forall>c \<in> set cs. c = wakeupChannel w \<or> c = acceptChannel w \<or>
        alive w c \<and> conn_open w c \<and> tcp_revents (ch_revents (chans w c)))"

lemma handling_ok_step:
  assumes "handling_ok (c # cs) w" and "net_inv A {} [] w'" and s: "survives {c} w w'"
    and "c \<noteq> acceptChannel w \<Longrightarrow> fresh_accept w \<Longrightarrow> fresh_accept w'"
  shows "handling_ok cs w'"
proof -
  have "alive w' d \<and> conn_open w' d \<and> tcp_revents (ch_revents (chans w' d))"
    if "d \<in> set cs" "d \<noteq> wakeupChannel w" "d \<noteq> acceptChannel w" for d
  proof -
    have d: "alive w d" "conn_open w d" "tcp_revents (ch_revents (chans w d))" "d \<noteq> c" "net_inv A {} [] w"
      using assms(1) that by (auto simp: handling_ok_def)
    from net_inv_alive [OF d(5,1)] d s show ?thesis by (simp add: survives_def)
  qed
  moreover have "wakeupChannel w' = wakeupChannel w" "acceptChannel w' = acceptChannel w" using s by (simp_all add: survives_def)
  moreover have "fresh_accept w'" if "acceptChannel w \<in> set cs"
  proof -
    have "c \<noteq> acceptChannel w" "fresh_accept w" using assms(1) that by (auto simp: handling_ok_def)
    then show ?thesis by (rule assms(4))
  qed
  ultimately show ?thesis using assms(1,2) unfolding handling_ok_def by auto
qed

lemma handle_active_ok:
  assumes h: "handling_ok (c # cs) w"
  shows "safe (handle_active (net_handler user) w c) (handling_ok cs)"
proof -
  let ?w = "w\<lparr>currentActiveChannel := Some c\<rparr>"
  have inv: "net_inv A {} [] ?w" using h
    by (auto simp: handling_ok_def same_chan_def intro: net_inv_fields)
  have h': "handling_ok (c # cs) ?w"
    using h inv by (auto simp: handling_ok_def conn_open_def fresh_accept_def conn_name_def split: sum.splits)
  have up: "survives {} ?w w' \<Longrightarrow> survives {c} ?w w'" for w' by (simp add: survives_def)
  consider "c = wakeupChannel w" | "c = acceptChannel w" "fresh_accept ?w"
    | "c \<noteq> acceptChannel w" "alive ?w c" "conn_open ?w c" "tcp_revents (ch_revents (chans ?w c))"
    using h' by (auto simp: handling_ok_def)
  then have "safe (handleEvent (net_handler user) c ?w) (handling_ok cs)"
  proof cases
    case 1
    then have w: "c = wakeupChannel ?w" by simp
    show ?thesis
      by (rule safe_res_mono [OF handle_wakeup_ok [OF inv w]])
        (auto intro!: handling_ok_step [OF h'] up [OF keeps_survives] intro: keeps_fresh)
  next
    case 2
    then have w: "c = acceptChannel ?w" by simp
    show ?thesis
      by (rule safe_res_mono [OF handle_acceptor_ok [OF inv w 2(2)]])
        (use w in \<open>intro handling_ok_step [OF h'] up, simp_all\<close>)
  next
    case 3
    show ?thesis
      by (rule safe_res_mono [OF handle_conn_ok [OF inv 3(2-4)]])
        (auto intro!: handling_ok_step [OF h'] keeps_survives intro: keeps_fresh)
  qed
  then show ?thesis by (simp add: handle_active_def)
qed

lemma loop_turn_ok:
  assumes "net_inv A {} [] w" and "wait_ok wait w" and "fresh_accept w"
  shows "safe (loop_turn (exec user) (net_handler user) wait w) (\<lambda>w'. net_inv A {} [] w' \<and> \<not> eventHandling w')"
proof -
  have run: "safe (run_all (handle_active (net_handler user)) w cs) (net_inv A {} [])" if "handling_ok cs w" for cs w
    using that
  proof (induction cs arbitrary: w)
    case (Cons c cs)
    show ?case unfolding run_all.simps by (rule safe_res_bind [OF handle_active_ok [OF Cons.prems] Cons.IH])
  qed (simp add: handling_ok_def)
  obtain w1 where w1: "poll_phase wait w = Inr w1" "handling_ok (activeChannels w1) w1"
    using poll_phase_ok [OF assms] by (auto simp: handling_ok_def)
  have "safe (doPendingFunctors (exec user) (handling_done w2)) (\<lambda>w'. net_inv A {} [] w' \<and> \<not> eventHandling w')"
    if "net_inv A {} [] w2" for w2 :: "'u net"
    by (rule doPendingFunctors_ok)
      (use that in \<open>auto simp: handling_done_def same_chan_def intro: net_inv_fields\<close>)
  then show ?thesis
    by (auto simp: loop_turn_def w1(1) intro: safe_res_bind [OF run [OF w1(2)]])
qed

end

section \<open>The last owner\<close>

text \<open>
  Once the functor that removes its channel has run, a closed connection that no functor refers to can be deleted: its
  destructor and that of its channel find what they assert.
\<close>

lemma delete_TcpConnection_ok:
  assumes inv: "net_inv A {} [] w" and c: "alive w c" "\<not> conn_open w c" "\<not> registered w c"
    and "\<not> ch_eventHandling (chans w c)"
  shows "delete_TcpConnection c w = Inr (w\<lparr>alive := (alive w)(c := False)\<rparr>)"
proof -
  note ok = net_invD(8) [OF inv c(1)]
  from ok c(2,3) have "c_state (conns w c) = kDisconnected" "\<not> addedToLoop (chans w c)" "c_channel (conns w c) = c"
    by (auto simp: conn_ok_def split: if_splits)
  with assms show ?thesis
    by (auto simp: delete_TcpConnection_def delete_Channel_def hasChannel_def assertInLoopThread_def net_invD(2) registered_def)
qed

end
