(* ===== verification/Mu_Codec.thy ===== *)
theory Mu_Codec
  imports Fcgi_Codec
begin

text \<open>
  The FastCGI codec of mucgi (\<^verbatim>\<open>mucgi/fastcgi.h\<close> and \<^verbatim>\<open>mucgi/fastcgi.cpp\<close>). It is
  the muduo original of the codec of cocgi: the input buffer belongs to the connection and is
  an argument, the byte order is converted by \<open>sockets::hostToNetwork16\<close>, and a complete
  request is handed to a callback by \<open>onMessage\<close>. The buffer class of mucgi is the class of
  cocgi up to the names of the conversion functions, which theory \<open>Endian\<close> proves equal, so
  theory \<open>Buffer\<close> models both.
\<close>

section \<open>State\<close>

record mu_codec =
  gotRequest :: bool
  keepConn :: bool
  stdin_buf :: buffer
  paramsStream :: buffer
  params :: param_map

definition new_mu_codec :: mu_codec where
  "new_mu_codec =
     \<lparr>gotRequest = False, keepConn = False, stdin_buf = new_Buffer kInitialSize,
      paramsStream = new_Buffer kInitialSize, params = Map.empty\<rparr>"

section \<open>Parsing\<close>

definition mu_readLen :: "buffer \<Rightarrow> (32 word \<times> buffer) res" where
  "mu_readLen b =
     (if readableBytes b \<ge> 1 then
        bind_res (peekInt8 b) (\<lambda>byte.
          if byte AND 0x80 \<noteq> 0 then
            (if readableBytes b \<ge> 4
             then bind_res (readInt32 b) (\<lambda>(x, b'). Inr (x AND 0x7fffffff, b'))
             else Inr (-1, b))
          else bind_res (readInt8 b) (\<lambda>(x, b'). Inr (scast x, b')))
      else Inr (-1, b))"

lemma mu_readLen_eq: "mu_readLen = readLen"
  by (simp add: fun_eq_iff mu_readLen_def readLen_def)

function mu_params_loop :: "buffer \<Rightarrow> param_map \<Rightarrow> (bool \<times> buffer \<times> param_map) res" where
  "mu_params_loop b m =
     (if readableBytes b > 0 then
        bind_res (mu_readLen b) (\<lambda>(nameLen, b1).
          if nameLen = -1 then Inr (False, b1, m)
          else bind_res (mu_readLen b1) (\<lambda>(valueLen, b2).
            if valueLen = -1 then Inr (False, b2, m)
            else if readableBytes b2 \<ge> unat (nameLen + valueLen) then
              bind_res (retrieveAsString b2 (unat nameLen)) (\<lambda>(name, b3).
                bind_res (retrieveAsString b3 (unat valueLen)) (\<lambda>(value, b4).
                  mu_params_loop b4 (m(name \<mapsto> value))))
            else Inr (False, b2, m)))
      else Inr (True, b, m))"
  by pat_completeness auto
termination
  by (relation "measure (\<lambda>(b, m). readableBytes b)")
    (fastforce simp: mu_readLen_eq dest!: readLen_decreases retrieveAsString_readable)+

declare mu_params_loop.simps [simp del]

lemma mu_params_loop_eq: "mu_params_loop b m = params_loop b m"
proof (induction b m rule: params_loop.induct)
  case (1 b m)
  show ?case
    unfolding mu_params_loop.simps [of b m] params_loop.simps [of b m] mu_readLen_eq
    by (intro if_cong refl bind_res_cong) (auto intro!: bind_res_cong 1 split: prod.splits)
qed

definition mu_parseAllParams :: "mu_codec \<Rightarrow> (bool \<times> mu_codec) res" where
  "mu_parseAllParams st =
     bind_res (mu_params_loop (paramsStream st) (params st))
       (\<lambda>(ok, b, m). Inr (ok, st\<lparr>paramsStream := b, params := m\<rparr>))"

definition mu_onParams :: "mu_codec \<Rightarrow> bytes \<Rightarrow> 16 word \<Rightarrow> (bool \<times> mu_codec) res" where
  "mu_onParams st data len =
     (if len > 0 then
        bind_res (append_buf (paramsStream st) (take (unat len) data))
          (\<lambda>b. Inr (True, st\<lparr>paramsStream := b\<rparr>))
      else bind_res (mu_parseAllParams st)
        (\<lambda>(ok, st'). if \<not> ok then Inr (False, st') else Inr (True, st')))"

definition mu_onStdin :: "mu_codec \<Rightarrow> bytes \<Rightarrow> 16 word \<Rightarrow> mu_codec res" where
  "mu_onStdin st data len =
     (if len > 0 then
        bind_res (append_buf (stdin_buf st) (take (unat len) data))
          (\<lambda>b. Inr (st\<lparr>stdin_buf := b\<rparr>))
      else Inr (st\<lparr>gotRequest := True\<rparr>))"

definition mu_readInt16_at :: "bytes \<Rightarrow> 16 word" where
  "mu_readInt16_at p = networkToHost16 (le_load (take 2 p))"

definition mu_onBeginRequest :: "mu_codec \<Rightarrow> FcgiRecordHeader \<Rightarrow> buffer \<Rightarrow> (bool \<times> mu_codec) res" where
  "mu_onBeginRequest st header buf =
     assert_res (readableBytes buf \<ge> unat (h_length header))
      (assert_res (h_type header = type_code kFcgiBeginRequest)
        (if unat (h_length header) \<ge> kRecordHeader then
           let role = mu_readInt16_at (drop kRecordHeader (peek buf));
               flags = byte_of (peek buf ! (kRecordHeader + 2))
           in if role = role_code kFcgiResponder
              then Inr (True, st\<lparr>keepConn := (flags = kFcgiKeepConn)\<rparr>)
              else Inr (False, st)
         else Inr (False, st)))"

definition mu_dispatch :: "mu_codec \<Rightarrow> FcgiRecordHeader \<Rightarrow> buffer \<Rightarrow> mu_codec res" where
  "mu_dispatch st header buf =
     (let data = drop kRecordHeader (peek buf)
      in if h_type header = type_code kFcgiBeginRequest
         then bind_res (mu_onBeginRequest st header buf) (\<lambda>(_, st'). Inr st')
         else if h_type header = type_code kFcgiParams
         then bind_res (mu_onParams st data (h_length header)) (\<lambda>(_, st'). Inr st')
         else if h_type header = type_code kFcgiStdin
         then mu_onStdin st data (h_length header)
         else Inr st)"

function parseRequest :: "mu_codec \<Rightarrow> buffer \<Rightarrow> (mu_codec \<times> buffer) res" where
  "parseRequest st buf =
     (if readableBytes buf \<ge> kRecordHeader then
        let raw = load_header (take kRecordHeader (peek buf));
            header = raw\<lparr>h_id := networkToHost16 (h_id raw), h_length := networkToHost16 (h_length raw)\<rparr>;
            total = record_total header
        in if readableBytes buf \<ge> total then
             bind_res (mu_dispatch st header buf) (\<lambda>st1.
               bind_res (retrieve buf total) (\<lambda>buf1. parseRequest st1 buf1))
           else Inr (st, buf)
      else Inr (st, buf))"
  by pat_completeness auto
termination
  by (relation "measure (\<lambda>(st, buf). readableBytes buf)")
    (auto simp: record_total_def kRecordHeader_def dest!: retrieve_readable)

declare parseRequest.simps [simp del]

section \<open>Building the response\<close>

definition mu_stdout_header :: "16 word \<Rightarrow> 8 word \<Rightarrow> FcgiRecordHeader" where
  "mu_stdout_header len padding =
     \<lparr>h_version = 1, h_type = type_code kFcgiStdout, h_id = hostToNetwork16 1, h_length = len,
      h_padding = padding, h_unused = 0\<rparr>"

definition mu_endStdout :: "buffer \<Rightarrow> buffer res" where
  "mu_endStdout buf = append_buf buf (header_bytes (mu_stdout_header 0 0))"

definition mu_endRequest :: "buffer \<Rightarrow> buffer res" where
  "mu_endRequest buf =
     (let header = \<lparr>h_version = 1, h_type = type_code kFcgiEndRequest, h_id = hostToNetwork16 1,
                    h_length = hostToNetwork16 (of_nat kRecordHeader), h_padding = 0, h_unused = 0\<rparr>
      in bind_res (append_buf buf (header_bytes header))
           (\<lambda>b1. bind_res (appendInt32 b1 0) (\<lambda>b2. appendInt32 b2 0)))"

definition mu_append_stdout :: "buffer \<Rightarrow> 16 word \<Rightarrow> 8 word \<Rightarrow> string \<Rightarrow> buffer res" where
  "mu_append_stdout response slength padding text =
     bind_res (append_buf response (header_bytes (mu_stdout_header slength padding))) (\<lambda>b1.
       bind_res (append_piece b1 (StringPiece_of_string text)) (\<lambda>b2.
         append_buf b2 (take (unat padding) (replicate 8 (CHR 0x00)))))"

definition FCGI_MAX_LENGTH :: nat where "FCGI_MAX_LENGTH = 0xffff"

definition mu_respond :: "string \<Rightarrow> buffer \<Rightarrow> (string \<times> buffer) res" where
  "mu_respond out0 response =
     (let out = (if out0 = [] then
                   let content = ''Empty Result!''
                   in ''Content-Type: text/html; charset=UTF-8'' @ crlf
                      @ ''Content-Length: '' @ dec_string (length content) @ crlf @ crlf @ content
                 else out0);
          body =
            (if length out \<le> FCGI_MAX_LENGTH then
               mu_append_stdout response (hostToNetwork16 (of_nat (length out))) (pad_len (length out)) out
             else
               let numSubstrings = length out div FCGI_MAX_LENGTH
               in bind_res
                 (foldl (\<lambda>acc i. bind_res acc (\<lambda>b.
                      bind_res (str_substr out (i * FCGI_MAX_LENGTH) (Some FCGI_MAX_LENGTH))
                        (\<lambda>outSubString.
                          mu_append_stdout b (hostToNetwork16 (of_nat FCGI_MAX_LENGTH))
                            (ucast ((- of_nat FCGI_MAX_LENGTH :: 32 word) AND 7)) outSubString)))
                    (Inr response) [0..<numSubstrings])
                 (\<lambda>b. if length out mod FCGI_MAX_LENGTH \<noteq> 0 then
                    bind_res (str_substr out (FCGI_MAX_LENGTH * numSubstrings) None)
                      (\<lambda>outSubString.
                        mu_append_stdout b (hostToNetwork16 (of_nat (length outSubString)))
                          (pad_len (length outSubString)) outSubString)
                    else Inr b))
      in bind_res body (\<lambda>b. bind_res (mu_endStdout b) (\<lambda>b1. bind_res (mu_endRequest b1)
           (\<lambda>b2. Inr (out, b2)))))"

section \<open>Handling a message\<close>

text \<open>
  What the codec and its callback do to the connection. The callback object is the argument
  \<open>cb\<close>: it may change the parameters and the input it is given by reference.
\<close>

datatype conn_action = Send bytes | Shutdown

type_synonym request_callback =
  "param_map \<Rightarrow> buffer \<Rightarrow> (conn_action list \<times> param_map \<times> buffer) res"

definition onMessage ::
  "request_callback \<Rightarrow> mu_codec \<Rightarrow> buffer \<Rightarrow> (conn_action list \<times> mu_codec \<times> buffer) res" where
  "onMessage cb st0 buf0 =
     bind_res (parseRequest st0 buf0) (\<lambda>(st, buf).
       if gotRequest st then
         bind_res (cb (params st) (stdin_buf st)) (\<lambda>(acts, params1, stdin1).
           let st1 = st\<lparr>stdin_buf := retrieveAll stdin1, paramsStream := retrieveAll (paramsStream st),
                        params := Map.empty, gotRequest := False\<rparr>
           in Inr (acts @ (if \<not> keepConn st1 then [Shutdown] else []), st1, buf))
       else Inr ([], st, buf))"

section \<open>The two codecs are equivalent\<close>


definition mu_of :: "codec \<Rightarrow> mu_codec" where
  "mu_of st =
     \<lparr>gotRequest = m_gotRequest st, keepConn = m_keepConn st, stdin_buf = m_stdin st,
      paramsStream = m_paramsStream st, params = m_params st\<rparr>"

lemma mu_dispatch_eq: "mu_dispatch (mu_of st) h (m_buf st) = bind_res (dispatch st h) (\<lambda>st'. Inr (mu_of st'))"
  by (auto simp: mu_dispatch_def dispatch_def Let_def mu_onBeginRequest_def onBeginRequest_def
      mu_onParams_def onParams_def mu_onStdin_def onStdin_def mu_parseAllParams_def parseAllParams_def
      mu_readInt16_at_def readInt16_at_def mu_order_eq mu_params_loop_eq mu_of_def bind_res_assoc
      assert_res_def bind_res_def split: sum.splits)

lemma parseRequest_eq:
  "parseRequest (mu_of st) (m_buf st) = bind_res (parseFcgiPackage st) (\<lambda>st'. Inr (mu_of st', m_buf st'))"
proof (induction st rule: parseFcgiPackage.induct)
  case (1 st)
  let ?raw = "load_header (take kRecordHeader (peek (m_buf st)))"
  let ?h = "?raw\<lparr>h_id := hton16 (h_id ?raw), h_length := hton16 (h_length ?raw)\<rparr>"
  show ?case
  proof (cases "kRecordHeader \<le> readableBytes (m_buf st) \<and> record_total ?h \<le> readableBytes (m_buf st)")
    case False
    then show ?thesis
      unfolding parseRequest.simps [of "mu_of st"] parseFcgiPackage.simps [of st] mu_order_eq Let_def
      by auto
  next
    case True
    have rec: "parseRequest (mu_of st1) b
        = bind_res (parseFcgiPackage (st1\<lparr>m_buf := b\<rparr>)) (\<lambda>st'. Inr (mu_of st', m_buf st'))"
      if "dispatch st ?h = Inr st1" "retrieve (m_buf st1) (record_total ?h) = Inr b" for st1 b
      using 1 [OF _ refl refl refl _ that] True by (simp add: mu_of_def)
    have "parseRequest (mu_of st) (m_buf st) = bind_res (dispatch st ?h) (\<lambda>st1.
        bind_res (retrieve (m_buf st) (record_total ?h)) (\<lambda>b. parseRequest (mu_of st1) b))"
      using True
      unfolding parseRequest.simps [of "mu_of st"] mu_order_eq Let_def mu_dispatch_eq bind_res_assoc
      by simp
    also have "\<dots> = bind_res (dispatch st ?h) (\<lambda>st1.
        bind_res (retrieve (m_buf st1) (record_total ?h)) (\<lambda>b.
          bind_res (parseFcgiPackage (st1\<lparr>m_buf := b\<rparr>)) (\<lambda>st'. Inr (mu_of st', m_buf st'))))"
      by (intro bind_res_cong refl) (auto dest: dispatch_m_buf intro!: bind_res_cong rec)
    finally show ?thesis
      using True unfolding parseFcgiPackage.simps [of st] Let_def by (simp add: bind_res_assoc)
  qed
qed

lemma mu_response_eq:
  "FCGI_MAX_LENGTH = FCGI_MAX_CONTENT_LENGTH" "mu_append_stdout = append_stdout"
  "mu_endStdout = endStdout" "mu_endRequest = endRequest"
  by (simp_all add: fun_eq_iff FCGI_MAX_LENGTH_def FCGI_MAX_CONTENT_LENGTH_def mu_append_stdout_def
      append_stdout_def mu_stdout_header_def stdout_header_def mu_endStdout_def endStdout_def
      mu_endRequest_def endRequest_def mu_order_eq)

lemma mu_respond_eq: "mu_respond out buf = respond out buf"
  unfolding mu_respond_def respond_def mu_response_eq mu_order_eq response_text_def empty_result_def
  by (rule refl)

section \<open>Receiving\<close>

definition mu_rel :: "fcgi_state \<Rightarrow> bytes \<Rightarrow> mu_codec \<times> buffer \<Rightarrow> bool" where
  "mu_rel s bs p \<longleftrightarrow>
     gotRequest (fst p) = s_got s \<and> keepConn (fst p) = s_keep s \<and> holds (s_stdin s) (stdin_buf (fst p)) \<and>
     holds (s_stream s) (paramsStream (fst p)) \<and> params (fst p) = s_params s \<and> holds bs (snd p)"

definition co_of :: "mu_codec \<times> buffer \<Rightarrow> codec" where
  "co_of p = \<lparr>m_gotRequest = gotRequest (fst p), m_keepConn = keepConn (fst p), m_buf = snd p,
     m_stdin = stdin_buf (fst p), m_paramsStream = paramsStream (fst p), m_params = params (fst p)\<rparr>"

lemma mu_rel_co_of: "mu_rel s bs p \<longleftrightarrow> codec_rel s bs (co_of p)"
  by (simp add: mu_rel_def codec_rel_def co_of_def)

lemma co_of_inverse [simp]: "mu_of (co_of p) = fst p" "m_buf (co_of p) = snd p"
  "co_of (mu_of st, m_buf st) = st"
  by (simp_all add: co_of_def mu_of_def)

lemma mu_rel_new [simp]: "mu_rel init_state [] (new_mu_codec, new_Buffer kInitialSize)"
  by (simp add: mu_rel_def init_state_def new_mu_codec_def)

lemma parseRequest_spec:
  assumes "mu_rel s bs (st, buf)"
  shows "res_ok (parseRequest st buf) (mu_rel (fst (fcgi_run s bs)) (snd (fcgi_run s bs)))"
proof -
  from assms have "codec_rel s bs (co_of (st, buf))" by (simp add: mu_rel_co_of)
  from parseFcgiPackage_spec [OF this] parseRequest_eq [of "co_of (st, buf)"] show ?thesis
    by (auto simp: mu_rel_co_of)
qed

text \<open>
  The input side of \<open>TcpConnection::handleRead\<close>: the bytes enter the input buffer of the
  connection and the message callback parses it.
\<close>

definition mu_receive :: "mu_codec \<times> buffer \<Rightarrow> bytes \<Rightarrow> (mu_codec \<times> buffer) res" where
  "mu_receive p data =
     bind_res (readFd (\<lambda>_. Inr data) (snd p)) (\<lambda>(_, b). parseRequest (fst p) b)"

interpretation mu: fcgi_decoder mu_rel mu_receive
proof
  fix s bs p data
  assume rel: "mu_rel s bs p"
  then have "holds bs (snd p)" by (simp add: mu_rel_def)
  from holds_readFd [OF this, of "\<lambda>_. Inr data" data, OF refl] obtain n b
    where b: "readFd (\<lambda>_. Inr data) (snd p) = Inr (n, b)" "holds (bs @ data) b"
    by (auto simp: res_ok_def)
  with rel have "mu_rel s (bs @ data) (fst p, b)" by (simp add: mu_rel_def)
  from parseRequest_spec [OF this] b(1)
  show "res_ok (mu_receive p data)
      (mu_rel (fst (fcgi_run s (bs @ data))) (snd (fcgi_run s (bs @ data))))"
    by (simp add: mu_receive_def)
qed

section \<open>The message handler\<close>

text \<open>
  The callback runs exactly when the input completes a request, on the parameters and the
  input of that request; afterwards the codec is ready for the next request.
\<close>

lemma onMessage_spec:
  assumes "mu_rel s bs (st, buf)"
  shows "\<exists>st1 buf1. parseRequest st buf = Inr (st1, buf1) \<and>
    mu_rel (fst (fcgi_run s bs)) (snd (fcgi_run s bs)) (st1, buf1) \<and>
    onMessage cb st buf =
      (if s_got (fst (fcgi_run s bs)) then
         bind_res (cb (s_params (fst (fcgi_run s bs))) (stdin_buf st1)) (\<lambda>(acts, params1, stdin1).
           Inr (acts @ (if s_keep (fst (fcgi_run s bs)) then [] else [Shutdown]),
                st1\<lparr>stdin_buf := retrieveAll stdin1, paramsStream := retrieveAll (paramsStream st1),
                    params := Map.empty, gotRequest := False\<rparr>, buf1))
       else Inr ([], st1, buf1))"
proof -
  obtain st1 buf1 where p: "parseRequest st buf = Inr (st1, buf1)"
      "mu_rel (fst (fcgi_run s bs)) (snd (fcgi_run s bs)) (st1, buf1)"
    using parseRequest_spec [OF assms] by (auto simp: res_ok_def)
  then show ?thesis
    by (auto simp: onMessage_def mu_rel_def Let_def intro!: bind_res_cong)
qed

section \<open>Properties\<close>

text \<open>
  C9. The two programs implement one codec: from the same state and the same input the parsers
  of cocgi and mucgi fail alike or end in the same state with the same bytes left, and they
  answer with the same bytes.
\<close>

theorem codecs_equivalent:
  "parseRequest (mu_of st) (m_buf st) =
     bind_res (parseFcgiPackage st) (\<lambda>st'. Inr (mu_of st', m_buf st')) \<and>
   mu_respond out response = respond out response"
  by (simp add: parseRequest_eq mu_respond_eq)

text \<open>
  The codec of mucgi refines the protocol for every input and every cut of it into reads.
\<close>

lemma mu_codec_refines_protocol:
  "res_ok (run_all mu_receive (new_mu_codec, new_Buffer kInitialSize) ds)
     (mu_rel (fst (fcgi_run init_state (concat ds))) (snd (fcgi_run init_state (concat ds))))"
  by (rule mu.receive_stream) simp

end
