(* ===== verification/Mu_Main.thy ===== *)
theory Mu_Main
  imports Mu_Codec Co_Request
begin

text \<open>
  The request handler of mucgi (\<^verbatim>\<open>mucgi/main.cpp\<close>, \<^verbatim>\<open>mucgi/backend.cpp\<close>): the
  callback that \<open>onConnection\<close> gives to the codec of a connection, and the codec with its
  callback as the message handler of the connection. Logging is not modelled.
\<close>

section \<open>The callback\<close>

definition tolower :: "char \<Rightarrow> char" where
  "tolower c = (if 65 \<le> (of_char c :: nat) \<and> of_char c \<le> (90 :: nat) then char_of (of_char c + 32 :: nat) else c)"

definition mu_printRequest :: "param_map \<Rightarrow> param_map \<Rightarrow> string" where
  "mu_printRequest qmap header =
     (let content = ''OK!!'';
          resp = ''Content-Type: text/html; charset=UTF-8'' @ crlf;
          resp = resp @ ''Content-Length: '';
          resp = resp @ [char_of (length content)];
          resp = resp @ crlf @ crlf
      in resp @ content)"

text \<open>\<open>insert\<close> keeps the first value of a key; the names of files are not lower-cased.\<close>

definition mu_qmap :: "Cgicc \<Rightarrow> param_map" where
  "mu_qmap cgi =
     (let qmap = foldl (\<lambda>m e. map_insert m (map tolower (entry_name e)) (entry_value e)) Map.empty (fFormData cgi)
      in foldl (\<lambda>m f. map_insert m (file_name f) (file_data f)) qmap (fFormFiles cgi))"

definition mu_header :: "param_map \<Rightarrow> Cgicc \<Rightarrow> param_map" where
  "mu_header prm cgi = map_assign prm (map (\<lambda>c. (ck_name c, ck_value c)) (fCookies cgi))"

definition onRequest :: request_callback where
  "onRequest prm input =
     (let (queryString, m1) = map_index prm ''QUERY_STRING'';
          (queryType, m2) = map_index m1 ''CONTENT_TYPE'';
          (queryCookie, m3) = map_index m2 ''HTTP_COOKIE''
      in bind_res
           (if readableBytes input > 0 then retrieveAllAsString input else Inr ([], input)) (\<lambda>(postData, input1).
         bind_res (new_Cgicc queryString queryCookie postData queryType) (\<lambda>cgi.
         let res = mu_printRequest (mu_qmap cgi) (mu_header m3 cgi)
         in bind_res (mu_respond res (new_Buffer kInitialSize)) (\<lambda>(_, response).
              Inr ([Send (content response)], m3, input1)))))"

text \<open>
  What a connection does with the bytes of one read event, after \<open>onConnection\<close> has set a codec
  with this callback as its message handler.
\<close>

definition mu_message ::
  "conn_action list \<times> mu_codec \<times> buffer \<Rightarrow> bytes \<Rightarrow> (conn_action list \<times> mu_codec \<times> buffer) res" where
  "mu_message p data =
     (case p of (acts, st, buf) \<Rightarrow>
        bind_res (readFd (\<lambda>_. Inr data) buf) (\<lambda>(_, buf1).
          bind_res (onMessage onRequest st buf1) (\<lambda>(acts1, st1, buf2). Inr (acts @ acts1, st1, buf2))))"

section \<open>Serving a request\<close>

lemma mu_printRequest_page: "mu_printRequest q h = page"
  by (simp add: page_def printRequest_def mu_printRequest_def)

lemma onRequest_spec:
  assumes "holds input buf"
  shows "\<exists>m3 buf1. buffer_inv buf1 \<and> onRequest prm buf =
    bind_res (new_Cgicc (param_of prm ''QUERY_STRING'') (param_of prm ''HTTP_COOKIE'')
        input (param_of prm ''CONTENT_TYPE''))
      (\<lambda>cgi. Inr ([Send page_bytes], m3, buf1))"
proof -
  obtain response where resp: "respond page (new_Buffer kInitialSize) = Inr (page, response)"
      "holds page_bytes response"
    using respond_spec [OF holds_new_Buffer [of kInitialSize], of page]
    by (auto simp: res_ok_def page_not_Nil page_bytes_def)
  obtain buf1 where buf1: "(if readableBytes buf > 0 then retrieveAllAsString buf
      else Inr ([], buf)) = Inr (input, buf1)" "buffer_inv buf1"
    using assms holds_retrieveAllAsString [OF assms]
    by (cases "input = []") (auto simp: holds_readable holds_def)
  have "content response = page_bytes" using resp(2) by (simp add: holds_def)
  with resp buf1 show ?thesis
    by (intro exI [of _ "snd (map_index (snd (map_index (snd (map_index prm ''QUERY_STRING''))
          ''CONTENT_TYPE'')) ''HTTP_COOKIE'')"] exI [of _ buf1] conjI)
      (simp_all add: onRequest_def Let_def split_beta map_index_fst mu_printRequest_page mu_respond_eq)
qed

text \<open>One read event, by the state of the protocol after it.\<close>

lemma mu_message_spec:
  assumes "mu_rel s bs (st, buf)"
    and s'_def: "s' = fst (fcgi_run s (bs @ data))" and rest_def: "rest = snd (fcgi_run s (bs @ data))"
  shows "if s_got s'
    then \<exists>st' buf'. mu_rel (idle_state (s_keep s')) rest (st', buf') \<and>
      mu_message (acts, st, buf) data = bind_res (handled s')
        (\<lambda>_. Inr (acts @ [Send page_bytes] @ (if s_keep s' then [] else [Shutdown]), st', buf'))
    else \<exists>st' buf'. mu_rel s' rest (st', buf') \<and> mu_message (acts, st, buf) data = Inr (acts, st', buf')"
proof -
  from assms(1) have "holds bs buf" by (simp add: mu_rel_def)
  from holds_readFd [OF this, of "\<lambda>_. Inr data" data, OF refl] obtain n b
    where b: "readFd (\<lambda>_. Inr data) buf = Inr (n, b)" "holds (bs @ data) b"
    by (auto simp: res_ok_def)
  with assms(1) have "mu_rel s (bs @ data) (st, b)" by (simp add: mu_rel_def)
  from onMessage_spec [OF this, of onRequest] obtain st1 buf1
    where m: "mu_rel s' rest (st1, buf1)" "onMessage onRequest st b =
      (if s_got s' then bind_res (onRequest (s_params s') (stdin_buf st1)) (\<lambda>(acts, params1, stdin1).
           Inr (acts @ (if s_keep s' then [] else [Shutdown]),
                st1\<lparr>stdin_buf := retrieveAll stdin1, paramsStream := retrieveAll (paramsStream st1),
                    params := Map.empty, gotRequest := False\<rparr>, buf1))
       else Inr ([], st1, buf1))"
    by (auto simp: s'_def rest_def)
  show ?thesis
  proof (cases "s_got s'")
    case False
    with m b show ?thesis by (simp add: mu_message_def)
  next
    case True
    have "holds (s_stdin s') (stdin_buf st1)" using m(1) by (simp add: mu_rel_def)
    from onRequest_spec [OF this, of "s_params s'"] obtain m3 stdin1
      where r: "buffer_inv stdin1" "onRequest (s_params s') (stdin_buf st1)
        = bind_res (handled s') (\<lambda>cgi. Inr ([Send page_bytes], m3, stdin1))"
      by (auto simp: handled_def)
    let ?st = "st1\<lparr>stdin_buf := retrieveAll stdin1, paramsStream := retrieveAll (paramsStream st1),
                    params := Map.empty, gotRequest := False\<rparr>"
    have "mu_rel (idle_state (s_keep s')) rest (?st, buf1)"
      using m(1) holds_retrieveAll [OF holdsI [OF r(1) refl]]
      by (auto simp: mu_rel_def idle_state_def init_state_def intro: holds_retrieveAll)
    moreover have "mu_message (acts, st, buf) data = bind_res (handled s')
        (\<lambda>_. Inr (acts @ [Send page_bytes] @ (if s_keep s' then [] else [Shutdown]), ?st, buf1))"
      using True b(1) m(2) r(2) by (cases "handled s'") (simp_all add: mu_message_def)
    ultimately show ?thesis using True by (simp only: if_True) blast
  qed
qed


lemma mu_request_events:
  assumes "concat (map encode_record rs) = p @ concat ds" and "\<forall>r \<in> set rs. wf_record r"
    and "map record_part rs = request_parts body ps ss" and "[] \<notin> set ss" and "[] \<notin> set ds" and "ds \<noteq> []"
    and "mu_rel (fst (fcgi_run init_state p)) (snd (fcgi_run init_state p)) (st, buf)"
    and "s' = foldl fcgi_step init_state rs" and "s_got s'" and "handled s' = Inr cgi"
  shows "\<exists>st' buf'. run_all mu_message (acts, st, buf) ds =
      Inr (acts @ [Send page_bytes] @ (if s_keep s' then [] else [Shutdown]), st', buf') \<and>
    mu_rel (idle_state (s_keep s')) [] (st', buf')"
  using assms(1,5,6,7)
proof (induction ds arbitrary: p st buf)
  case Nil
  then show ?case by simp
next
  case (Cons d ds)
  let ?s = "fst (fcgi_run init_state p)" and ?bs = "snd (fcgi_run init_state p)"
  have run: "fcgi_run ?s (?bs @ d) = fcgi_run init_state (p @ d)" by (rule fcgi_run_append [symmetric])
  note step = mu_message_spec [OF Cons.prems(4) refl refl, of d acts, unfolded run]
  show ?case
  proof (cases "ds = []")
    case True
    with Cons.prems(1) have "wire_records (p @ d) = (rs, [])"
      using wire_records_encode [OF assms(2), of "[]"] by (simp add: complete_def)
    then have "fcgi_run init_state (p @ d) = (s', [])" by (simp add: fcgi_run_def assms(8))
    with step assms(9,10) obtain st1 buf1 where "mu_rel (idle_state (s_keep s')) [] (st1, buf1)"
      "mu_message (acts, st, buf) d
        = Inr (acts @ [Send page_bytes] @ (if s_keep s' then [] else [Shutdown]), st1, buf1)"
      by (simp only: if_True fst_conv snd_conv bind_res_simps) blast
    with True show ?thesis by simp
  next
    case False
    with Cons.prems(2) have "concat ds \<noteq> []" by (cases ds) auto
    with Cons.prems(1) have "\<not> s_got (fst (fcgi_run init_state (p @ d)))"
      by (intro proper_prefix_incomplete [OF _ _ assms(2,3,4)]) auto
    with step obtain st1 buf1 where st1: "mu_message (acts, st, buf) d = Inr (acts, st1, buf1)"
      "mu_rel (fst (fcgi_run init_state (p @ d))) (snd (fcgi_run init_state (p @ d))) (st1, buf1)"
      by (simp only: if_False) blast
    have "concat (map encode_record rs) = (p @ d) @ concat ds" "[] \<notin> set ds" using Cons.prems(1,2) by auto
    from Cons.IH [OF this False st1(2)] st1(1) show ?thesis by simp
  qed
qed

section \<open>Properties\<close>



end
