(* ===== verification/Mu_Server.thy ===== *)
theory Mu_Server
  imports Mu_Safe Mu_Main
begin

text \<open>
  mucgi as a whole: the callbacks of \<^verbatim>\<open>mucgi/main.cpp\<close> as the user code of the connections. The
  data of the program is the codec of each connection. The reactor with these callbacks never fails an
  assertion, and the answer to a request reaches the socket.
\<close>

section \<open>The callbacks\<close>

text \<open>\<open>conn->send\<close> in the loop thread.\<close>

definition conn_send :: "nat \<Rightarrow> bytes \<Rightarrow> 'u net \<Rightarrow> 'u net res" where
  "conn_send c data w = (if c_state (conns w c) = kConnected then sendInLoop c data w else Inr w)"

lemma send_Buffer_in_loop:
  assumes "isInLoopThread w" and "holds data buf"
  shows "send_Buffer c buf w = bind_res (conn_send c data w)
    (\<lambda>w1. Inr (if c_state (conns w c) = kConnected then retrieveAll buf else buf, w1))"
  using assms take_peek [of buf] by (auto simp: send_Buffer_def conn_send_def holds_def)

fun run_action :: "nat \<Rightarrow> 'u net \<Rightarrow> conn_action \<Rightarrow> 'u net res" where
  "run_action c w (Send data) = conn_send c data w"
| "run_action c w Shutdown = shutdown c w"

type_synonym mu_net = "(nat \<rightharpoonup> mu_codec) net"

definition onConnection :: "nat \<Rightarrow> mu_net \<Rightarrow> mu_net res" where
  "onConnection c w =
     (if c_state (conns w c) = kConnected
      then Inr (setTcpNoDelay c True (w\<lparr>app_data := (app_data w)(c \<mapsto> new_mu_codec)\<rparr>))
      else Inr w)"

text \<open>A connection without a codec has the default message callback, which drops the input.\<close>

definition on_input :: "nat \<Rightarrow> mu_net \<Rightarrow> mu_net res" where
  "on_input c w =
     (case app_data w c of
        None \<Rightarrow> Inr (set_conn c ((conns w c)\<lparr>inputBuffer := retrieveAll (inputBuffer (conns w c))\<rparr>) w)
      | Some st \<Rightarrow>
          bind_res (onMessage onRequest st (inputBuffer (conns w c))) (\<lambda>(acts, st1, buf1).
            run_all (run_action c)
              ((set_conn c ((conns w c)\<lparr>inputBuffer := buf1\<rparr>) w)\<lparr>app_data := (app_data w)(c \<mapsto> st1)\<rparr>) acts))"

fun mu_user :: "callback \<Rightarrow> mu_net \<Rightarrow> mu_net res" where
  "mu_user (Connection_cb c) w = onConnection c w"
| "mu_user (Message_cb c) w = on_input c w"
| "mu_user (WriteComplete_cb c) w = Inr w"
| "mu_user (HighWaterMark_cb c n) w = Inr w"

section \<open>The callbacks keep the invariant\<close>

definition codec_ok :: "mu_codec \<Rightarrow> bool" where
  "codec_ok st \<longleftrightarrow> buffer_inv (stdin_buf st) \<and> buffer_inv (paramsStream st)"

definition codecs_ok :: "(nat \<rightharpoonup> mu_codec) \<Rightarrow> bool" where
  "codecs_ok m \<longleftrightarrow> (\<forall>c st. m c = Some st \<longrightarrow> codec_ok st)"

definition form_fault :: "cxx_fault \<Rightarrow> bool" where
  "form_fault e \<longleftrightarrow> e = Runtime_error ''Malformed input''"

lemma codec_ok_rel:
  assumes "codec_ok st" and "buffer_inv buf"
  shows "\<exists>s. mu_rel s (content buf) (st, buf)"
  using assms
  by (intro exI [of _ "\<lparr>s_got = gotRequest st, s_keep = keepConn st, s_stdin = content (stdin_buf st),
      s_stream = content (paramsStream st), s_params = params st\<rparr>"])
    (auto simp: codec_ok_def mu_rel_def)

lemma mu_rel_codec_ok: "mu_rel s bs (st, buf) \<Longrightarrow> codec_ok st \<and> buffer_inv buf"
  by (auto simp: mu_rel_def codec_ok_def holds_def)

lemma onMessage_safe:
  assumes "mu_rel s bs (st, buf)"
  shows "safe_res form_fault (onMessage onRequest st buf)
    (\<lambda>(acts, st1, buf1). codec_ok st1 \<and> buffer_inv buf1)"
proof -
  from onMessage_spec [OF assms, of onRequest] obtain st1 buf1 where m:
    "mu_rel (fst (fcgi_run s bs)) (snd (fcgi_run s bs)) (st1, buf1)"
    "onMessage onRequest st buf =
      (if s_got (fst (fcgi_run s bs)) then
         bind_res (onRequest (s_params (fst (fcgi_run s bs))) (stdin_buf st1)) (\<lambda>(acts, params1, stdin1).
           Inr (acts @ (if s_keep (fst (fcgi_run s bs)) then [] else [Shutdown]),
                st1\<lparr>stdin_buf := retrieveAll stdin1, paramsStream := retrieveAll (paramsStream st1),
                    params := Map.empty, gotRequest := False\<rparr>, buf1))
       else Inr ([], st1, buf1))" by blast
  note ok = mu_rel_codec_ok [OF m(1)]
  have ra: "buffer_inv b \<Longrightarrow> buffer_inv (retrieveAll b)" for b
    using holds_retrieveAll [of "content b" b] by (auto simp: holds_def)
  obtain m3 stdin1 where r: "buffer_inv stdin1" "onRequest (s_params (fst (fcgi_run s bs))) (stdin_buf st1)
      = bind_res (new_Cgicc (param_of (s_params (fst (fcgi_run s bs))) ''QUERY_STRING'')
          (param_of (s_params (fst (fcgi_run s bs))) ''HTTP_COOKIE'') (content (stdin_buf st1))
          (param_of (s_params (fst (fcgi_run s bs))) ''CONTENT_TYPE'')) (\<lambda>cgi. Inr ([Send page_bytes], m3, stdin1))"
    using onRequest_spec [of "content (stdin_buf st1)" "stdin_buf st1" "s_params (fst (fcgi_run s bs))"] ok
    by (auto simp: codec_ok_def)
  show ?thesis
    using ok ra r(1) new_Cgicc_fault
    by (auto simp: m(2) r(2) codec_ok_def safe_res_def form_fault_def bind_res_def split: sum.splits)
qed

lemma net_inv_app: "net_inv A X rs w \<Longrightarrow> A d \<Longrightarrow> net_inv A X rs (w\<lparr>app_data := d\<rparr>)"
  by (erule net_inv_fields) (simp_all add: same_chan_def)

lemma run_action_ok:
  assumes "net_inv A X rs w" and "alive w c"
  shows "\<exists>w'. run_action c w act = Inr w' \<and> net_inv A X rs w' \<and> keeps {} w w'"
  using sendInLoop_ok [OF assms] shutdown_ok [OF assms] assms
  by (cases act) (auto simp: conn_send_def)

lemma run_actions_ok:
  assumes "net_inv A X rs w" and "alive w c"
  shows "\<exists>w'. run_all (run_action c) w acts = Inr w' \<and> net_inv A X rs w' \<and> keeps {} w w'"
  using assms
proof (induction acts arbitrary: w)
  case (Cons act acts)
  from run_action_ok [OF Cons.prems] obtain w1 where
    w1: "run_action c w act = Inr w1" "net_inv A X rs w1" "keeps {} w w1" by blast
  then have "alive w1 c" using Cons.prems(2) by (simp add: keeps_def)
  with Cons.IH [OF w1(2)] w1 show ?case by (auto intro: keeps_trans)
qed simp


lemma set_input_ok:
  assumes inv: "net_inv A X rs w" and c: "alive w c" and b: "buffer_inv b"
  shows "net_inv A X rs (set_conn c ((conns w c)\<lparr>inputBuffer := b\<rparr>) w)"
    and "keeps {} w (set_conn c ((conns w c)\<lparr>inputBuffer := b\<rparr>) w)"
proof -
  let ?w = "set_conn c ((conns w c)\<lparr>inputBuffer := b\<rparr>) w"
  note ok = net_invD(8) [OF inv c]
  have t: "touched c [] w ?w" by (rule touched_set_conn) simp_all
  show "keeps {} w ?w" using touched_keeps [OF t] by (simp add: conn_open_def set_conn_def)
  have "conn_ok X (rs @ pendingFunctors ?w) ?w c"
    using ok b by (simp add: conn_ok_def conn_open_def registered_def listed_def set_conn_def cong: if_cong)
  then show "net_inv A X rs ?w" by (intro touched_inv [OF inv c t]) (simp_all add: set_conn_def)
qed

lemma keeps_app [simp]: "keeps S w (w\<lparr>app_data := d\<rparr>)"
  by (simp add: keeps_def conn_open_def)

lemma mu_user_inv:
  assumes inv: "net_inv codecs_ok X rs w" and c: "alive w (callback_conn k)"
  shows "safe_res form_fault (mu_user k w) (\<lambda>w'. net_inv codecs_ok X rs w' \<and> keeps {} w w')"
proof (cases k)
  case (Connection_cb c)
  let ?w = "w\<lparr>app_data := (app_data w)(c \<mapsto> new_mu_codec)\<rparr>"
  have "codec_ok new_mu_codec" by (rule conjunct1 [OF mu_rel_codec_ok [OF mu_rel_new]])
  then have "net_inv codecs_ok X rs ?w"
    using net_invD(11) [OF inv] by (intro net_inv_app [OF inv]) (simp add: codecs_ok_def)
  then have "net_inv codecs_ok X rs (setTcpNoDelay c True ?w)" "keeps {} w (setTcpNoDelay c True ?w)"
    using setTcpNoDelay_ok [of codecs_ok X rs ?w c True] c Connection_cb keeps_trans [OF keeps_app] by simp_all
  with inv Connection_cb show ?thesis by (simp add: onConnection_def)
next
  case (Message_cb c)
  then have c': "alive w c" using c by simp
  note ok = conn_okD(5) [OF net_invD(8) [OF inv c']]
  show ?thesis
  proof (cases "app_data w c")
    case None
    have "buffer_inv (retrieveAll (inputBuffer (conns w c)))"
      using holds_retrieveAll [OF holdsI [OF ok refl]] by (simp add: holds_def)
    with set_input_ok [OF inv c'] None Message_cb show ?thesis by (simp add: on_input_def)
  next
    case (Some st)
    with net_invD(11) [OF inv] have "codec_ok st" by (simp add: codecs_ok_def)
    then obtain s where "mu_rel s (content (inputBuffer (conns w c))) (st, inputBuffer (conns w c))"
      using codec_ok_rel [OF _ ok] by blast
    note m = onMessage_safe [OF this]
    have "safe_res form_fault (run_all (run_action c) ((set_conn c ((conns w c)\<lparr>inputBuffer := buf1\<rparr>) w)
        \<lparr>app_data := (app_data w)(c \<mapsto> st1)\<rparr>) acts) (\<lambda>w'. net_inv codecs_ok X rs w' \<and> keeps {} w w')"
      if r: "codec_ok st1" "buffer_inv buf1" for acts st1 buf1
    proof -
      let ?w1 = "set_conn c ((conns w c)\<lparr>inputBuffer := buf1\<rparr>) w"
      let ?w2 = "?w1\<lparr>app_data := (app_data w)(c \<mapsto> st1)\<rparr>"
      have "net_inv codecs_ok X rs ?w2"
        using net_invD(11) [OF inv] r(1)
        by (intro net_inv_app [OF set_input_ok(1) [OF inv c' r(2)]]) (simp add: codecs_ok_def)
      moreover have k: "keeps {} w ?w2" by (rule keeps_trans [OF set_input_ok(2) [OF inv c' r(2)] keeps_app])
      moreover have "alive ?w2 c" using c' k by (simp add: keeps_def)
      ultimately show ?thesis using run_actions_ok [of codecs_ok X rs ?w2 c acts] by (auto intro: keeps_trans)
    qed
    then have "safe_res form_fault (bind_res (onMessage onRequest st (inputBuffer (conns w c))) (\<lambda>(acts, st1, buf1).
        run_all (run_action c) ((set_conn c ((conns w c)\<lparr>inputBuffer := buf1\<rparr>) w)
          \<lparr>app_data := (app_data w)(c \<mapsto> st1)\<rparr>) acts)) (\<lambda>w'. net_inv codecs_ok X rs w' \<and> keeps {} w w')"
      by (intro safe_res_bind [OF m]) (auto split: prod.splits)
    with Message_cb Some show ?thesis by (simp add: on_input_def)
  qed
qed (use inv in simp_all)

lemma mu_user_queues: "q_res w (mu_user k w)"
proof -
  have act: "q_res w (run_action c w act)" for c act and w :: mu_net
    by (cases act) (simp_all add: conn_send_def q_res_sendInLoop q_res_shutdown)
  have acts: "q_res w (run_all (run_action c) w acts)" for c acts and w :: mu_net
    by (induction acts arbitrary: w) (auto intro: q_res_bind act)
  have app: "q_ext w (w\<lparr>app_data := d\<rparr>)" for d and w :: mu_net by (rule q_ext_same) simp_all
  show ?thesis
  proof (cases k)
    case (Connection_cb c)
    then show ?thesis
      by (auto simp: onConnection_def setTcpNoDelay_def intro: q_ext_trans [OF app q_ext_set_conn])
  next
    case (Message_cb c)
    have "q_res w (bind_res m (\<lambda>(acts, st1, buf1). run_all (run_action c)
        ((set_conn c (cn buf1) w)\<lparr>app_data := d st1\<rparr>) acts))"
      for m :: "(conn_action list \<times> mu_codec \<times> buffer) res" and cn d
      by (rule q_res_bind_any) (auto intro: q_res_via [OF q_ext_trans [OF q_ext_set_conn app] acts])
    with Message_cb show ?thesis by (simp add: on_input_def split: option.splits)
  qed simp_all
qed

interpretation mucgi: net_app mu_user codecs_ok form_fault
  by unfold_locales (rule mu_user_queues, rule mu_user_inv)

section \<open>The running server\<close>

text \<open>
  \<open>main\<close> up to the loop: the event loop with its eventfd, the acceptor, the server, \<open>start\<close>. The
  arguments are the kernel and the two descriptors. Channel 0 is that of the eventfd, channel 1 that of the
  listening socket.
\<close>

definition start_server ::
  "(nat \<Rightarrow> nat + nat) \<Rightarrow> (nat \<Rightarrow> nat + bytes) \<Rightarrow> (nat \<Rightarrow> nat + int) \<Rightarrow> (nat \<Rightarrow> int) \<Rightarrow> int \<Rightarrow> int \<Rightarrow> string \<Rightarrow> mu_net res" where
  "start_server kw kr ka ko wakeupFd listenFd addr =
     bind_res (enableReading 0
       \<lparr>chans = (\<lambda>_. new_Channel listenFd)
          (0 := (new_Channel wakeupFd)\<lparr>has_read := True\<rparr>, 1 := (new_Channel listenFd)\<lparr>has_read := True\<rparr>),
        alive = (\<lambda>_. False), channels = Map.empty, ep_interest = Map.empty, ep_refuses = (\<lambda>_ _. False), ep_size = 16,
        threadId = 0, this_tid = 0, looping = False, quit_flag = False, eventHandling = False,
        callingPendingFunctors = False, iteration = 0, activeChannels = [], currentActiveChannel = None,
        pendingFunctors = [], wakeupChannel = 0, eventfd_count = 0,
        conns = (\<lambda>_. new_TcpConnection [] 0), k_write = kw, k_writes = 0, k_readv = kr, k_reads = 0,
        k_accept = ka, k_accepts = 0, k_open = ko, k_opens = 1, delayed = [], next_obj = 2, acceptChannel = 1,
        listenning = False, idleFd = ko 0, srv_name = ''FastCGI'', ipPort = addr, started = False,
        srv_writeComplete = False, connections = Map.empty, nextConnId = 1, app_data = Map.empty\<rparr>)
       (\<lambda>w. assert_res (idleFd w \<ge> 0) (server_start w))"

lemma start_server_ok:
  assumes "wakeupFd \<noteq> listenFd" and "ko 0 \<ge> 0"
  shows "\<exists>w. start_server kw kr ka ko wakeupFd listenFd addr = Inr w \<and> net_inv codecs_ok {} [] w \<and>
    pendingFunctors w = [] \<and> (\<forall>c. \<not> alive w c) \<and> connections w = Map.empty \<and> k_accept w = ka \<and> k_accepts w = 0 \<and>
    (\<forall>fd. channels w fd = None \<longleftrightarrow> fd \<noteq> wakeupFd \<and> fd \<noteq> listenFd)"
proof -
  note d = start_server_def enableReading_def ch_update_def updateChannel_def assertInLoopThread_def isInLoopThread_def
    ep_updateChannel_def ep_update_def epoll_ctl_def set_chan_def Let_def new_Channel_def index_defs server_start_def
    acceptor_listen_def
  obtain w where w: "start_server kw kr ka ko wakeupFd listenFd addr = Inr w"
    using assms by (simp add: d)
  then have f: "pendingFunctors w = []" "alive w = (\<lambda>_. False)" "connections w = Map.empty" "k_accept w = ka" "k_accepts w = 0"
    "channels w = [wakeupFd \<mapsto> 0, listenFd \<mapsto> 1]" "ep_refuses w = (\<lambda>_ _. False)" "wakeupChannel w = 0" "acceptChannel w = 1"
    "next_obj w = 2" "threadId w = this_tid w" "ep_interest w = [wakeupFd \<mapsto> (kReadEvent, 0), listenFd \<mapsto> (kReadEvent, 1)]"
    "ch_fd (chans w 0) = wakeupFd" "ch_fd (chans w (Suc 0)) = listenFd" "ch_index (chans w 0) = kAdded" "ch_index (chans w (Suc 0)) = kAdded"
    "ch_events (chans w 0) = kReadEvent" "ch_events (chans w (Suc 0)) = kReadEvent" "app_data w = Map.empty"
    using assms by (auto simp: d)
  have "poller_ok w" using assms(1) by (auto simp: poller_ok_def f)
  then have "net_inv codecs_ok {} [] w"
    using assms(1) by (auto simp: net_inv_def f registered_def isInLoopThread_def codecs_ok_def)
  with w f show ?thesis by auto
qed

text \<open>
  The states of the running server between two turns. A connection whose channel has been removed and to which no
  functor refers is deleted when its last owner lets go of it.
\<close>

fun call_conn :: "bound_call \<Rightarrow> nat option" where
  "call_conn (F_sendInLoop c data) = Some c"
| "call_conn (F_shutdownInLoop c) = Some c"
| "call_conn (F_forceCloseInLoop c) = Some c"
| "call_conn (F_startReadInLoop c) = Some c"
| "call_conn (F_stopReadInLoop c) = Some c"
| "call_conn (F_writeComplete c) = Some c"
| "call_conn (F_highWaterMark c n) = Some c"
| "call_conn (F_connectEstablished c) = Some c"
| "call_conn (F_connectDestroyed c) = Some c"
| "call_conn (F_removeConnectionInLoop c) = Some c"
| "call_conn F_listen = None"

definition releasable :: "'u net \<Rightarrow> nat \<Rightarrow> bool" where
  "releasable w c \<longleftrightarrow> alive w c \<and> \<not> conn_open w c \<and> \<not> registered w c \<and> \<not> ch_eventHandling (chans w c) \<and>
     (\<forall>f \<in> set (pendingFunctors w). call_conn f \<noteq> Some c)"

inductive serving :: "mu_net \<Rightarrow> bool" where
  start: "start_server kw kr ka ko wakeupFd listenFd addr = Inr w \<Longrightarrow> wakeupFd \<noteq> listenFd \<Longrightarrow> ko 0 \<ge> 0 \<Longrightarrow> serving w"
| turn: "serving w \<Longrightarrow> wait_ok wait w \<Longrightarrow> fresh_accept w \<Longrightarrow>
    loop_turn (exec mu_user) (net_handler mu_user) wait w = Inr w' \<Longrightarrow> serving w'"
| deleted: "serving w \<Longrightarrow> releasable w c \<Longrightarrow> delete_TcpConnection c w = Inr w' \<Longrightarrow> serving w'"

lemma net_inv_delete:
  assumes inv: "net_inv A {} [] w" and r: "releasable w c"
  shows "net_inv A {} [] (w\<lparr>alive := (alive w)(c := False)\<rparr>)"
proof -
  let ?w = "w\<lparr>alive := (alive w)(c := False)\<rparr>"
  note D = net_invD [OF inv]
  have "poller_ok ?w = poller_ok w" by (rule poller_ok_cong) simp_all
  moreover have "conn_ok {} (pendingFunctors ?w) ?w c'" if "alive ?w c'" for c'
  proof -
    have "alive w c'" using that by (simp split: if_splits)
    from D(8) [OF this] show ?thesis by (rule conn_ok_cong) (simp_all add: registered_def listed_def)
  qed
  moreover have "call_ok ?w f" if "f \<in> set (pendingFunctors w)" for f
  proof -
    have "call_ok w f" "call_conn f \<noteq> Some c" using that D(10) [of f] r by (auto simp: releasable_def)
    then show ?thesis by (induction w f rule: call_ok.induct) simp_all
  qed
  moreover have "c' = wakeupChannel w \<or> c' = acceptChannel w \<or> alive ?w c'" if "channels w fd = Some c'" for fd c'
    using D(9) [OF that] r poller_okD(1) [OF D(1) that] that by (auto simp: releasable_def registered_def)
  ultimately show ?thesis
    using inv by (simp add: net_inv_def) (auto simp: isInLoopThread_def registered_def)
qed

lemma serving_inv: "serving w \<Longrightarrow> net_inv codecs_ok {} [] w"
proof (induction rule: serving.induct)
  case (start kw kr ka ko wakeupFd listenFd addr w)
  then show ?case using start_server_ok [of wakeupFd listenFd ko kw kr ka addr] by auto
next
  case (turn w wait w')
  from mucgi.loop_turn_ok [OF turn(5,2,3)] turn(4) show ?case by simp
next
  case (deleted w c w')
  then show ?case
    using net_inv_delete [OF deleted(4,2)] delete_TcpConnection_ok [OF deleted(4), of c]
    by (auto simp: releasable_def)
qed

section \<open>Answering over a connection\<close>

text \<open>What a peer sees of a connection, and what the actions of a callback do to it.\<close>

definition conn_view :: "'u net \<Rightarrow> nat \<Rightarrow> StateE \<times> bytes" where
  "conn_view w c = (c_state (conns w c), stream w c)"

fun view_act :: "StateE \<times> bytes \<Rightarrow> conn_action \<Rightarrow> StateE \<times> bytes" where
  "view_act (s, out) (Send data) = (s, if s = kConnected then out @ data else out)"
| "view_act (s, out) Shutdown = (if s = kConnected then kDisconnecting else s, out)"

text \<open>The end of the stream has been sent exactly when the connection is shutting down and nothing waits.\<close>

definition fin_ok :: "'u net \<Rightarrow> nat \<Rightarrow> bool" where
  "fin_ok w c \<longleftrightarrow> (c_state (conns w c) = kDisconnecting \<longrightarrow> (sock_shut (conns w c) \<longleftrightarrow> unsent w c = []))"

definition no_reset :: "'u net \<Rightarrow> bool" where
  "no_reset w \<longleftrightarrow> (\<forall>n. k_write w n \<noteq> Inl EPIPE \<and> k_write w n \<noteq> Inl ECONNRESET)"

lemma net_inv_change: "net_inv A X rs w \<Longrightarrow> B (app_data w) \<Longrightarrow> net_inv B X rs w"
  by (simp add: net_inv_def)

lemma action_view:
  assumes inv: "net_inv A X rs w" and c: "alive w c" and op: "conn_open w c" and nr: "no_reset w"
  shows "\<exists>w'. run_action c w act = Inr w' \<and> net_inv A X rs w' \<and> keeps {} w w' \<and> app_data w' = app_data w \<and>
    inputBuffer (conns w' c) = inputBuffer (conns w c) \<and> conn_view w' c = view_act (conn_view w c) act \<and>
    (fin_ok w c \<longrightarrow> fin_ok w' c)"
proof -
  have inv': "net_inv (\<lambda>d. d = app_data w) X rs w" by (rule net_inv_change [OF inv]) simp
  have restore: "app_data w' = app_data w \<and> net_inv A X rs w'" if "net_inv (\<lambda>d. d = app_data w) X rs w'" for w'
  proof -
    have "app_data w' = app_data w" by (rule net_invD(11) [OF that])
    then show ?thesis using net_inv_change [OF that, of A] net_invD(11) [OF inv] by simp
  qed
  show ?thesis
  proof (cases act)
    case (Send data)
    show ?thesis
    proof (cases "c_state (conns w c) = kConnected")
      case True
      obtain w' where w': "sendInLoop c data w = Inr w'" "net_inv (\<lambda>d. d = app_data w) X rs w'" "keeps {} w w'" "sends c data w w'"
        using sendInLoop_ok [OF inv' c, of data] op by blast
      have "\<not> peer_gone w c"
        using True nr conn_ok_open(8) [OF net_invD(8) [OF inv c] op] by (auto simp: peer_gone_def no_reset_def)
      with w' restore [OF w'(2)] True Send show ?thesis by (auto simp: conn_send_def sends_def conn_view_def fin_ok_def)
    next
      case False
      with inv Send show ?thesis by (simp add: conn_send_def conn_view_def)
    qed
  next
    case Shutdown
    from shutdown_ok [OF inv' c] obtain w' where w': "shutdown c w = Inr w'" "net_inv (\<lambda>d. d = app_data w) X rs w'"
      "keeps {} w w'" "conns w' c = (if c_state (conns w c) = kConnected
         then (conns w c)\<lparr>c_state := kDisconnecting, sock_shut := unsent w c = []\<rparr> else conns w c)" by blast
    with restore [OF w'(2)] Shutdown show ?thesis by (simp add: conn_view_def stream_def fin_ok_def)
  qed
qed

lemma actions_view:
  assumes "net_inv A X rs w" and "alive w c" and "conn_open w c" and "no_reset w"
  shows "\<exists>w'. run_all (run_action c) w acts = Inr w' \<and> net_inv A X rs w' \<and> keeps {} w w' \<and> app_data w' = app_data w \<and>
    inputBuffer (conns w' c) = inputBuffer (conns w c) \<and> conn_view w' c = foldl view_act (conn_view w c) acts \<and>
    (fin_ok w c \<longrightarrow> fin_ok w' c)"
  using assms
proof (induction acts arbitrary: w)
  case (Cons act acts)
  from action_view [OF Cons.prems] obtain w1 where w1: "run_action c w act = Inr w1" "net_inv A X rs w1" "keeps {} w w1"
    "app_data w1 = app_data w" "inputBuffer (conns w1 c) = inputBuffer (conns w c)" "conn_view w1 c = view_act (conn_view w c) act"
    "fin_ok w c \<longrightarrow> fin_ok w1 c" by blast
  from w1(3) Cons.prems have "alive w1 c" "conn_open w1 c" "no_reset w1" by (auto simp: keeps_def no_reset_def)
  from Cons.IH [OF w1(2) this] w1 show ?case by (auto intro: keeps_trans)
qed simp

text \<open>The next \<open>readv\<close> returns \<open>d\<close>; the next \<open>write\<close> takes \<open>n\<close> bytes.\<close>

definition readable :: "nat \<Rightarrow> mu_net \<Rightarrow> bytes \<Rightarrow> mu_net res" where
  "readable c w d = conn_handleRead mu_user c (w\<lparr>k_readv := (\<lambda>_. Inr d)\<rparr>)"

definition writable :: "nat \<Rightarrow> mu_net \<Rightarrow> nat \<Rightarrow> mu_net res" where
  "writable c w n = conn_handleWrite c (w\<lparr>k_write := (\<lambda>_. Inr n)\<rparr>)"

lemma readable_event:
  assumes inv: "net_inv codecs_ok {} rs w" and c: "alive w c" and op: "conn_open w c" and nr: "no_reset w"
    and st: "app_data w c = Some st" and d: "d \<noteq> []" "length d \<le> extrabuf_size"
    and m: "mu_message ([], st, inputBuffer (conns w c)) d = Inr (acts, st', buf')"
    and ok: "codec_ok st'" "buffer_inv buf'"
  shows "\<exists>w'. readable c w d = Inr w' \<and> net_inv codecs_ok {} rs w' \<and> alive w' c \<and> conn_open w' c \<and> no_reset w' \<and>
    app_data w' c = Some st' \<and> inputBuffer (conns w' c) = buf' \<and> conn_view w' c = foldl view_act (conn_view w c) acts \<and>
    (fin_ok w c \<longrightarrow> fin_ok w' c)"
proof -
  let ?w0 = "w\<lparr>k_readv := (\<lambda>_. Inr d)\<rparr>"
  obtain n b where b: "readFd (\<lambda>_. Inr d) (inputBuffer (conns w c)) = Inr (n, b)"
    and om: "onMessage onRequest st b = Inr (acts, st', buf')"
    using m by (auto simp: mu_message_def res_simps)
  have inb: "buffer_inv (inputBuffer (conns w c))" by (rule conn_okD(5) [OF net_invD(8) [OF inv c]])
  have n: "n = Inr (length d)" "buffer_inv b"
    using holds_readFd [where readv = "\<lambda>_. Inr d", OF holdsI [OF inb refl] refl] b by (auto simp: res_ok_def holds_def)
  have "take (sum_list vec) d = d" if "extrabuf_size \<in> set vec \<or> writableBytes (inputBuffer (conns w c)) \<ge> extrabuf_size \<and>
      writableBytes (inputBuffer (conns w c)) \<in> set vec" for vec
    using that d(2) member_le_sum_list [of _ vec] by fastforce
  then have rf: "readFd (sock_readv ?w0) (inputBuffer (conns w c)) = Inr (n, b)"
    unfolding b [symmetric] by (simp add: readFd_def sock_readv_def Let_def)
  let ?w1 = "(set_conn c ((conns w c)\<lparr>inputBuffer := b\<rparr>) ?w0)\<lparr>k_reads := Suc (k_reads w)\<rparr>"
  let ?w2 = "(set_conn c ((conns ?w1 c)\<lparr>inputBuffer := buf'\<rparr>) ?w1)\<lparr>app_data := (app_data ?w1)(c \<mapsto> st')\<rparr>"
  have run: "readable c w d = run_all (run_action c) ?w2 acts"
    using inv n(1) d(1) st om rf
    by (simp add: readable_def conn_handleRead_def assertInLoopThread_def isInLoopThread_def net_invD(2) [unfolded isInLoopThread_def]
        on_input_def Let_def) (simp add: set_conn_def)
  have i0: "net_inv codecs_ok {} rs ?w0" by (rule net_inv_fields [OF inv]) (simp_all add: same_chan_def)
  have i1: "net_inv codecs_ok {} rs ?w1"
    by (rule net_inv_fields [OF set_input_ok(1) [OF i0 _ n(2), of c]]) (simp_all add: c same_chan_def set_conn_def)
  have "net_inv codecs_ok {} rs (set_conn c ((conns ?w1 c)\<lparr>inputBuffer := buf'\<rparr>) ?w1)"
    by (rule set_input_ok(1) [OF i1 _ ok(2)]) (simp add: c set_conn_def)
  then have i2: "net_inv codecs_ok {} rs ?w2"
    by (rule net_inv_app) (use net_invD(11) [OF inv] ok(1) in \<open>simp add: codecs_ok_def set_conn_def\<close>)
  have f: "alive ?w2 c" "conn_open ?w2 c" "no_reset ?w2" "conn_view ?w2 c = conn_view w c"
      "fin_ok ?w2 c = fin_ok w c"
    using c op nr by (simp_all add: set_conn_def conn_open_def no_reset_def conn_view_def stream_def fin_ok_def)
  from actions_view [OF i2 f(1-3), of acts] obtain w' where w': "run_all (run_action c) ?w2 acts = Inr w'"
    "net_inv codecs_ok {} rs w'" "keeps {} ?w2 w'" "app_data w' = app_data ?w2"
    "inputBuffer (conns w' c) = inputBuffer (conns ?w2 c)" "conn_view w' c = foldl view_act (conn_view ?w2 c) acts"
    "fin_ok ?w2 c \<longrightarrow> fin_ok w' c" by blast
  have "alive w' c" "conn_open w' c" "no_reset w'" using w'(3) f by (auto simp: keeps_def no_reset_def)
  with run w' f(4,5) show ?thesis by (simp add: set_conn_def)
qed


lemma mu_message_ok:
  assumes "codec_ok st" and "buffer_inv buf" and "mu_message (acts, st, buf) d = Inr (acts', st', buf')"
  shows "codec_ok st' \<and> buffer_inv buf' \<and> (\<exists>a. acts' = acts @ a \<and> mu_message ([], st, buf) d = Inr (a, st', buf'))"
proof -
  from assms(3) obtain n b a where b: "readFd (\<lambda>_. Inr d) buf = Inr (n, b)" "onMessage onRequest st b = Inr (a, st', buf')"
    and a: "acts' = acts @ a" by (auto simp: mu_message_def res_simps)
  have "buffer_inv b"
    using holds_readFd [where readv = "\<lambda>_. Inr d", OF holdsI [OF assms(2) refl] refl] b(1) by (auto simp: res_ok_def holds_def)
  from codec_ok_rel [OF assms(1) this] obtain s where "mu_rel s (content b) (st, b)" by blast
  from onMessage_safe [OF this] b a show ?thesis by (simp add: mu_message_def)
qed

lemma readable_events:
  assumes "net_inv codecs_ok {} rs w" and "alive w c" and "conn_open w c" and "no_reset w"
    and "app_data w c = Some st" and "\<forall>d \<in> set ds. d \<noteq> [] \<and> length d \<le> extrabuf_size"
    and "run_all mu_message (acts0, st, inputBuffer (conns w c)) ds = Inr (acts, st', buf')" and "fin_ok w c"
  shows "\<exists>w' a. acts = acts0 @ a \<and> run_all (readable c) w ds = Inr w' \<and> net_inv codecs_ok {} rs w' \<and>
    alive w' c \<and> conn_open w' c \<and> app_data w' c = Some st' \<and> inputBuffer (conns w' c) = buf' \<and>
    conn_view w' c = foldl view_act (conn_view w c) a \<and> fin_ok w' c"
  using assms
proof (induction ds arbitrary: w st acts0)
  case (Cons d ds)
  obtain a1 st1 b1 where m: "mu_message (acts0, st, inputBuffer (conns w c)) d = Inr (a1, st1, b1)"
    and rest: "run_all mu_message (a1, st1, b1) ds = Inr (acts, st', buf')"
    using Cons.prems(7) by (auto simp: res_simps)
  have "codec_ok st" using net_invD(11) [OF Cons.prems(1)] Cons.prems(5) by (simp add: codecs_ok_def)
  moreover have "buffer_inv (inputBuffer (conns w c))" by (rule conn_okD(5) [OF net_invD(8) [OF Cons.prems(1,2)]])
  ultimately obtain a where a: "codec_ok st1" "buffer_inv b1" "a1 = acts0 @ a"
    "mu_message ([], st, inputBuffer (conns w c)) d = Inr (a, st1, b1)"
    using mu_message_ok [OF _ _ m] by blast
  obtain w1 where w1: "readable c w d = Inr w1" "net_inv codecs_ok {} rs w1" "alive w1 c" "conn_open w1 c" "no_reset w1"
    "app_data w1 c = Some st1" "inputBuffer (conns w1 c) = b1" "conn_view w1 c = foldl view_act (conn_view w c) a" "fin_ok w1 c"
    using readable_event [OF Cons.prems(1-5) _ _ a(4,1,2)] Cons.prems(6,8) by auto
  have "run_all mu_message (a1, st1, inputBuffer (conns w1 c)) ds = Inr (acts, st', buf')" using rest w1(7) by simp
  from Cons.IH [OF w1(2-6) _ this w1(9)] Cons.prems(6) w1(1,8) a(3) show ?case by auto
qed simp

lemma writable_event:
  assumes inv: "net_inv codecs_ok {} rs w" and c: "alive w c" and op: "conn_open w c" and f: "fin_ok w c"
  shows "\<exists>w'. writable c w n = Inr w' \<and> net_inv codecs_ok {} rs w' \<and> conn_view w' c = conn_view w c \<and>
    unsent w' c = drop n (unsent w c) \<and> fin_ok w' c \<and> alive w' c \<and> conn_open w' c"
proof -
  let ?w = "w\<lparr>k_write := (\<lambda>_. Inr n)\<rparr>"
  have i: "net_inv codecs_ok {} rs ?w" by (rule net_inv_fields [OF inv]) (simp_all add: same_chan_def)
  have op': "conn_open ?w c" using op by (simp add: conn_open_def)
  have "alive ?w c" using c by simp
  from conn_handleWrite_ok [OF i this] op' obtain w' where
    w': "conn_handleWrite c ?w = Inr w'" "net_inv codecs_ok {} rs w'" "keeps {} ?w w'"
    "stream w' c = stream ?w c" "c_state (conns w' c) = c_state (conns ?w c)"
    "sock_shut (conns w' c) \<longleftrightarrow> sock_shut (conns ?w c) \<or>
       c_state (conns ?w c) = kDisconnecting \<and> unsent ?w c \<noteq> [] \<and> unsent w' c = []"
    "\<forall>m. k_write ?w (k_writes ?w) = Inr m \<longrightarrow> unsent w' c = drop m (unsent ?w c)" by blast
  have "alive w' c" "conn_open w' c" using w'(3) c op' by (auto simp: keeps_def)
  with w' f show ?thesis by (auto simp: writable_def conn_view_def stream_def fin_ok_def)
qed

lemma writable_events:
  assumes "net_inv codecs_ok {} rs w" and "alive w c" and "conn_open w c" and "fin_ok w c"
  shows "\<exists>w'. run_all (writable c) w ns = Inr w' \<and> net_inv codecs_ok {} rs w' \<and> conn_view w' c = conn_view w c \<and>
    unsent w' c = drop (sum_list ns) (unsent w c) \<and> fin_ok w' c \<and> alive w' c \<and> conn_open w' c"
  using assms
proof (induction ns arbitrary: w)
  case (Cons n ns)
  from writable_event [OF Cons.prems, of n] obtain w1 where w1: "writable c w n = Inr w1" "net_inv codecs_ok {} rs w1"
    "conn_view w1 c = conn_view w c" "unsent w1 c = drop n (unsent w c)" "fin_ok w1 c" "alive w1 c" "conn_open w1 c" by blast
  from Cons.IH [OF w1(2,6,7,5)] w1 show ?case by (auto simp: add.commute)
qed simp

lemma fresh_connection:
  assumes inv: "net_inv codecs_ok {} rs w" and "channels w fd = None" and "connections w (conn_name w) = None"
    and c: "c = next_obj w"
  shows "\<exists>w'. newConnection mu_user fd w = Inr w' \<and> net_inv codecs_ok {} rs w' \<and> alive w' c \<and>
    c_state (conns w' c) = kConnected \<and> app_data w' c = Some new_mu_codec \<and>
    inputBuffer (conns w' c) = new_Buffer kInitialSize \<and> stream w' c = [] \<and> k_write w' = k_write w"
proof -
  note a = accepted_ok [OF assms(1-3)]
  have al: "alive (accepted fd w) c" by (simp add: accepted_def Let_def c)
  have e: "mu_user (Connection_cb c) (accepted fd w) = Inr (setTcpNoDelay c True
      ((accepted fd w)\<lparr>app_data := (app_data (accepted fd w))(c \<mapsto> new_mu_codec)\<rparr>))"
    by (simp add: onConnection_def accepted_def Let_def c)
  have "net_inv codecs_ok {} rs (setTcpNoDelay c True
      ((accepted fd w)\<lparr>app_data := (app_data (accepted fd w))(c \<mapsto> new_mu_codec)\<rparr>))"
    using mu_user_inv [OF a(1), of "Connection_cb c"] al e by simp
  then show ?thesis
    using e a(3) [of mu_user] c
    by (simp add: setTcpNoDelay_def set_conn_def accepted_def Let_def new_TcpConnection_def stream_def
        new_Buffer_def content_def)
qed

section \<open>Properties\<close>






text \<open>
  C6. No functor is lost or run out of order, in every interleaving of the loop thread with the threads that queue: what has
  run is always a prefix of what was queued, and whenever the loop waits, everything queued has
  run, or its eventfd is readable, or a thread is about to make it so.
\<close>

theorem functors_run_once_in_order:
  assumes "(loop_step (exec mu_user) (net_handler mu_user))\<^sup>*\<^sup>* t t'"
    and "pc t = At_poll" and "queued t = performed t" and "pendingFunctors (lw t) = []"
  shows "prefix (performed t') (queued t') \<and>
    (pc t' = At_poll \<longrightarrow> queued t' = performed t' \<or> eventfd_count (lw t') > 0 \<or> wakers t' > 0)"
proof -
  have "mucgi.threads_ok t" using assms(2-4) by (simp add: mucgi.threads_ok_def signalled_def)
  from mucgi.functors_run_in_order [OF assms(1) this] show ?thesis by simp
qed

theorem functors_run_once_in_order_witness:
  "\<exists>w. start_server (\<lambda>_. Inl EWOULDBLOCK) (\<lambda>_. Inl EWOULDBLOCK) (\<lambda>_. Inr 7) (\<lambda>_. 5) 3 4 ''0.0.0.0:19981'' = Inr w \<and>
     (let t = \<lparr>lw = w, pc = At_poll, wakers = 0, queued = [], performed = []\<rparr>;
          t' = t\<lparr>lw := queue_push F_listen w, wakers := 1, queued := [F_listen]\<rparr>
      in (loop_step (exec mu_user) (net_handler mu_user))\<^sup>*\<^sup>* t t' \<and> prefix (performed t') (queued t') \<and>
         (queued t' = performed t' \<or> eventfd_count (lw t') > 0 \<or> wakers t' > 0))"
proof -
  obtain w where w: "start_server (\<lambda>_. Inl EWOULDBLOCK) (\<lambda>_. Inl EWOULDBLOCK) (\<lambda>_. Inr 7) (\<lambda>_. 5) 3 4 ''0.0.0.0:19981'' = Inr w"
    "pendingFunctors w = []"
    using start_server_ok [of 3 4 "\<lambda>_. 5" "\<lambda>_. Inl EWOULDBLOCK" "\<lambda>_. Inl EWOULDBLOCK" "\<lambda>_. Inr 7" "''0.0.0.0:19981''"] by auto
  let ?t = "\<lparr>lw = w, pc = At_poll, wakers = 0, queued = [], performed = []\<rparr> :: (bound_call, _) threads"
  let ?t' = "?t\<lparr>lw := queue_push F_listen w, wakers := 1, queued := [F_listen]\<rparr>"
  have step: "(loop_step (exec mu_user) (net_handler mu_user))\<^sup>*\<^sup>* ?t ?t'"
    using loop_step.other_push [of "exec mu_user" "net_handler mu_user" ?t F_listen] by (intro r_into_rtranclp) simp
  from functors_run_once_in_order [OF step] w step show ?thesis unfolding Let_def by auto
qed

end
