(* ===== verification/Mu_Poll.thy ===== *)
theory Mu_Poll
  imports Mu_Loop
begin

text \<open>
  The two implementations of the interface \<^verbatim>\<open>mucgi/muduo_net/Poller.h\<close>: the epoll poller of \<open>Mu_Loop\<close> and
  the poller over \<open>poll\<close> (\<^verbatim>\<open>PollPoller.cc\<close>), chosen by \<^verbatim>\<open>DefaultPoller.cc\<close>. The contract
  they share is a locale, interpreted on both: a channel that is watched, ignored once and then removed
  is watched for exactly its events in between. Outside of the contract they differ.
\<close>

section \<open>The poller over poll\<close>

record pollfd =
  pfd_fd :: int
  pfd_events :: "16 word"
  pfd_revents :: "16 word"

record PollPoller =
  pp_chans :: "nat \<Rightarrow> Channel"
  pp_channels :: "int \<rightharpoonup> nat"
  pollfds :: "pollfd list"
  pp_inLoop :: bool

definition pp_assertInLoopThread :: "PollPoller \<Rightarrow> 'a res \<Rightarrow> 'a res" where
  "pp_assertInLoopThread w m = (if pp_inLoop w then m else Inl Abort)"

definition pp_set_index :: "nat \<Rightarrow> int \<Rightarrow> PollPoller \<Rightarrow> PollPoller" where
  "pp_set_index c i w = w\<lparr>pp_chans := (pp_chans w)(c := (pp_chans w c)\<lparr>ch_index := i\<rparr>)\<rparr>"

text \<open>The loop of \<open>fillActiveChannels\<close> stops after \<open>numEvents\<close> entries with events.\<close>

fun pp_fillActiveChannels :: "pollfd list \<Rightarrow> nat \<Rightarrow> PollPoller \<Rightarrow> nat list \<Rightarrow> (nat list \<times> PollPoller) res" where
  "pp_fillActiveChannels [] numEvents w active = Inr (active, w)"
| "pp_fillActiveChannels (pfd # pfds) numEvents w active =
     (if numEvents > 0 then
        if sint (pfd_revents pfd) > 0 then
          (case pp_channels w (pfd_fd pfd) of
             None \<Rightarrow> Inl Assert_fail
           | Some c \<Rightarrow> assert_res (ch_fd (pp_chans w c) = pfd_fd pfd)
               (pp_fillActiveChannels pfds (numEvents - 1)
                 (w\<lparr>pp_chans := (pp_chans w)(c := (pp_chans w c)\<lparr>ch_revents := ucast (pfd_revents pfd)\<rparr>)\<rparr>)
                 (active @ [c])))
        else pp_fillActiveChannels pfds numEvents w active
      else Inr (active, w))"

text \<open>
  \<open>wait\<close> is the outcome of \<open>poll\<close>: the error number, or what the kernel would report for each entry; it
  stores that in the entries, zero in those with a negative descriptor, and returns how many are not zero.
\<close>

definition kernel_poll :: "16 word list \<Rightarrow> pollfd list \<Rightarrow> pollfd list" where
  "kernel_poll revs pfds = map2 (\<lambda>r p. p\<lparr>pfd_revents := (if pfd_fd p < 0 then 0 else r)\<rparr>) revs pfds"

definition pp_poll :: "nat + 16 word list \<Rightarrow> PollPoller \<Rightarrow> (nat list \<times> PollPoller) res" where
  "pp_poll wait w =
     (case wait of
        Inl savedErrno \<Rightarrow> Inr ([], w)
      | Inr revs \<Rightarrow>
          let w1 = w\<lparr>pollfds := kernel_poll revs (pollfds w)\<rparr>;
              numEvents = length (filter (\<lambda>p. pfd_revents p \<noteq> 0) (pollfds w1))
          in if numEvents > 0 then pp_fillActiveChannels (pollfds w1) numEvents w1 [] else Inr ([], w1))"

definition pp_updateChannel :: "nat \<Rightarrow> PollPoller \<Rightarrow> PollPoller res" where
  "pp_updateChannel c w = pp_assertInLoopThread w
     (let ch = pp_chans w c; fd = ch_fd ch; events = ucast (ch_events ch)
      in if ch_index ch < 0 then
           assert_res (pp_channels w fd = None)
             (Inr (pp_set_index c (int (length (pollfds w)))
               (w\<lparr>pollfds := pollfds w @ [\<lparr>pfd_fd = fd, pfd_events = events, pfd_revents = 0\<rparr>],
                  pp_channels := (pp_channels w)(fd \<mapsto> c)\<rparr>)))
         else
           assert_res (pp_channels w fd \<noteq> None) (assert_res (pp_channels w fd = Some c)
             (let idx = ch_index ch
              in assert_res (0 \<le> idx \<and> idx < int (length (pollfds w)))
                   (let pfd = pollfds w ! nat idx
                    in assert_res (pfd_fd pfd = fd \<or> pfd_fd pfd = - fd - 1)
                         (Inr (w\<lparr>pollfds := (pollfds w)[nat idx := pfd\<lparr>pfd_events := events, pfd_revents := 0,
                           pfd_fd := (if isNoneEvent ch then - fd - 1 else pfd_fd pfd)\<rparr>]\<rparr>))))))"

definition channelAtEnd :: "pollfd \<Rightarrow> int" where
  "channelAtEnd p = (if pfd_fd p < 0 then - pfd_fd p - 1 else pfd_fd p)"

definition pp_removeChannel :: "nat \<Rightarrow> PollPoller \<Rightarrow> PollPoller res" where
  "pp_removeChannel c w = pp_assertInLoopThread w
     (let ch = pp_chans w c; fd = ch_fd ch; idx = ch_index ch; n = length (pollfds w)
      in assert_res (pp_channels w fd \<noteq> None) (assert_res (pp_channels w fd = Some c)
        (assert_res (isNoneEvent ch) (assert_res (0 \<le> idx \<and> idx < int n)
          (let pfd = pollfds w ! nat idx; w1 = w\<lparr>pp_channels := (pp_channels w)(fd := None)\<rparr>
           in assert_res (pfd_fd pfd = - fd - 1 \<and> pfd_events pfd = ucast (ch_events ch))
             (if nat idx = n - 1 then Inr (w1\<lparr>pollfds := butlast (pollfds w)\<rparr>)
              else
                case pp_channels w1 (channelAtEnd (last (pollfds w))) of
                  None \<Rightarrow> Inl Null_deref
                | Some c' \<Rightarrow> Inr (pp_set_index c' idx
                    (w1\<lparr>pollfds := butlast ((pollfds w)[nat idx := last (pollfds w)])\<rparr>))))))))"

text \<open>What a channel does with this poller: store its events and update, and remove.\<close>

definition pp_set_events :: "nat \<Rightarrow> 32 word \<Rightarrow> PollPoller \<Rightarrow> PollPoller res" where
  "pp_set_events c e w =
     pp_updateChannel c (w\<lparr>pp_chans := (pp_chans w)(c := (pp_chans w c)\<lparr>ch_events := e, addedToLoop := True\<rparr>)\<rparr>)"

definition pp_remove :: "nat \<Rightarrow> PollPoller \<Rightarrow> PollPoller res" where
  "pp_remove c w = assert_res (isNoneEvent (pp_chans w c))
     (pp_removeChannel c (w\<lparr>pp_chans := (pp_chans w)(c := (pp_chans w c)\<lparr>addedToLoop := False\<rparr>)\<rparr>))"

text \<open>The choice of \<open>newDefaultPoller\<close> by the environment.\<close>

definition use_poll :: "(string \<rightharpoonup> string) \<Rightarrow> bool" where
  "use_poll env \<longleftrightarrow> env ''MUDUO_USE_POLL'' \<noteq> None"

section \<open>The contract of a poller\<close>

text \<open>
  A channel is new, watched, ignored (registered without events) or removed. \<open>interest\<close> is what the kernel is asked
  to look at.
\<close>

datatype chan_status = New | On | Off | Gone

definition event_set :: "32 word \<Rightarrow> bool" where
  "event_set e \<longleftrightarrow> e \<noteq> kNoneEvent \<and> unat e < 2 ^ 15"

datatype poll_cmd = Watch nat "32 word" | Ignore nat | Forget nat

record poll_view =
  v_fd :: "nat \<Rightarrow> int"
  v_status :: "nat \<Rightarrow> chan_status"
  v_interest :: "int \<rightharpoonup> 32 word \<times> nat"

fun legal :: "poll_view \<Rightarrow> poll_cmd \<Rightarrow> bool" where
  "legal v (Watch c e) \<longleftrightarrow> event_set e \<and> (v_status v c = On \<or> v_status v c = New \<and> 0 \<le> v_fd v c \<and>
     (\<forall>c'. v_status v c' \<in> {On, Off} \<longrightarrow> v_fd v c' \<noteq> v_fd v c))"
| "legal v (Ignore c) \<longleftrightarrow> v_status v c = On"
| "legal v (Forget c) \<longleftrightarrow> v_status v c = Off"

fun view_step :: "poll_view \<Rightarrow> poll_cmd \<Rightarrow> poll_view" where
  "view_step v (Watch c e) = v\<lparr>v_status := (v_status v)(c := On), v_interest := (v_interest v)(v_fd v c \<mapsto> (e, c))\<rparr>"
| "view_step v (Ignore c) = v\<lparr>v_status := (v_status v)(c := Off), v_interest := (v_interest v)(v_fd v c := None)\<rparr>"
| "view_step v (Forget c) = v\<lparr>v_status := (v_status v)(c := Gone)\<rparr>"

fun legal_seq :: "poll_view \<Rightarrow> poll_cmd list \<Rightarrow> bool" where
  "legal_seq v [] = True"
| "legal_seq v (cmd # cmds) = (legal v cmd \<and> legal_seq (view_step v cmd) cmds)"

fun poll_step ::
  "(nat \<Rightarrow> 32 word \<Rightarrow> 'w \<Rightarrow> 'w res) \<Rightarrow> (nat \<Rightarrow> 'w \<Rightarrow> 'w res) \<Rightarrow> 'w \<Rightarrow> poll_cmd \<Rightarrow> 'w res" where
  "poll_step set_events forget w (Watch c e) = set_events c e w"
| "poll_step set_events forget w (Ignore c) = set_events c kNoneEvent w"
| "poll_step set_events forget w (Forget c) = forget c w"

locale poller =
  fixes ok :: "'w \<Rightarrow> bool" and fd_of :: "'w \<Rightarrow> nat \<Rightarrow> int" and status :: "'w \<Rightarrow> nat \<Rightarrow> chan_status"
    and interest :: "'w \<Rightarrow> int \<rightharpoonup> 32 word \<times> nat"
    and set_events :: "nat \<Rightarrow> 32 word \<Rightarrow> 'w \<Rightarrow> 'w res" and forget :: "nat \<Rightarrow> 'w \<Rightarrow> 'w res"
  assumes watch_new: "ok w \<Longrightarrow> status w c = New \<Longrightarrow> event_set e \<Longrightarrow> 0 \<le> fd_of w c \<Longrightarrow>
      (\<And>c'. status w c' \<in> {On, Off} \<Longrightarrow> fd_of w c' \<noteq> fd_of w c) \<Longrightarrow>
      \<exists>w'. set_events c e w = Inr w' \<and> ok w' \<and> fd_of w' = fd_of w \<and> status w' = (status w)(c := On) \<and>
        interest w' = (interest w)(fd_of w c \<mapsto> (e, c))"
    and watch_on: "ok w \<Longrightarrow> status w c = On \<Longrightarrow> event_set e \<Longrightarrow>
      \<exists>w'. set_events c e w = Inr w' \<and> ok w' \<and> fd_of w' = fd_of w \<and> status w' = status w \<and>
        interest w' = (interest w)(fd_of w c \<mapsto> (e, c))"
    and ignore_on: "ok w \<Longrightarrow> status w c = On \<Longrightarrow>
      \<exists>w'. set_events c kNoneEvent w = Inr w' \<and> ok w' \<and> fd_of w' = fd_of w \<and> status w' = (status w)(c := Off) \<and>
        interest w' = (interest w)(fd_of w c := None)"
    and forget_off: "ok w \<Longrightarrow> status w c = Off \<Longrightarrow>
      \<exists>w'. forget c w = Inr w' \<and> ok w' \<and> fd_of w' = fd_of w \<and> (\<forall>c'. c' \<noteq> c \<longrightarrow> status w' c' = status w c') \<and>
        status w' c \<in> {New, Gone} \<and> interest w' = interest w"
begin

text \<open>A removed channel may be new again to the poller; the view only says that it is gone.\<close>

definition shows_view :: "poll_view \<Rightarrow> 'w \<Rightarrow> bool" where
  "shows_view v w \<longleftrightarrow> ok w \<and> v_fd v = fd_of w \<and> v_interest v = interest w \<and>
     (\<forall>c. v_status v c = status w c \<or> v_status v c = Gone \<and> status w c = New)"

lemma poll_step_ok:
  assumes "shows_view v w" and "legal v cmd"
  shows "\<exists>w'. poll_step set_events forget w cmd = Inr w' \<and> shows_view (view_step v cmd) w'"
proof -
  have w: "ok w" "v_fd v = fd_of w" "v_interest v = interest w"
    "\<And>c. v_status v c = status w c \<or> v_status v c = Gone \<and> status w c = New"
    using assms(1) by (auto simp: shows_view_def)
  have st: "v_status v c \<in> {On, Off} \<longleftrightarrow> status w c \<in> {On, Off}" "v_status v c \<noteq> Gone \<Longrightarrow> status w c = v_status v c" for c
    using w(4) [of c] by auto
  show ?thesis
  proof (cases cmd)
    case (Watch c e)
    with assms(2) st(2) [of c] consider (on) "status w c = On" "event_set e"
      | (new) "status w c = New" "event_set e" "0 \<le> fd_of w c" "\<forall>c'. status w c' \<in> {On, Off} \<longrightarrow> fd_of w c' \<noteq> fd_of w c"
      unfolding Watch legal.simps st(1) w(2) by auto
    then obtain w' where "set_events c e w = Inr w'" "ok w'" "fd_of w' = fd_of w" "status w' = (status w)(c := On)"
      "interest w' = (interest w)(fd_of w c \<mapsto> (e, c))"
    proof cases
      case on
      have "(status w)(c := On) = status w" using on(1) by auto
      with watch_on [OF w(1) on] that show ?thesis by auto
    next
      case new
      from watch_new [OF w(1) new(1-3)] new(4) that show ?thesis by blast
    qed
    with w Watch show ?thesis by (auto simp: shows_view_def)
  next
    case (Ignore c)
    with assms(2) st(2) [of c] have "status w c = On" by simp
    from ignore_on [OF w(1) this] w Ignore show ?thesis by (auto simp: shows_view_def)
  next
    case (Forget c)
    with assms(2) st(2) [of c] have "status w c = Off" by simp
    from forget_off [OF w(1) this] obtain w' where "forget c w = Inr w'" "ok w'" "fd_of w' = fd_of w"
      "\<forall>c'. c' \<noteq> c \<longrightarrow> status w' c' = status w c'" "status w' c \<in> {New, Gone}" "interest w' = interest w" by blast
    with w Forget show ?thesis by (auto simp: shows_view_def)
  qed
qed

lemma poll_steps_ok:
  assumes "shows_view v w" and "legal_seq v cmds"
  shows "\<exists>w'. run_all (poll_step set_events forget) w cmds = Inr w' \<and> shows_view (foldl view_step v cmds) w'"
  using assms
proof (induction cmds arbitrary: v w)
  case (Cons cmd cmds)
  from poll_step_ok [OF Cons.prems(1)] Cons.prems(2) obtain w1 where
    "poll_step set_events forget w cmd = Inr w1" "shows_view (view_step v cmd) w1" by auto
  with Cons.IH [of "view_step v cmd" w1] Cons.prems(2) show ?case by auto
qed simp

end

section \<open>The epoll poller keeps the contract\<close>

definition ep_set_events :: "nat \<Rightarrow> 32 word \<Rightarrow> ('f, 'z) EventLoop_scheme \<Rightarrow> ('f, 'z) EventLoop_scheme res" where
  "ep_set_events c e w = ch_update c (set_chan c ((chans w c)\<lparr>ch_events := e\<rparr>) w)"

definition ep_ok :: "('f, 'z) EventLoop_scheme \<Rightarrow> bool" where
  "ep_ok w \<longleftrightarrow> poller_ok w \<and> isInLoopThread w \<and> \<not> eventHandling w \<and> ep_refuses w = (\<lambda>_ _. False) \<and>
     (\<forall>c. channels w (ch_fd (chans w c)) = Some c \<or> ch_index (chans w c) = kNew \<and> isNoneEvent (chans w c))"

definition ep_status :: "('f, 'z) EventLoop_scheme \<Rightarrow> nat \<Rightarrow> chan_status" where
  "ep_status w c = (if ch_index (chans w c) = kNew then New else if ch_index (chans w c) = kAdded then On else Off)"

lemma ep_registered:
  "ep_ok w \<Longrightarrow> ep_status w c \<noteq> New \<longleftrightarrow> channels w (ch_fd (chans w c)) = Some c"
  using poller_okD(2) [of w "ch_fd (chans w c)" c] unfolding ep_ok_def ep_status_def
  by (auto simp: index_defs split: if_splits)

lemma ep_watched:
  assumes w: "ep_ok w" and c: "chan_ok w c" and e: "e = kNoneEvent \<Longrightarrow> ch_index (chans w c) = kAdded"
  shows "\<exists>w'. ep_set_events c e w = Inr w' \<and> ep_ok w' \<and> (\<lambda>c. ch_fd (chans w' c)) = (\<lambda>c. ch_fd (chans w c)) \<and>
    ep_status w' = (ep_status w)(c := if e = kNoneEvent then Off else On) \<and>
    ep_interest w' = (ep_interest w)(ch_fd (chans w c) := (if e = kNoneEvent then None else Some (e, c)))"
proof -
  let ?w = "watched c e w"
  have w': "poller_ok w" "isInLoopThread w" using w by (auto simp: ep_ok_def)
  have eq: "ep_set_events c e w = Inr ?w"
    unfolding ep_set_events_def by (rule ch_update_watched [OF w'(1) c w'(2)])
  have "channels ?w (ch_fd (chans ?w c')) = Some c' \<or> ch_index (chans ?w c') = kNew \<and> isNoneEvent (chans ?w c')" for c'
  proof (cases "c' = c")
    case False
    then have "channels ?w (ch_fd (chans ?w c')) = Some c'" if "channels w (ch_fd (chans w c')) = Some c'"
      using that chan_ok_fd [OF w'(1) c that] by (auto simp: watched_def Let_def)
    with False w show ?thesis by (auto simp: ep_ok_def)
  qed (simp add: watched_def Let_def)
  then have "ep_ok ?w"
    using w watched_ok(1) [OF w'(1) c] by (simp add: ep_ok_def) (simp add: watched_def Let_def)
  moreover have "ep_status ?w = (ep_status w)(c := if e = kNoneEvent then Off else On)"
    using e by (auto simp: ep_status_def watched_def Let_def index_defs)
  moreover have "ep_interest ?w = (ep_interest w)(ch_fd (chans w c) := (if e = kNoneEvent then None else Some (e, c)))"
    using e by (auto simp: watched_def Let_def)
  ultimately show ?thesis using eq by auto
qed

interpretation epoll: poller ep_ok "\<lambda>w c. ch_fd (chans w c)" ep_status ep_interest ep_set_events ch_remove
proof
  fix w :: "('f, 'z) EventLoop_scheme" and c e
  assume w: "ep_ok w" and e: "event_set e" and st: "ep_status w c = New"
    and free: "\<And>c'. ep_status w c' \<in> {On, Off} \<Longrightarrow> ch_fd (chans w c') \<noteq> ch_fd (chans w c)"
  have "channels w (ch_fd (chans w c)) \<noteq> Some c'" for c'
  proof
    assume c': "channels w (ch_fd (chans w c)) = Some c'"
    then have "ch_fd (chans w c') = ch_fd (chans w c)" using w poller_okD(1) by (auto simp: ep_ok_def)
    moreover from this c' ep_registered [OF w, of c'] have "ep_status w c' \<in> {On, Off}"
      by (cases "ep_status w c'") (auto simp: ep_status_def split: if_splits)
    ultimately show False using free by blast
  qed
  then have none: "channels w (ch_fd (chans w c)) = None" by (cases "channels w (ch_fd (chans w c))") auto
  moreover from w none have "ch_index (chans w c) = kNew \<and> isNoneEvent (chans w c)"
    unfolding ep_ok_def by (metis option.distinct(1))
  ultimately have "chan_ok w c" using w by (simp add: chan_ok_def ep_ok_def)
  from ep_watched [OF w this, of e] e show "\<exists>w'. ep_set_events c e w = Inr w' \<and> ep_ok w' \<and>
      (\<lambda>c. ch_fd (chans w' c)) = (\<lambda>c. ch_fd (chans w c)) \<and> ep_status w' = (ep_status w)(c := On) \<and>
      ep_interest w' = (ep_interest w)(ch_fd (chans w c) \<mapsto> (e, c))" by (simp add: event_set_def)
next
  fix w :: "('f, 'z) EventLoop_scheme" and c e
  assume w: "ep_ok w" and st: "ep_status w c = On"
  have c: "chan_ok w c" using ep_registered [OF w, of c] st w by (simp add: chan_ok_def ep_ok_def)
  show "\<exists>w'. ep_set_events c kNoneEvent w = Inr w' \<and> ep_ok w' \<and>
      (\<lambda>c. ch_fd (chans w' c)) = (\<lambda>c. ch_fd (chans w c)) \<and> ep_status w' = (ep_status w)(c := Off) \<and>
      ep_interest w' = (ep_interest w)(ch_fd (chans w c) := None)"
    using ep_watched [OF w c, of kNoneEvent] st by (simp add: ep_status_def split: if_splits)
  assume "event_set e"
  moreover have "(ep_status w)(c := On) = ep_status w" using st by auto
  ultimately show "\<exists>w'. ep_set_events c e w = Inr w' \<and> ep_ok w' \<and>
      (\<lambda>c. ch_fd (chans w' c)) = (\<lambda>c. ch_fd (chans w c)) \<and> ep_status w' = ep_status w \<and>
      ep_interest w' = (ep_interest w)(ch_fd (chans w c) \<mapsto> (e, c))"
    using ep_watched [OF w c, of e] by (simp add: event_set_def)
next
  fix w :: "('f, 'z) EventLoop_scheme" and c
  assume w: "ep_ok w" and st: "ep_status w c = Off"
  have c: "channels w (ch_fd (chans w c)) = Some c" using ep_registered [OF w, of c] st by simp
  have k: "ch_index (chans w c) = kDeleted" "isNoneEvent (chans w c)"
    using poller_okD(2) [of w, OF _ c] w st by (auto simp: ep_ok_def ep_status_def split: if_splits)
  have w': "poller_ok w" "isInLoopThread w" "\<not> ep_refuses w EPOLL_CTL_DEL (ch_fd (chans w c))" "\<not> eventHandling w"
    using w by (auto simp: ep_ok_def)
  note u = ch_remove_unwatched [OF w'(1) c w'(2) k(2) w'(3)]
  have "ep_interest w (ch_fd (chans w c)) = None"
    using poller_okD(3) [OF w'(1), of "ch_fd (chans w c)"] c k(1) by (simp add: index_defs)
  moreover have "channels (unwatched c w) (ch_fd (chans (unwatched c w) c')) = Some c' \<or>
      ch_index (chans (unwatched c w) c') = kNew \<and> isNoneEvent (chans (unwatched c w) c')" for c'
  proof -
    have "channels w (ch_fd (chans w c')) = Some c' \<or> ch_index (chans w c') = kNew \<and> isNoneEvent (chans w c')"
      using w unfolding ep_ok_def by blast
    with c k(2) show ?thesis by (cases "c' = c") (auto simp: unwatched_def isNoneEvent_def)
  qed
  then have "ep_ok (unwatched c w)"
    using w u(2) w'(4) by (simp add: ep_ok_def) (simp add: unwatched_def isInLoopThread_def)
  ultimately show "\<exists>w'. ch_remove c w = Inr w' \<and> ep_ok w' \<and> (\<lambda>c. ch_fd (chans w' c)) = (\<lambda>c. ch_fd (chans w c)) \<and>
      (\<forall>c'. c' \<noteq> c \<longrightarrow> ep_status w' c' = ep_status w c') \<and> ep_status w' c \<in> {New, Gone} \<and> ep_interest w' = ep_interest w"
    using u(1) w'(4) by (auto simp: unwatched_def ep_status_def)
qed


section \<open>The poller over poll keeps the contract\<close>

text \<open>
  Every registered channel knows its entry, every entry belongs to one channel; the descriptor of an ignored one is
  the complement of its own.
\<close>

definition entry_ok :: "pollfd \<Rightarrow> Channel \<Rightarrow> bool" where
  "entry_ok p ch \<longleftrightarrow> pfd_events p = ucast (ch_events ch) \<and> unat (ch_events ch) < 2 ^ 15 \<and> 0 \<le> ch_fd ch \<and>
     pfd_fd p = (if isNoneEvent ch then - ch_fd ch - 1 else ch_fd ch)"

definition pp_ok :: "PollPoller \<Rightarrow> bool" where
  "pp_ok w \<longleftrightarrow> pp_inLoop w \<and>
     (\<forall>fd c. pp_channels w fd = Some c \<longrightarrow> ch_fd (pp_chans w c) = fd \<and> 0 \<le> ch_index (pp_chans w c) \<and>
        nat (ch_index (pp_chans w c)) < length (pollfds w) \<and>
        entry_ok (pollfds w ! nat (ch_index (pp_chans w c))) (pp_chans w c)) \<and>
     (\<forall>i < length (pollfds w). \<exists>c. pp_channels w (ch_fd (pp_chans w c)) = Some c \<and> ch_index (pp_chans w c) = int i)"

definition pp_registered :: "PollPoller \<Rightarrow> nat \<Rightarrow> bool" where
  "pp_registered w c \<longleftrightarrow> pp_channels w (ch_fd (pp_chans w c)) = Some c"

definition pp_status :: "PollPoller \<Rightarrow> nat \<Rightarrow> chan_status" where
  "pp_status w c =
     (if pp_registered w c then if isNoneEvent (pp_chans w c) then Off else On
      else if ch_index (pp_chans w c) < 0 then New else Gone)"

text \<open>What \<open>poll\<close> is asked: an entry with a negative descriptor is skipped.\<close>

definition pp_interest :: "PollPoller \<Rightarrow> int \<rightharpoonup> 32 word \<times> nat" where
  "pp_interest w fd =
     (case pp_channels w fd of None \<Rightarrow> None
      | Some c \<Rightarrow>
          let p = pollfds w ! nat (ch_index (pp_chans w c))
          in if pfd_fd p = fd then Some (ucast (pfd_events p), c) else None)"

lemma pp_okD:
  assumes "pp_ok w"
  shows "pp_inLoop w"
    and "pp_registered w c \<Longrightarrow> 0 \<le> ch_index (pp_chans w c) \<and> nat (ch_index (pp_chans w c)) < length (pollfds w) \<and>
      entry_ok (pollfds w ! nat (ch_index (pp_chans w c))) (pp_chans w c)"
    and "pp_channels w fd = Some c \<Longrightarrow> ch_fd (pp_chans w c) = fd"
    and "i < length (pollfds w) \<Longrightarrow> \<exists>c. pp_registered w c \<and> ch_index (pp_chans w c) = int i"
  using assms unfolding pp_ok_def pp_registered_def by auto

lemma pp_okI:
  assumes "pp_inLoop w" and "\<And>fd c. pp_channels w fd = Some c \<Longrightarrow> ch_fd (pp_chans w c) = fd"
    and "\<And>c. pp_registered w c \<Longrightarrow> 0 \<le> ch_index (pp_chans w c) \<and> nat (ch_index (pp_chans w c)) < length (pollfds w) \<and>
      entry_ok (pollfds w ! nat (ch_index (pp_chans w c))) (pp_chans w c)"
    and "\<And>i. i < length (pollfds w) \<Longrightarrow> \<exists>c. pp_registered w c \<and> ch_index (pp_chans w c) = int i"
  shows "pp_ok w"
  using assms unfolding pp_ok_def pp_registered_def by metis

lemma pp_registered_fd: "pp_ok w \<Longrightarrow> pp_channels w fd = Some c \<longleftrightarrow> pp_registered w c \<and> ch_fd (pp_chans w c) = fd"
  using pp_okD(3) by (auto simp: pp_registered_def)

text \<open>An entry has one channel.\<close>

lemma pp_index_inj:
  assumes "pp_ok w" and "pp_registered w c" and "pp_registered w c'" and "ch_index (pp_chans w c) = ch_index (pp_chans w c')"
  shows "c = c'"
proof -
  note e = pp_okD(2) [OF assms(1,2)] pp_okD(2) [OF assms(1,3)]
  then have "ch_fd (pp_chans w c) = ch_fd (pp_chans w c')"
    using assms(4) by (auto simp: entry_ok_def split: if_splits)
  with assms(2,3) show ?thesis by (simp add: pp_registered_def)
qed

lemma pp_interest_eq:
  assumes "pp_ok w"
  shows "pp_interest w fd = (case pp_channels w fd of None \<Rightarrow> None
    | Some c \<Rightarrow> if isNoneEvent (pp_chans w c) then None else Some (ch_events (pp_chans w c), c))"
proof (cases "pp_channels w fd")
  case (Some c)
  with assms have c: "pp_registered w c" "ch_fd (pp_chans w c) = fd" by (simp_all add: pp_registered_fd)
  have u: "ucast (ucast x :: 16 word) = x" if "unat x < 2 ^ 15" for x :: "32 word"
  proof -
    have "unat x < 2 ^ 16" using that by simp
    then show ?thesis by (simp add: word_unat_eq_iff unsigned_ucast_eq unsigned_take_bit_eq take_bit_nat_eq_self)
  qed
  from pp_okD(2) [OF assms c(1)] c(2) Some show ?thesis by (auto simp: pp_interest_def entry_ok_def Let_def u)
qed (simp add: pp_interest_def)

text \<open>The kernel looks at a descriptor exactly when the poller is interested in it.\<close>

lemma pp_interest_polled:
  assumes "pp_ok w" and "0 \<le> fd"
  shows "pp_interest w fd \<noteq> None \<longleftrightarrow> (\<exists>p \<in> set (pollfds w). pfd_fd p = fd)"
proof
  assume "pp_interest w fd \<noteq> None"
  then obtain c where c: "pp_channels w fd = Some c" "pfd_fd (pollfds w ! nat (ch_index (pp_chans w c))) = fd"
    by (auto simp: pp_interest_def Let_def split: option.splits if_splits)
  then have "pp_registered w c" using assms(1) by (simp add: pp_registered_fd)
  from pp_okD(2) [OF assms(1) this] c(2) show "\<exists>p \<in> set (pollfds w). pfd_fd p = fd" by (metis nth_mem)
next
  assume "\<exists>p \<in> set (pollfds w). pfd_fd p = fd"
  then obtain i where i: "i < length (pollfds w)" "pfd_fd (pollfds w ! i) = fd" by (metis in_set_conv_nth)
  from pp_okD(4) [OF assms(1) i(1)] obtain c where c: "pp_registered w c" "ch_index (pp_chans w c) = int i" by blast
  from pp_okD(2) [OF assms(1) c(1)] c(2) i(2) assms(2) have "ch_fd (pp_chans w c) = fd"
    by (auto simp: entry_ok_def split: if_splits)
  with c i show "pp_interest w fd \<noteq> None" by (simp add: pp_interest_def pp_registered_def)
qed


lemma pp_update_on:
  assumes w: "pp_ok w" and c: "pp_status w c = On" and e: "unat e < 2 ^ 15"
  shows "\<exists>w'. pp_set_events c e w = Inr w' \<and> pp_ok w' \<and> (\<lambda>c. ch_fd (pp_chans w' c)) = (\<lambda>c. ch_fd (pp_chans w c)) \<and>
    pp_status w' = (pp_status w)(c := if e = kNoneEvent then Off else On) \<and>
    pp_interest w' = (pp_interest w)(ch_fd (pp_chans w c) := (if e = kNoneEvent then None else Some (e, c)))"
proof -
  let ?ch = "pp_chans w c"
  let ?i = "nat (ch_index ?ch)"
  let ?p = "(pollfds w ! ?i)\<lparr>pfd_events := ucast e, pfd_revents := 0,
      pfd_fd := (if e = kNoneEvent then - ch_fd ?ch - 1 else ch_fd ?ch)\<rparr>"
  let ?w = "w\<lparr>pp_chans := (pp_chans w)(c := ?ch\<lparr>ch_events := e, addedToLoop := True\<rparr>), pollfds := (pollfds w)[?i := ?p]\<rparr>"
  have r: "pp_registered w c" "\<not> isNoneEvent ?ch" using c by (auto simp: pp_status_def split: if_splits)
  note D = pp_okD(2) [OF w r(1)]
  have p: "pfd_fd (pollfds w ! ?i) = ch_fd ?ch" "ch_index ?ch < int (length (pollfds w))"
    using D r(2) by (simp add: entry_ok_def, linarith)
  have eq: "pp_set_events c e w = Inr ?w"
    using D r p pp_okD(1) [OF w]
    by (simp add: pp_set_events_def pp_updateChannel_def pp_assertInLoopThread_def Let_def pp_registered_def isNoneEvent_def)
  have reg: "pp_registered ?w = pp_registered w" by (auto simp: pp_registered_def fun_eq_iff)
  have ok: "pp_ok ?w"
  proof (rule pp_okI)
    fix c' assume c': "pp_registered ?w c'"
    show "0 \<le> ch_index (pp_chans ?w c') \<and> nat (ch_index (pp_chans ?w c')) < length (pollfds ?w) \<and>
        entry_ok (pollfds ?w ! nat (ch_index (pp_chans ?w c'))) (pp_chans ?w c')"
    proof (cases "c' = c")
      case True
      with D e show ?thesis by (simp add: entry_ok_def isNoneEvent_def)
    next
      case False
      with c' have "pp_registered w c'" by (simp add: reg)
      moreover from this have "ch_index (pp_chans w c') \<noteq> ch_index ?ch" using pp_index_inj [OF w] r(1) False by metis
      ultimately show ?thesis using pp_okD(2) [OF w, of c'] D False by (simp add: nth_list_update nat_eq_iff2)
    qed
  next
    fix i assume "i < length (pollfds ?w)"
    with pp_okD(4) [OF w, of i] show "\<exists>c. pp_registered ?w c \<and> ch_index (pp_chans ?w c) = int i" by (auto simp: reg)
  qed (use pp_okD(1,3) [OF w] in auto)
  have "pp_interest ?w fd = ((pp_interest w)(ch_fd ?ch := (if e = kNoneEvent then None else Some (e, c)))) fd" for fd
    using r(1) pp_registered_fd [OF w, of fd c]
    by (cases "pp_channels w fd")
      (auto simp: pp_interest_eq [OF ok] pp_interest_eq [OF w] isNoneEvent_def pp_registered_def split: if_splits)
  moreover have "pp_status ?w = (pp_status w)(c := if e = kNoneEvent then Off else On)"
    using r(1) by (auto simp: pp_status_def reg isNoneEvent_def fun_eq_iff)
  ultimately show ?thesis using eq ok by auto
qed

lemma pp_update_new:
  assumes w: "pp_ok w" and c: "pp_status w c = New" and e: "event_set e" and fd: "0 \<le> ch_fd (pp_chans w c)"
    and free: "\<And>c'. pp_status w c' \<in> {On, Off} \<Longrightarrow> ch_fd (pp_chans w c') \<noteq> ch_fd (pp_chans w c)"
  shows "\<exists>w'. pp_set_events c e w = Inr w' \<and> pp_ok w' \<and> (\<lambda>c. ch_fd (pp_chans w' c)) = (\<lambda>c. ch_fd (pp_chans w c)) \<and>
    pp_status w' = (pp_status w)(c := On) \<and> pp_interest w' = (pp_interest w)(ch_fd (pp_chans w c) \<mapsto> (e, c))"
proof -
  let ?ch = "pp_chans w c"
  let ?n = "length (pollfds w)"
  let ?ch' = "?ch\<lparr>ch_events := e, addedToLoop := True, ch_index := int ?n\<rparr>"
  let ?w = "w\<lparr>pp_chans := (pp_chans w)(c := ?ch'), pp_channels := (pp_channels w)(ch_fd ?ch \<mapsto> c),
      pollfds := pollfds w @ [\<lparr>pfd_fd = ch_fd ?ch, pfd_events = ucast e, pfd_revents = 0\<rparr>]\<rparr>"
  have r: "\<not> pp_registered w c" "ch_index ?ch < 0" using c by (auto simp: pp_status_def split: if_splits)
  have none: "pp_channels w (ch_fd ?ch) = None"
  proof (rule ccontr)
    assume "pp_channels w (ch_fd ?ch) \<noteq> None"
    then obtain c' where "pp_registered w c'" "ch_fd (pp_chans w c') = ch_fd ?ch" using pp_registered_fd [OF w] by auto
    with free [of c'] show False by (cases "isNoneEvent (pp_chans w c')") (auto simp: pp_status_def)
  qed
  have eq: "pp_set_events c e w = Inr ?w"
    using r(2) none pp_okD(1) [OF w]
    by (simp add: pp_set_events_def pp_updateChannel_def pp_assertInLoopThread_def Let_def pp_set_index_def)
  have reg: "pp_registered ?w c' \<longleftrightarrow> c' = c \<or> pp_registered w c'" for c' using none by (auto simp: pp_registered_def)
  have ok: "pp_ok ?w"
  proof (rule pp_okI)
    fix c' assume "pp_registered ?w c'"
    then show "0 \<le> ch_index (pp_chans ?w c') \<and> nat (ch_index (pp_chans ?w c')) < length (pollfds ?w) \<and>
        entry_ok (pollfds ?w ! nat (ch_index (pp_chans ?w c'))) (pp_chans ?w c')"
      using pp_okD(2) [OF w, of c'] e fd r(1)
      by (cases "c' = c") (auto simp: reg entry_ok_def isNoneEvent_def event_set_def nth_append)
  next
    fix i assume "i < length (pollfds ?w)"
    then consider "i = ?n" | "i < ?n" by fastforce
    then show "\<exists>c. pp_registered ?w c \<and> ch_index (pp_chans ?w c) = int i"
    proof cases
      case 2
      from pp_okD(4) [OF w 2] obtain c' where "pp_registered w c'" "ch_index (pp_chans w c') = int i" by blast
      with r(1) show ?thesis by (intro exI [of _ c']) (auto simp: reg)
    qed (auto simp: reg intro!: exI [of _ c])
  next
    fix fd c' assume "pp_channels ?w fd = Some c'"
    then show "ch_fd (pp_chans ?w c') = fd" using pp_okD(3) [OF w, of fd c'] by (auto split: if_splits)
  qed (use pp_okD(1) [OF w] in simp)
  have "pp_interest ?w fd = ((pp_interest w)(ch_fd ?ch \<mapsto> (e, c))) fd" for fd
    using none r(1) pp_registered_fd [OF w, of fd c] e
    by (cases "pp_channels w fd")
      (auto simp: pp_interest_eq [OF ok] pp_interest_eq [OF w] isNoneEvent_def event_set_def)
  moreover have "pp_status ?w = (pp_status w)(c := On)"
    using e by (auto simp: pp_status_def reg isNoneEvent_def event_set_def fun_eq_iff)
  ultimately show ?thesis using eq ok by auto
qed


text \<open>Removing an entry moves the last one into its place, and its channel learns the new index.\<close>

lemma pp_remove_off:
  assumes w: "pp_ok w" and c: "pp_status w c = Off"
  shows "\<exists>w'. pp_remove c w = Inr w' \<and> pp_ok w' \<and> (\<lambda>c. ch_fd (pp_chans w' c)) = (\<lambda>c. ch_fd (pp_chans w c)) \<and>
    (\<forall>c'. c' \<noteq> c \<longrightarrow> pp_status w' c' = pp_status w c') \<and> pp_status w' c \<in> {New, Gone} \<and> pp_interest w' = pp_interest w"
proof -
  let ?ch = "pp_chans w c"
  let ?i = "nat (ch_index ?ch)"
  let ?n = "length (pollfds w)"
  have r: "pp_registered w c" "isNoneEvent ?ch" using c by (auto simp: pp_status_def split: if_splits)
  note D = pp_okD(2) [OF w r(1)]
  have i: "ch_index ?ch < int ?n" "?i < ?n" using D by linarith+
  then have "?n - 1 < ?n" by linarith
  from pp_okD(4) [OF w this] obtain d where d: "pp_registered w d" "ch_index (pp_chans w d) = int (?n - 1)" by blast
  note E = pp_okD(2) [OF w d(1)]
  have ne: "pollfds w \<noteq> []" using i(2) by auto
  have cd: "c = d \<longleftrightarrow> ?i = ?n - 1"
    using pp_index_inj [OF w r(1) d(1)] d(2) D by auto
  define chs where "chs = (if ?i = ?n - 1 then (pp_chans w)(c := ?ch\<lparr>addedToLoop := False\<rparr>)
    else (pp_chans w)(c := ?ch\<lparr>addedToLoop := False\<rparr>, d := (pp_chans w d)\<lparr>ch_index := ch_index ?ch\<rparr>))"
  let ?w = "w\<lparr>pp_chans := chs, pp_channels := (pp_channels w)(ch_fd ?ch := None),
      pollfds := butlast ((pollfds w)[?i := last (pollfds w)])\<rparr>"
  have last: "channelAtEnd (last (pollfds w)) = ch_fd (pp_chans w d)"
    using E d(2) by (auto simp: channelAtEnd_def entry_ok_def last_conv_nth [OF ne] split: if_splits)
  have fds: "ch_fd (pp_chans w d) \<noteq> ch_fd ?ch" if "?i \<noteq> ?n - 1"
    using that cd d(1) r(1) by (auto simp: pp_registered_def)
  have eq: "pp_remove c w = Inr ?w"
  proof (cases "?i = ?n - 1")
    case True
    then have "butlast ((pollfds w)[?i := last (pollfds w)]) = butlast (pollfds w)"
      using list_update_id [of "pollfds w" ?i] by (simp add: last_conv_nth [OF ne])
    with True D r i(1) pp_okD(1) [OF w] show ?thesis
      by (simp add: pp_remove_def pp_removeChannel_def pp_assertInLoopThread_def Let_def pp_registered_def isNoneEvent_def
          entry_ok_def chs_def)
  next
    case False
    with D r d(1) i(1) pp_okD(1) [OF w] fds [OF False] cd show ?thesis
      unfolding pp_remove_def pp_removeChannel_def pp_assertInLoopThread_def Let_def
      by (simp add: last pp_registered_def isNoneEvent_def entry_ok_def chs_def pp_set_index_def)
  qed
  have f: "ch_fd (chs x) = ch_fd (pp_chans w x)" "ch_events (chs x) = ch_events (pp_chans w x)" for x
    using cd by (auto simp: chs_def)
  have idx: "ch_index (chs x) = (if x = d then ch_index ?ch else ch_index (pp_chans w x))" for x
    using cd by (auto simp: chs_def)
  have reg: "pp_registered ?w x \<longleftrightarrow> x \<noteq> c \<and> pp_registered w x" for x
    using r(1) by (auto simp: pp_registered_def f)
  have ok: "pp_ok ?w"
  proof (rule pp_okI)
    fix x assume "pp_registered ?w x"
    then have x: "x \<noteq> c" "pp_registered w x" by (simp_all add: reg)
    note X = pp_okD(2) [OF w x(2)]
    have ent: "entry_ok p (chs x) = entry_ok p (pp_chans w x)" for p x by (simp add: entry_ok_def f isNoneEvent_def)
    show "0 \<le> ch_index (pp_chans ?w x) \<and> nat (ch_index (pp_chans ?w x)) < length (pollfds ?w) \<and>
        entry_ok (pollfds ?w ! nat (ch_index (pp_chans ?w x))) (pp_chans ?w x)"
    proof (cases "x = d")
      case True
      with x(1) cd i(2) have "?i < ?n - 1" by auto
      moreover have "nat (ch_index (pp_chans w d)) = ?n - 1" unfolding d(2) by (rule nat_int)
      then have "entry_ok (last (pollfds w)) (chs x)" using X True by (simp add: ent last_conv_nth [OF ne])
      ultimately show ?thesis using True D by (simp add: idx nth_butlast nth_list_update)
    next
      case False
      have "ch_index (pp_chans w x) \<noteq> int (?n - 1)" "ch_index (pp_chans w x) \<noteq> ch_index ?ch"
        using pp_index_inj [OF w x(2) d(1)] pp_index_inj [OF w x(2) r(1)] False x(1) d(2) by auto
      with X D have "nat (ch_index (pp_chans w x)) < ?n - 1" "nat (ch_index (pp_chans w x)) \<noteq> ?i" by auto
      with False X show ?thesis by (simp add: idx ent nth_butlast nth_list_update)
    qed
  next
    fix j assume "j < length (pollfds ?w)"
    then have j: "j < ?n - 1" by simp
    show "\<exists>x. pp_registered ?w x \<and> ch_index (pp_chans ?w x) = int j"
    proof (cases "j = ?i")
      case True
      with j cd d(1) D show ?thesis by (intro exI [of _ d]) (auto simp: reg idx)
    next
      case False
      from j have "j < ?n" by linarith
      from pp_okD(4) [OF w this] obtain x where x: "pp_registered w x" "ch_index (pp_chans w x) = int j" by blast
      with False j d(2) D show ?thesis by (intro exI [of _ x]) (auto simp: reg idx)
    qed
  next
    fix fd x assume "pp_channels ?w fd = Some x"
    then show "ch_fd (pp_chans ?w x) = fd" using pp_okD(3) [OF w, of fd x] by (auto simp: f split: if_splits)
  qed (use pp_okD(1) [OF w] in simp)
  have "pp_interest ?w fd = pp_interest w fd" for fd
    using r pp_registered_fd [OF w, of fd c]
    by (cases "pp_channels w fd")
      (auto simp: pp_interest_eq [OF ok] pp_interest_eq [OF w] isNoneEvent_def f pp_registered_def)
  moreover have "pp_status ?w x = pp_status w x" if "x \<noteq> c" for x
    using that D d(1) by (cases "x = d") (auto simp: pp_status_def reg isNoneEvent_def f idx)
  moreover have "pp_status ?w c \<in> {New, Gone}" by (simp add: pp_status_def reg)
  ultimately show ?thesis using eq ok f by auto
qed

interpretation poll: poller pp_ok "\<lambda>w c. ch_fd (pp_chans w c)" pp_status pp_interest pp_set_events pp_remove
proof
  fix w c e
  assume w: "pp_ok w" and c: "pp_status w c = On"
  show "\<exists>w'. pp_set_events c kNoneEvent w = Inr w' \<and> pp_ok w' \<and>
      (\<lambda>c. ch_fd (pp_chans w' c)) = (\<lambda>c. ch_fd (pp_chans w c)) \<and> pp_status w' = (pp_status w)(c := Off) \<and>
      pp_interest w' = (pp_interest w)(ch_fd (pp_chans w c) := None)"
    using pp_update_on [OF w c, of kNoneEvent] by (simp add: kNoneEvent_def)
  assume "event_set e"
  moreover have "(pp_status w)(c := On) = pp_status w" using c by auto
  ultimately show "\<exists>w'. pp_set_events c e w = Inr w' \<and> pp_ok w' \<and>
      (\<lambda>c. ch_fd (pp_chans w' c)) = (\<lambda>c. ch_fd (pp_chans w c)) \<and> pp_status w' = pp_status w \<and>
      pp_interest w' = (pp_interest w)(ch_fd (pp_chans w c) \<mapsto> (e, c))"
    using pp_update_on [OF w c, of e] by (simp add: event_set_def)
qed (rule pp_update_new, assumption+, rule pp_remove_off)


section \<open>Reporting events\<close>

lemma pp_fill_ok:
  assumes "\<And>p. p \<in> set pfds \<Longrightarrow> sint (pfd_revents p) > 0 \<Longrightarrow> \<exists>c. pp_channels w (pfd_fd p) = Some c \<and> ch_fd (pp_chans w c) = pfd_fd p"
    and "length (filter (\<lambda>p. sint (pfd_revents p) > 0) pfds) \<le> n"
  shows "\<exists>w'. pp_fillActiveChannels pfds n w acc = Inr (acc @ map (\<lambda>p. the (pp_channels w (pfd_fd p)))
      (filter (\<lambda>p. sint (pfd_revents p) > 0) pfds), w') \<and> pollfds w' = pollfds w \<and> pp_channels w' = pp_channels w"
  using assms
proof (induction pfds arbitrary: n w acc)
  case (Cons p pfds)
  show ?case
  proof (cases "sint (pfd_revents p) > 0")
    case True
    with Cons.prems(1) [of p] obtain c where c: "pp_channels w (pfd_fd p) = Some c" "ch_fd (pp_chans w c) = pfd_fd p" by auto
    let ?w = "w\<lparr>pp_chans := (pp_chans w)(c := (pp_chans w c)\<lparr>ch_revents := ucast (pfd_revents p)\<rparr>)\<rparr>"
    have "\<exists>c'. pp_channels ?w (pfd_fd q) = Some c' \<and> ch_fd (pp_chans ?w c') = pfd_fd q"
      if q: "q \<in> set pfds" "sint (pfd_revents q) > 0" for q
      using Cons.prems(1) [of q] q c(2) by auto
    with Cons.IH [of ?w "n - 1" "acc @ [c]"] Cons.prems(2) True c show ?thesis by auto
  next
    case False
    have "\<exists>c'. pp_channels w (pfd_fd q) = Some c' \<and> ch_fd (pp_chans w c') = pfd_fd q"
      if "q \<in> set pfds" "sint (pfd_revents q) > 0" for q using that Cons.prems(1) [of q] by simp
    with Cons.IH [of w n acc] Cons.prems(2) False show ?thesis by (cases "n > 0") (auto simp: filter_empty_conv)
  qed
qed auto

text \<open>A call of \<open>poll\<close> that returns makes active exactly the channels with events, in the order of the entries.\<close>

lemma pp_poll_ok:
  assumes w: "pp_ok w" and len: "length revs = length (pollfds w)"
  shows "\<exists>w'. pp_poll (Inr revs) w = Inr (map (\<lambda>p. the (pp_channels w (pfd_fd p)))
      (filter (\<lambda>p. sint (pfd_revents p) > 0) (kernel_poll revs (pollfds w))), w')"
proof -
  let ?w = "w\<lparr>pollfds := kernel_poll revs (pollfds w)\<rparr>"
  let ?pos = "\<lambda>p. sint (pfd_revents p) > 0"
  have kp: "length (kernel_poll revs (pollfds w)) = length (pollfds w)"
    "i < length (pollfds w) \<Longrightarrow> kernel_poll revs (pollfds w) ! i =
      (pollfds w ! i)\<lparr>pfd_revents := (if pfd_fd (pollfds w ! i) < 0 then 0 else revs ! i)\<rparr>" for i
    using len by (simp_all add: kernel_poll_def)
  have reg: "\<exists>c. pp_channels ?w (pfd_fd p) = Some c \<and> ch_fd (pp_chans ?w c) = pfd_fd p"
    if p: "p \<in> set (kernel_poll revs (pollfds w))" "?pos p" for p
  proof -
    from p(1) obtain i where i: "i < length (pollfds w)" "p = kernel_poll revs (pollfds w) ! i"
      by (auto simp: in_set_conv_nth kp(1))
    with p(2) have fd: "0 \<le> pfd_fd (pollfds w ! i)" "pfd_fd p = pfd_fd (pollfds w ! i)"
      by (auto simp: kp(2) split: if_splits)
    from pp_okD(4) [OF w i(1)] obtain c where c: "pp_registered w c" "ch_index (pp_chans w c) = int i" by blast
    from pp_okD(2) [OF w c(1)] c(2) fd have "ch_fd (pp_chans w c) = pfd_fd p"
      by (auto simp: entry_ok_def split: if_splits)
    with c(1) show ?thesis by (auto simp: pp_registered_def)
  qed
  have le: "length (filter ?pos ps) \<le> length (filter (\<lambda>p. pfd_revents p \<noteq> 0) ps)" for ps :: "pollfd list"
    by (induction ps) auto
  show ?thesis
  proof (cases "filter (\<lambda>p. pfd_revents p \<noteq> 0) (kernel_poll revs (pollfds w)) = []")
    case True
    then have "filter ?pos (kernel_poll revs (pollfds w)) = []" using le [of "kernel_poll revs (pollfds w)"] by simp
    with True show ?thesis by (simp add: pp_poll_def Let_def)
  next
    case False
    from pp_fill_ok [of "kernel_poll revs (pollfds w)" ?w, OF reg le, where acc = "[]"] obtain w' where
      "pp_fillActiveChannels (kernel_poll revs (pollfds w)) (length (filter (\<lambda>p. pfd_revents p \<noteq> 0)
        (kernel_poll revs (pollfds w)))) ?w [] = Inr (map (\<lambda>p. the (pp_channels w (pfd_fd p)))
        (filter ?pos (kernel_poll revs (pollfds w))), w')" by auto
    with False show ?thesis by (simp add: pp_poll_def Let_def)
  qed
qed

section \<open>Properties\<close>

text \<open>
  C28. The two pollers implement one contract: from two empty pollers with the same channels, every sequence of
  operations in which a channel is watched while it is new or watched, ignored while it is watched and removed while it is
  ignored runs without a failed assertion on both, and leaves both asking the kernel for exactly the same events of
  the same descriptors, those of the specification; the table of the poller over \<open>poll\<close> stays consistent, although
  a removal moves entries.
\<close>

theorem pollers_agree:
  assumes "ep_ok w" and "\<forall>c. ep_status w c = New" and "ep_interest w = Map.empty"
    and "pp_ok p" and "\<forall>c. pp_status p c = New" and "pp_interest p = Map.empty"
    and "\<forall>c. ch_fd (pp_chans p c) = ch_fd (chans w c)"
    and "v = \<lparr>v_fd = (\<lambda>c. ch_fd (chans w c)), v_status = (\<lambda>_. New), v_interest = Map.empty\<rparr>" and "legal_seq v cmds"
  shows "\<exists>w' p'. run_all (poll_step ep_set_events ch_remove) w cmds = Inr w' \<and>
    run_all (poll_step pp_set_events pp_remove) p cmds = Inr p' \<and> pp_ok p' \<and>
    ep_interest w' = pp_interest p' \<and> pp_interest p' = v_interest (foldl view_step v cmds)"
proof -
  have "epoll.shows_view v w" "poll.shows_view v p"
    using assms by (auto simp: epoll.shows_view_def poll.shows_view_def)
  from epoll.poll_steps_ok [OF this(1) assms(9)] poll.poll_steps_ok [OF this(2) assms(9)]
  show ?thesis by (auto simp: epoll.shows_view_def poll.shows_view_def)
qed

theorem pollers_agree_witness:
  "\<exists>w p w' p'. ep_ok w \<and> pp_ok p \<and> run_all (poll_step ep_set_events ch_remove) (w :: nat EventLoop)
       [Watch 1 kReadEvent, Watch 2 kReadEvent, Watch 1 kWriteEvent, Ignore 1, Forget 1] = Inr w' \<and>
     run_all (poll_step pp_set_events pp_remove) p
       [Watch 1 kReadEvent, Watch 2 kReadEvent, Watch 1 kWriteEvent, Ignore 1, Forget 1] = Inr p' \<and>
     ep_interest w' = pp_interest p' \<and> pp_interest p' = [2 \<mapsto> (kReadEvent, 2)]"
proof -
  let ?heap = "\<lambda>c. new_Channel (int c)"
  let ?w = "\<lparr>chans = ?heap, alive = (\<lambda>_. False), channels = Map.empty, ep_interest = Map.empty, ep_refuses = (\<lambda>_ _. False),
      ep_size = 16, threadId = 0, this_tid = 0, looping = False, quit_flag = False, eventHandling = False,
      callingPendingFunctors = False, iteration = 0, activeChannels = [], currentActiveChannel = None,
      pendingFunctors = [], wakeupChannel = 0, eventfd_count = 0\<rparr> :: nat EventLoop"
  let ?p = "\<lparr>pp_chans = ?heap, pp_channels = Map.empty, pollfds = [], pp_inLoop = True\<rparr>"
  let ?v = "\<lparr>v_fd = (\<lambda>c. ch_fd (chans ?w c)), v_status = (\<lambda>_. New), v_interest = Map.empty\<rparr>"
  let ?cmds = "[Watch 1 kReadEvent, Watch 2 kReadEvent, Watch 1 kWriteEvent, Ignore 1, Forget 1]"
  have w: "ep_ok ?w" "\<forall>c. ep_status ?w c = New" "ep_interest ?w = Map.empty"
    by (simp_all add: ep_ok_def poller_ok_def isInLoopThread_def ep_status_def new_Channel_def index_defs isNoneEvent_def
        kNoneEvent_def)
  have p: "pp_ok ?p" "\<forall>c. pp_status ?p c = New" "pp_interest ?p = Map.empty" "\<forall>c. ch_fd (pp_chans ?p c) = ch_fd (chans ?w c)"
    by (simp_all add: pp_ok_def pp_status_def pp_registered_def new_Channel_def pp_interest_def fun_eq_iff)
  have l: "legal_seq ?v ?cmds" by (auto simp: event_set_def ev_defs new_Channel_def)
  have e: "v_interest (foldl view_step ?v ?cmds) = [2 \<mapsto> (kReadEvent, 2)]" by (simp add: new_Channel_def fun_upd_twist)
  from pollers_agree [OF w p refl l] w(1) p(1) show ?thesis unfolding e by blast
qed

section \<open>Where they differ\<close>

text \<open>
  Enabling an ignored channel again: the epoll poller watches it, the poller over \<open>poll\<close> leaves the negative
  descriptor in its entry, so that the kernel never looks at it.
\<close>

lemma reenabled_channel_not_polled:
  assumes w: "pp_ok w" and c: "pp_status w c = Off"
  shows "\<exists>w'. pp_set_events c e w = Inr w' \<and> pp_interest w' (ch_fd (pp_chans w c)) = None"
proof -
  have r: "pp_registered w c" "isNoneEvent (pp_chans w c)" using c by (auto simp: pp_status_def split: if_splits)
  note D = pp_okD(2) [OF w r(1)]
  have "ch_index (pp_chans w c) < int (length (pollfds w))" using D by linarith
  with D r pp_okD(1) [OF w] show ?thesis
    by (simp add: pp_set_events_def pp_updateChannel_def pp_assertInLoopThread_def Let_def pp_registered_def entry_ok_def
        pp_interest_def)
qed

lemma reenabled_channel_epolled:
  assumes "ep_ok w" and "ep_status w c = Off" and "event_set e"
  shows "\<exists>w'. ep_set_events c e w = Inr w' \<and> ep_interest w' (ch_fd (chans w c)) = Some (e, c)"
proof -
  have "chan_ok w c" using ep_registered [OF assms(1), of c] assms(1,2) by (simp add: chan_ok_def ep_ok_def)
  from ep_watched [OF assms(1) this, of e] assms(3) show ?thesis by (auto simp: event_set_def)
qed

end
