(* ===== verification/Mu_Timer.thy ===== *)
theory Mu_Timer
  imports Prelude "HOL-Library.Product_Lexorder"
begin

text \<open>
  The timer queue of mucgi (\<^verbatim>\<open>mucgi/muduo_net/TimerQueue.cc\<close>, \<^verbatim>\<open>Timer.h\<close>, \<^verbatim>\<open>Timer.cc\<close>) with
  the points in time of \<^verbatim>\<open>muduo_base/Timestamp.h\<close>.

  A timer is an object at an address of the heap of the queue. The set of entries ordered by time and address is a
  sorted list. The interval is the count of microseconds \<open>addTime\<close> adds, with the flag of whether it is positive. The
  clock is a sequence of readings. A callback is a function of the whole state, since it may add and cancel timers. Calls
  from another thread are queued. \<open>fired\<close> records the entries whose callbacks ran.
\<close>

section \<open>State\<close>

record Timer =
  t_callback :: nat
  t_expiration :: int
  t_interval :: int
  t_repeat :: bool
  t_sequence :: int

datatype timer_call = Call_add nat | Call_cancel nat int

record 'u TimerQueue =
  t_heap :: "nat \<rightharpoonup> Timer"
  timers :: "(int \<times> nat) list"
  activeTimers :: "(nat \<times> int) set"
  callingExpiredTimers :: bool
  cancelingTimers :: "(nat \<times> int) set"
  numCreated :: int
  timerfd_at :: "int option"
  k_clock :: "nat \<Rightarrow> int"
  k_ticks :: nat
  t_inLoop :: bool
  t_pending :: "timer_call list"
  fired :: "(int \<times> nat) list"
  t_user :: 'u

text \<open>\<open>Timestamp::now\<close> reads the clock; a timestamp is valid if it is positive.\<close>

definition now_reading :: "'u TimerQueue \<Rightarrow> int \<times> 'u TimerQueue" where
  "now_reading q = (k_clock q (k_ticks q), q\<lparr>k_ticks := k_ticks q + 1\<rparr>)"

definition ts_valid :: "int \<Rightarrow> bool" where
  "ts_valid t \<longleftrightarrow> t > 0"

definition addTime :: "int \<Rightarrow> int \<Rightarrow> int" where
  "addTime t delta = t + delta"

definition new_TimerQueue :: "(nat \<Rightarrow> int) \<Rightarrow> 'u \<Rightarrow> 'u TimerQueue" where
  "new_TimerQueue clock u =
     \<lparr>t_heap = Map.empty, timers = [], activeTimers = {}, callingExpiredTimers = False, cancelingTimers = {},
      numCreated = 0, timerfd_at = None, k_clock = clock, k_ticks = 0, t_inLoop = True, t_pending = [], fired = [],
      t_user = u\<rparr>"

section \<open>Operations\<close>

text \<open>The timerfd fires after the time left, at least 100 microseconds.\<close>

definition howMuchTimeFromNow :: "int \<Rightarrow> int \<Rightarrow> int" where
  "howMuchTimeFromNow expiration now = (if expiration - now < 100 then 100 else expiration - now)"

definition resetTimerfd :: "int \<Rightarrow> 'u TimerQueue \<Rightarrow> 'u TimerQueue" where
  "resetTimerfd expiration q =
     (let (now, q1) = now_reading q in q1\<lparr>timerfd_at := Some (now + howMuchTimeFromNow expiration now)\<rparr>)"

definition sizes_agree :: "'u TimerQueue \<Rightarrow> bool" where
  "sizes_agree q \<longleftrightarrow> length (timers q) = card (activeTimers q)"

definition get_timer :: "nat \<Rightarrow> 'u TimerQueue \<Rightarrow> Timer res" where
  "get_timer a q = (case t_heap q a of None \<Rightarrow> Inl Use_after_free | Some t \<Rightarrow> Inr t)"

definition insert_timer :: "nat \<Rightarrow> 'u TimerQueue \<Rightarrow> (bool \<times> 'u TimerQueue) res" where
  "insert_timer a q = (if \<not> t_inLoop q then Inl Abort else
     assert_res (sizes_agree q)
       (bind_res (get_timer a q) (\<lambda>t.
         let when = t_expiration t;
             earliestChanged = (timers q = [] \<or> when < fst (hd (timers q)));
             q1 = q\<lparr>timers := insort (when, a) (timers q), activeTimers := insert (a, t_sequence t) (activeTimers q)\<rparr>
         in assert_res ((when, a) \<notin> set (timers q)) (assert_res ((a, t_sequence t) \<notin> activeTimers q)
              (assert_res (sizes_agree q1) (Inr (earliestChanged, q1)))))))"

definition addTimerInLoop :: "nat \<Rightarrow> 'u TimerQueue \<Rightarrow> 'u TimerQueue res" where
  "addTimerInLoop a q = (if \<not> t_inLoop q then Inl Abort else
     bind_res (insert_timer a q) (\<lambda>(earliestChanged, q1).
       if earliestChanged then bind_res (get_timer a q1) (\<lambda>t. Inr (resetTimerfd (t_expiration t) q1)) else Inr q1))"

text \<open>\<open>a\<close> is the address the allocator returns for the timer; the result is the \<open>TimerId\<close>.\<close>

definition new_Timer :: "nat \<Rightarrow> nat \<Rightarrow> int \<Rightarrow> int \<Rightarrow> bool \<Rightarrow> 'u TimerQueue \<Rightarrow> Timer \<times> 'u TimerQueue" where
  "new_Timer a cb when interval rep q =
     (let t = \<lparr>t_callback = cb, t_expiration = when, t_interval = interval, t_repeat = rep, t_sequence = numCreated q + 1\<rparr>
      in (t, q\<lparr>numCreated := numCreated q + 1, t_heap := (t_heap q)(a \<mapsto> t)\<rparr>))"

definition addTimer ::
  "nat \<Rightarrow> nat \<Rightarrow> int \<Rightarrow> int \<Rightarrow> bool \<Rightarrow> 'u TimerQueue \<Rightarrow> ((nat \<times> int) \<times> 'u TimerQueue) res" where
  "addTimer a cb when interval rep q =
     (let (t, q1) = new_Timer a cb when interval rep q
      in bind_res (if t_inLoop q1 then addTimerInLoop a q1 else Inr (q1\<lparr>t_pending := t_pending q1 @ [Call_add a]\<rparr>))
           (\<lambda>q2. Inr ((a, t_sequence t), q2)))"

definition cancelInLoop :: "nat \<times> int \<Rightarrow> 'u TimerQueue \<Rightarrow> 'u TimerQueue res" where
  "cancelInLoop timer q = (if \<not> t_inLoop q then Inl Abort else
     assert_res (sizes_agree q)
       (bind_res
         (if timer \<in> activeTimers q then
            bind_res (get_timer (fst timer) q) (\<lambda>t.
              assert_res ((t_expiration t, fst timer) \<in> set (timers q))
                (Inr (q\<lparr>timers := remove1 (t_expiration t, fst timer) (timers q),
                       t_heap := (t_heap q)(fst timer := None), activeTimers := activeTimers q - {timer}\<rparr>)))
          else if callingExpiredTimers q then Inr (q\<lparr>cancelingTimers := insert timer (cancelingTimers q)\<rparr>)
          else Inr q)
         (\<lambda>q1. assert_res (sizes_agree q1) (Inr q1))))"

definition cancel :: "nat \<times> int \<Rightarrow> 'u TimerQueue \<Rightarrow> 'u TimerQueue res" where
  "cancel timer q =
     (if t_inLoop q then cancelInLoop timer q
      else Inr (q\<lparr>t_pending := t_pending q @ [Call_cancel (fst timer) (snd timer)]\<rparr>))"

fun exec_timer_call :: "'u TimerQueue \<Rightarrow> timer_call \<Rightarrow> 'u TimerQueue res" where
  "exec_timer_call q (Call_add a) = addTimerInLoop a q"
| "exec_timer_call q (Call_cancel a s) = cancelInLoop (a, s) q"

text \<open>No timer is at the highest address: the sentry is above every entry of its time.\<close>

definition uintptr_max :: nat where "uintptr_max = 2 ^ 64 - 1"

definition erase_active :: "'u TimerQueue \<Rightarrow> int \<times> nat \<Rightarrow> 'u TimerQueue res" where
  "erase_active q e =
     bind_res (get_timer (snd e) q) (\<lambda>t. assert_res ((snd e, t_sequence t) \<in> activeTimers q)
       (Inr (q\<lparr>activeTimers := activeTimers q - {(snd e, t_sequence t)}\<rparr>)))"

definition getExpired :: "int \<Rightarrow> 'u TimerQueue \<Rightarrow> ((int \<times> nat) list \<times> 'u TimerQueue) res" where
  "getExpired now q = assert_res (sizes_agree q)
     (let expired = takeWhile (\<lambda>e. e < (now, uintptr_max)) (timers q);
          rest = dropWhile (\<lambda>e. e < (now, uintptr_max)) (timers q)
      in assert_res (rest = [] \<or> now < fst (hd rest))
           (bind_res (run_all erase_active (q\<lparr>timers := rest\<rparr>) expired) (\<lambda>q1.
             assert_res (sizes_agree q1) (Inr (expired, q1)))))"

definition restart :: "int \<Rightarrow> Timer \<Rightarrow> Timer" where
  "restart now t = t\<lparr>t_expiration := (if t_repeat t then addTime now (t_interval t) else 0)\<rparr>"

definition reset_one :: "int \<Rightarrow> 'u TimerQueue \<Rightarrow> int \<times> nat \<Rightarrow> 'u TimerQueue res" where
  "reset_one now q e =
     bind_res (get_timer (snd e) q) (\<lambda>t.
       if t_repeat t \<and> (snd e, t_sequence t) \<notin> cancelingTimers q then
         bind_res (insert_timer (snd e) (q\<lparr>t_heap := (t_heap q)(snd e \<mapsto> restart now t)\<rparr>)) (\<lambda>(_, q1). Inr q1)
       else Inr (q\<lparr>t_heap := (t_heap q)(snd e := None)\<rparr>))"

definition reset_timers :: "(int \<times> nat) list \<Rightarrow> int \<Rightarrow> 'u TimerQueue \<Rightarrow> 'u TimerQueue res" where
  "reset_timers expired now q =
     bind_res (run_all (reset_one now) q expired) (\<lambda>q1.
       if timers q1 = [] then Inr q1
       else bind_res (get_timer (snd (hd (timers q1))) q1) (\<lambda>t.
         Inr (if ts_valid (t_expiration t) then resetTimerfd (t_expiration t) q1 else q1)))"

type_synonym 'u timer_code = "nat \<Rightarrow> 'u TimerQueue \<Rightarrow> 'u TimerQueue res"

definition run_timer :: "'u timer_code \<Rightarrow> 'u TimerQueue \<Rightarrow> int \<times> nat \<Rightarrow> 'u TimerQueue res" where
  "run_timer user q e =
     bind_res (get_timer (snd e) q) (\<lambda>t. user (t_callback t) (q\<lparr>fired := fired q @ [e]\<rparr>))"

definition tq_handleRead :: "'u timer_code \<Rightarrow> 'u TimerQueue \<Rightarrow> 'u TimerQueue res" where
  "tq_handleRead user q = (if \<not> t_inLoop q then Inl Abort else
     let (now, q1) = now_reading q
     in bind_res (getExpired now q1) (\<lambda>(expired, q2).
        bind_res (run_all (run_timer user) (q2\<lparr>callingExpiredTimers := True, cancelingTimers := {}\<rparr>) expired) (\<lambda>q3.
        reset_timers expired now (q3\<lparr>callingExpiredTimers := False\<rparr>))))"


section \<open>The invariant\<close>

text \<open>
  The entries are sorted, each is a live timer with its time, and \<open>activeTimers\<close> is the same set by address and sequence
  number. \<open>X\<close> are live timers in no entry: those whose callbacks are running, and those on their way from another
  thread.
\<close>

definition seq_of :: "'u TimerQueue \<Rightarrow> nat \<Rightarrow> int" where
  "seq_of q a = t_sequence (the (t_heap q a))"

definition tq_inv :: "nat set \<Rightarrow> 'u TimerQueue \<Rightarrow> bool" where
  "tq_inv X q \<longleftrightarrow> t_inLoop q \<and> sorted (timers q) \<and> distinct (map snd (timers q)) \<and>
     (\<forall>e \<in> set (timers q). snd e < uintptr_max \<and> (\<exists>t. t_heap q (snd e) = Some t \<and> t_expiration t = fst e)) \<and>
     (\<forall>a \<in> X. a < uintptr_max \<and> t_heap q a \<noteq> None \<and> a \<notin> snd ` set (timers q)) \<and>
     activeTimers q = (\<lambda>a. (a, seq_of q a)) ` snd ` set (timers q)"

lemma tq_invD:
  assumes "tq_inv X q"
  shows "t_inLoop q" "sorted (timers q)" "distinct (map snd (timers q))"
    "e \<in> set (timers q) \<Longrightarrow> snd e < uintptr_max \<and> (\<exists>t. t_heap q (snd e) = Some t \<and> t_expiration t = fst e)"
    "a \<in> X \<Longrightarrow> a < uintptr_max \<and> t_heap q a \<noteq> None \<and> a \<notin> snd ` set (timers q)"
    "activeTimers q = (\<lambda>a. (a, seq_of q a)) ` snd ` set (timers q)"
  using assms unfolding tq_inv_def by blast+

lemma tq_inv_active:
  assumes "tq_inv X q"
  shows "(a, s) \<in> activeTimers q \<longleftrightarrow> a \<in> snd ` set (timers q) \<and> s = seq_of q a"
  unfolding tq_invD(6) [OF assms] by auto

lemma tq_inv_sizes: "tq_inv X q \<Longrightarrow> sizes_agree q"
proof -
  assume q: "tq_inv X q"
  have "card (activeTimers q) = card (snd ` set (timers q))"
    unfolding tq_invD(6) [OF q] by (rule card_image) (auto simp: inj_on_def)
  also have "\<dots> = length (timers q)"
    using distinct_card [OF tq_invD(3) [OF q]] by simp
  finally show ?thesis by (simp add: sizes_agree_def)
qed

lemma tq_inv_mono: "tq_inv X q \<Longrightarrow> Y \<subseteq> X \<Longrightarrow> tq_inv Y q"
  unfolding tq_inv_def by blast

lemma tq_inv_cong:
  assumes "tq_inv X q" "t_heap q' = t_heap q" "timers q' = timers q" "activeTimers q' = activeTimers q" "t_inLoop q' = t_inLoop q"
  shows "tq_inv X q'"
  using assms unfolding tq_inv_def seq_of_def by simp

text \<open>Changing the object of a timer that is in no entry.\<close>

lemma tq_inv_heap:
  assumes "tq_inv X q" and "a \<notin> snd ` set (timers q)" and "a < uintptr_max"
  shows "tq_inv (insert a X) (q\<lparr>t_heap := (t_heap q)(a \<mapsto> t)\<rparr>)" and "tq_inv (X - {a}) (q\<lparr>t_heap := (t_heap q)(a := None)\<rparr>)"
proof -
  have e: "snd x \<noteq> a" if "x \<in> set (timers q)" for x using that assms(2) by auto
  have "(\<lambda>b. (b, t_sequence (the (((t_heap q)(a := h)) b)))) ` snd ` set (timers q)
      = (\<lambda>b. (b, t_sequence (the (t_heap q b)))) ` snd ` set (timers q)" for h
    by (rule image_cong) (use assms(2) in auto)
  with assms e show "tq_inv (insert a X) (q\<lparr>t_heap := (t_heap q)(a \<mapsto> t)\<rparr>)" "tq_inv (X - {a}) (q\<lparr>t_heap := (t_heap q)(a := None)\<rparr>)"
    unfolding tq_inv_def seq_of_def by auto
qed

lemma distinct_snd_insort:
  "distinct (map snd (insort e es)) \<longleftrightarrow> snd e \<notin> snd ` set es \<and> distinct (map snd es)" for e :: "int \<times> nat"
  by (induction es) (auto simp: set_insort_key)

lemma insert_timer_ok:
  assumes q: "tq_inv X q" and a: "a \<in> X" and t: "t_heap q a = Some t"
  shows "insert_timer a q = Inr (timers q = [] \<or> t_expiration t < fst (hd (timers q)),
      q\<lparr>timers := insort (t_expiration t, a) (timers q), activeTimers := insert (a, t_sequence t) (activeTimers q)\<rparr>)"
      (is "_ = Inr (_, ?q)")
    and "tq_inv (X - {a}) (q\<lparr>timers := insort (t_expiration t, a) (timers q),
      activeTimers := insert (a, t_sequence t) (activeTimers q)\<rparr>)"
proof -
  note D = tq_invD [OF q]
  have fresh: "a \<notin> snd ` set (timers q)" "a < uintptr_max" using D(5) [OF a] by auto
  have "set (insort (t_expiration t, a) (timers q)) = insert (t_expiration t, a) (set (timers q))"
    by (rule set_insort_key)
  moreover have "distinct (map snd (insort (t_expiration t, a) (timers q)))"
    using D(3) fresh(1) by (simp add: distinct_snd_insort)
  ultimately show inv: "tq_inv (X - {a}) ?q"
    using q fresh t D(5) by (auto simp: tq_inv_def seq_of_def sorted_insort)
  have "(t_expiration t, a) \<notin> set (timers q)" "(a, t_sequence t) \<notin> activeTimers q"
    using fresh(1) by (force, simp add: tq_inv_active [OF q])
  with D(1) t tq_inv_sizes [OF q] tq_inv_sizes [OF inv] show "insert_timer a q = Inr (timers q = [] \<or> t_expiration t < fst (hd (timers q)), ?q)"
    by (simp add: insert_timer_def get_timer_def Let_def)
qed

lemma resetTimerfd_frame [simp]:
  "t_heap (resetTimerfd e q) = t_heap q" "timers (resetTimerfd e q) = timers q"
  "activeTimers (resetTimerfd e q) = activeTimers q" "t_inLoop (resetTimerfd e q) = t_inLoop q"
  "fired (resetTimerfd e q) = fired q" "callingExpiredTimers (resetTimerfd e q) = callingExpiredTimers q"
  "cancelingTimers (resetTimerfd e q) = cancelingTimers q" "numCreated (resetTimerfd e q) = numCreated q"
  by (simp_all add: resetTimerfd_def now_reading_def)

lemma addTimerInLoop_ok:
  assumes q: "tq_inv X q" and a: "a \<in> X" and t: "t_heap q a = Some t"
  shows "\<exists>q'. addTimerInLoop a q = Inr q' \<and> tq_inv (X - {a}) q' \<and> t_heap q' = t_heap q \<and> fired q' = fired q \<and>
    callingExpiredTimers q' = callingExpiredTimers q \<and> cancelingTimers q' = cancelingTimers q \<and>
    timers q' = insort (t_expiration t, a) (timers q)"
  using insert_timer_ok [OF assms] tq_invD(1) [OF q] t
  by (auto simp: addTimerInLoop_def get_timer_def intro: tq_inv_cong)

lemma addTimer_ok:
  assumes q: "tq_inv X q" and a: "t_heap q a = None" "a < uintptr_max"
  shows "\<exists>q'. addTimer a cb when iv rep q = Inr ((a, numCreated q + 1), q') \<and> tq_inv X q' \<and>
    (\<forall>b \<in> X. t_heap q' b = t_heap q b) \<and> fired q' = fired q \<and> callingExpiredTimers q' = callingExpiredTimers q \<and>
    cancelingTimers q' = cancelingTimers q \<and> timers q' = insort (when, a) (timers q)"
proof -
  let ?t = "\<lparr>t_callback = cb, t_expiration = when, t_interval = iv, t_repeat = rep, t_sequence = numCreated q + 1\<rparr>"
  let ?q = "q\<lparr>numCreated := numCreated q + 1, t_heap := (t_heap q)(a \<mapsto> ?t)\<rparr>"
  have "a \<notin> snd ` set (timers q)" using tq_invD(4) [OF q] a(1) by fastforce
  moreover have aX: "a \<notin> X" using tq_invD(5) [OF q, of a] a(1) by auto
  ultimately have q1: "tq_inv (insert a X) ?q"
    by (intro tq_inv_cong [OF tq_inv_heap(1) [OF q _ a(2), of ?t]]) simp_all
  obtain q' where q': "addTimerInLoop a ?q = Inr q'" "tq_inv (insert a X - {a}) q'" "t_heap q' = t_heap ?q" "fired q' = fired ?q"
    "callingExpiredTimers q' = callingExpiredTimers ?q" "cancelingTimers q' = cancelingTimers ?q"
    "timers q' = insort (t_expiration ?t, a) (timers ?q)"
    using addTimerInLoop_ok [OF q1, of a ?t] by auto
  have "insert a X - {a} = X" using aX by blast
  with q' tq_invD(1) [OF q] aX show ?thesis by (auto simp: addTimer_def new_Timer_def Let_def)
qed

lemma cancelInLoop_ok:
  assumes q: "tq_inv X q"
  shows "\<exists>q'. cancelInLoop timer q = Inr q' \<and> tq_inv X q' \<and> (\<forall>b \<in> X. t_heap q' b = t_heap q b) \<and> fired q' = fired q \<and>
    callingExpiredTimers q' = callingExpiredTimers q \<and>
    timers q' = (if timer \<in> activeTimers q then filter (\<lambda>e. snd e \<noteq> fst timer) (timers q) else timers q) \<and>
    cancelingTimers q' = (if timer \<notin> activeTimers q \<and> callingExpiredTimers q
      then insert timer (cancelingTimers q) else cancelingTimers q)"
proof (cases "timer \<in> activeTimers q")
  case True
  note D = tq_invD [OF q]
  obtain a s where as: "timer = (a, s)" by (cases timer)
  with True have a: "a \<in> snd ` set (timers q)" "s = seq_of q a" by (simp_all add: tq_inv_active [OF q])
  then obtain w where w: "(w, a) \<in> set (timers q)" by auto
  then obtain t where t: "t_heap q a = Some t" "t_expiration t = w" using D(4) by fastforce
  have rm: "remove1 (w, a) es = filter (\<lambda>e. snd e \<noteq> a) es" if "(w, a) \<in> set es" "distinct (map snd es)" for es :: "(int \<times> nat) list"
    using that
  proof (induction es)
    case (Cons e es)
    show ?case
    proof (cases "e = (w, a)")
      case True
      with Cons.prems(2) have "\<forall>x \<in> set es. snd x \<noteq> a" by auto
      with True show ?thesis by (simp add: filter_id_conv)
    next
      case False
      with Cons.prems have "snd e \<noteq> a" by (cases e) force
      with Cons False show ?thesis by auto
    qed
  qed simp
  let ?q = "q\<lparr>timers := filter (\<lambda>e. snd e \<noteq> a) (timers q), t_heap := (t_heap q)(a := None), activeTimers := activeTimers q - {timer}\<rparr>"
  have aX: "a \<notin> X" using D(5) [of a] a(1) by auto
  have im: "snd ` set (filter (\<lambda>e. snd e \<noteq> a) (timers q)) = snd ` set (timers q) - {a}" by auto
  have inv: "tq_inv X ?q"
    unfolding tq_inv_def
  proof (intro conjI)
    show "activeTimers ?q = (\<lambda>b. (b, seq_of ?q b)) ` snd ` set (timers ?q)"
      using a(2) by (auto simp: im D(6) as seq_of_def)
  qed (use D aX in \<open>auto simp: sorted_wrt_filter distinct_map_filter\<close>)
  with True as t w rm [OF w D(3)] D(1) tq_inv_sizes [OF q] tq_inv_sizes [OF inv] aX show ?thesis
    by (auto simp: cancelInLoop_def get_timer_def)
next
  case False
  let ?q = "if callingExpiredTimers q then q\<lparr>cancelingTimers := insert timer (cancelingTimers q)\<rparr> else q"
  have "tq_inv X ?q" by (rule tq_inv_cong [OF q]) simp_all
  with False tq_invD(1) [OF q] tq_inv_sizes [OF q] show ?thesis
    by (auto simp: cancelInLoop_def sizes_agree_def split: if_splits)
qed


section \<open>Expired timers\<close>

lemma due_iff:
  assumes "tq_inv X q" and "e \<in> set (timers q)"
  shows "e < (now, uintptr_max) \<longleftrightarrow> fst e \<le> now"
  using tq_invD(4) [OF assms] by (cases e) auto

lemma split_due:
  assumes "tq_inv X q"
  shows "takeWhile (\<lambda>e. e < (now, uintptr_max)) (timers q) = filter (\<lambda>e. fst e \<le> now) (timers q)"
    and "dropWhile (\<lambda>e. e < (now, uintptr_max)) (timers q) = filter (\<lambda>e. now < fst e) (timers q)"
proof -
  have s: "sorted es \<Longrightarrow> takeWhile (\<lambda>e. e < m) es = filter (\<lambda>e. e < m) es \<and> dropWhile (\<lambda>e. e < m) es = filter (\<lambda>e. \<not> e < m) es"
    for es and m :: "int \<times> nat"
  proof (induction es)
    case (Cons e es)
    show ?case
    proof (cases "e < m")
      case False
      then have "\<forall>x \<in> set es. \<not> x < m" using Cons.prems by auto
      with False show ?thesis by (simp add: filter_empty_conv filter_id_conv)
    qed (use Cons in simp)
  qed simp
  have "filter (\<lambda>e. e < (now, uintptr_max)) (timers q) = filter (\<lambda>e. fst e \<le> now) (timers q)"
    "filter (\<lambda>e. \<not> e < (now, uintptr_max)) (timers q) = filter (\<lambda>e. now < fst e) (timers q)"
    using due_iff [OF assms] by (auto intro!: filter_cong)
  then show "takeWhile (\<lambda>e. e < (now, uintptr_max)) (timers q) = filter (\<lambda>e. fst e \<le> now) (timers q)"
    "dropWhile (\<lambda>e. e < (now, uintptr_max)) (timers q) = filter (\<lambda>e. now < fst e) (timers q)"
    using s [OF tq_invD(2) [OF assms], of "(now, uintptr_max)"] by simp_all
qed

lemma erase_active_all:
  assumes "\<And>e. e \<in> set es \<Longrightarrow> t_heap q (snd e) \<noteq> None \<and> (snd e, seq_of q (snd e)) \<in> activeTimers q" and "distinct (map snd es)"
  shows "run_all erase_active q es = Inr (q\<lparr>activeTimers := activeTimers q - (\<lambda>a. (a, seq_of q a)) ` snd ` set es\<rparr>)"
  using assms
proof (induction es arbitrary: q)
  case (Cons e es)
  from Cons.prems(1) [of e] obtain t where t: "t_heap q (snd e) = Some t" "(snd e, t_sequence t) \<in> activeTimers q"
    by (auto simp: seq_of_def)
  let ?q = "q\<lparr>activeTimers := activeTimers q - {(snd e, t_sequence t)}\<rparr>"
  have "t_heap ?q (snd x) \<noteq> None \<and> (snd x, seq_of ?q (snd x)) \<in> activeTimers ?q" if "x \<in> set es" for x
    using Cons.prems that by (auto simp: seq_of_def image_iff)
  from Cons.IH [OF this] Cons.prems(2) t show ?case
    by (simp add: erase_active_def get_timer_def seq_of_def Diff_insert2 [symmetric] insert_commute)
qed simp

lemma getExpired_ok:
  assumes q: "tq_inv X q"
  shows "\<exists>q'. getExpired now q = Inr (filter (\<lambda>e. fst e \<le> now) (timers q), q') \<and>
    tq_inv (X \<union> snd ` set (filter (\<lambda>e. fst e \<le> now) (timers q))) q' \<and> timers q' = filter (\<lambda>e. now < fst e) (timers q) \<and>
    t_heap q' = t_heap q \<and> fired q' = fired q"
proof -
  note D = tq_invD [OF q]
  define due where "due = filter (\<lambda>e. fst e \<le> now) (timers q)"
  define rest where "rest = filter (\<lambda>e. now < fst e) (timers q)"
  have parts: "set (timers q) = set due \<union> set rest" "set due \<inter> set rest = {}" by (auto simp: due_def rest_def)
  have dd: "distinct (map snd due)" "distinct (map snd rest)" "sorted rest"
    using D(2,3) by (simp_all add: due_def rest_def distinct_map_filter sorted_wrt_filter)
  have inj: "inj_on snd (set due \<union> set rest)" using D(3) unfolding parts(1) [symmetric] by (simp add: distinct_map)
  have disj: "snd ` set due \<inter> snd ` set rest = {}"
    using inj_on_image_Int [OF inj, of "set due" "set rest"] parts(2) by auto
  have un: "snd ` set (timers q) = snd ` set due \<union> snd ` set rest" unfolding parts(1) by (rule image_Un)
  have sub: "t_heap q (snd e) \<noteq> None \<and> (snd e, seq_of q (snd e)) \<in> activeTimers q" if "e \<in> set due" for e
  proof -
    have "e \<in> set (timers q)" using that parts(1) by simp
    with D(4) [OF this] show ?thesis by (auto simp: tq_inv_active [OF q])
  qed
  let ?q = "q\<lparr>timers := rest, activeTimers := activeTimers q - (\<lambda>a. (a, seq_of q a)) ` snd ` set due\<rparr>"
  have run: "run_all erase_active (q\<lparr>timers := rest\<rparr>) due = Inr ?q"
    using erase_active_all [of due "q\<lparr>timers := rest\<rparr>"] sub dd(1) by (simp add: seq_of_def)
  have "activeTimers ?q = (\<lambda>a. (a, seq_of q a)) ` snd ` set rest"
    using disj by (auto simp: D(6) un)
  then have act: "activeTimers ?q = (\<lambda>a. (a, seq_of ?q a)) ` snd ` set (timers ?q)" by (simp add: seq_of_def)
  have limbo: "a < uintptr_max \<and> t_heap q a \<noteq> None \<and> a \<notin> snd ` set rest" if "a \<in> X \<union> snd ` set due" for a
  proof (cases "a \<in> X")
    case True
    from D(5) [OF this] show ?thesis unfolding un by blast
  next
    case False
    with that obtain e where e: "e \<in> set due" "a = snd e" by blast
    with parts(1) D(4) [of e] disj show ?thesis by auto
  qed
  have ent: "snd e < uintptr_max \<and> (\<exists>t. t_heap q (snd e) = Some t \<and> t_expiration t = fst e)" if "e \<in> set rest" for e
    using that parts(1) D(4) [of e] by blast
  have inv: "tq_inv (X \<union> snd ` set due) ?q"
    unfolding tq_inv_def using D(1) dd act limbo ent by simp
  have hd: "rest = [] \<or> now < fst (hd rest)" using hd_in_set [of rest] by (auto simp: rest_def)
  have "getExpired now q = Inr (due, ?q)"
    using run hd tq_inv_sizes [OF q] tq_inv_sizes [OF inv]
    by (simp add: getExpired_def split_due [OF q] due_def [symmetric] rest_def [symmetric] Let_def)
  with inv show ?thesis unfolding due_def [symmetric] rest_def [symmetric] by auto
qed


section \<open>Running the callbacks\<close>

text \<open>What a callback may do to the queue: add timers at free addresses, cancel timers, change its own data.\<close>

inductive timer_act :: "'u TimerQueue \<Rightarrow> 'u TimerQueue \<Rightarrow> bool" where
  adds: "t_heap q a = None \<Longrightarrow> a < uintptr_max \<Longrightarrow> addTimer a cb when iv rep q = Inr (i, q') \<Longrightarrow> timer_act q q'"
| cancels: "cancel timer q = Inr q' \<Longrightarrow> timer_act q q'"
| own: "timer_act q (q\<lparr>t_user := u\<rparr>)"

definition keeps_limbo :: "nat set \<Rightarrow> 'u TimerQueue \<Rightarrow> 'u TimerQueue \<Rightarrow> bool" where
  "keeps_limbo X q q' \<longleftrightarrow> (\<forall>a \<in> X. t_heap q' a = t_heap q a) \<and> fired q' = fired q \<and>
     callingExpiredTimers q' = callingExpiredTimers q \<and> cancelingTimers q \<subseteq> cancelingTimers q'"

lemma keeps_limbo_refl [simp]: "keeps_limbo X q q"
  by (simp add: keeps_limbo_def)

lemma timer_act_ok:
  assumes "timer_act q q'" and q: "tq_inv X q"
  shows "tq_inv X q' \<and> keeps_limbo X q q'"
  using assms(1)
proof cases
  case (adds a cb w iv rep i)
  from addTimer_ok [OF q adds(1,2), of cb w iv rep] adds(3) show ?thesis by (auto simp: keeps_limbo_def)
next
  case (cancels timer)
  then have "cancelInLoop timer q = Inr q'" using tq_invD(1) [OF q] by (simp add: cancel_def)
  with cancelInLoop_ok [OF q, of timer] show ?thesis by (auto simp: keeps_limbo_def split: if_splits)
next
  case (own u)
  with q show ?thesis by (auto simp: keeps_limbo_def intro: tq_inv_cong)
qed

lemma timer_acts_ok:
  assumes "timer_act\<^sup>*\<^sup>* q q'" and "tq_inv X q"
  shows "tq_inv X q' \<and> keeps_limbo X q q'"
  using assms
proof (induction rule: rtranclp_induct)
  case (step q1 q2)
  then show ?case using timer_act_ok [OF step.hyps(2), of X] by (auto simp: keeps_limbo_def)
qed simp

lemma reset_one_ok:
  assumes q: "tq_inv X q" and a: "a \<in> X" and t: "t_heap q a = Some t"
  shows "\<exists>q'. reset_one now q (w, a) = Inr q' \<and> tq_inv (X - {a}) q' \<and> fired q' = fired q \<and>
    cancelingTimers q' = cancelingTimers q \<and> set (timers q) \<subseteq> set (timers q') \<and> (\<forall>b. b \<noteq> a \<longrightarrow> t_heap q' b = t_heap q b) \<and>
    (if t_repeat t \<and> (a, t_sequence t) \<notin> cancelingTimers q
     then t_heap q' a = Some (restart now t) \<and> (now + t_interval t, a) \<in> set (timers q') else t_heap q' a = None)"
proof (cases "t_repeat t \<and> (a, t_sequence t) \<notin> cancelingTimers q")
  case True
  let ?q = "q\<lparr>t_heap := (t_heap q)(a \<mapsto> restart now t)\<rparr>"
  have fresh: "a \<notin> snd ` set (timers q)" "a < uintptr_max" using tq_invD(5) [OF q a] by auto
  have "tq_inv X ?q" using tq_inv_heap(1) [OF q fresh] a by (simp add: insert_absorb)
  from insert_timer_ok [OF this a, of "restart now t"] True t show ?thesis
    by (auto simp: reset_one_def get_timer_def set_insort_key restart_def addTime_def)
next
  case False
  have fresh: "a \<notin> snd ` set (timers q)" "a < uintptr_max" using tq_invD(5) [OF q a] by auto
  from tq_inv_heap(2) [OF q fresh] False t show ?thesis by (auto simp: reset_one_def get_timer_def)
qed

text \<open>A timer of the batch is rescheduled if it repeats and was not cancelled, and freed otherwise.\<close>

definition rescheduled :: "int \<Rightarrow> 'u TimerQueue \<Rightarrow> 'u TimerQueue \<Rightarrow> nat \<Rightarrow> bool" where
  "rescheduled now q q' a \<longleftrightarrow>
     (case t_heap q a of None \<Rightarrow> False | Some t \<Rightarrow>
        if t_repeat t \<and> (a, t_sequence t) \<notin> cancelingTimers q
        then t_heap q' a = Some (restart now t) \<and> (now + t_interval t, a) \<in> set (timers q') else t_heap q' a = None)"

lemma reset_all_ok:
  assumes "tq_inv X q" and "snd ` set es \<subseteq> X" and "distinct (map snd es)"
  shows "\<exists>q'. run_all (reset_one now) q es = Inr q' \<and> tq_inv (X - snd ` set es) q' \<and> fired q' = fired q \<and>
    set (timers q) \<subseteq> set (timers q') \<and> (\<forall>b. b \<notin> snd ` set es \<longrightarrow> t_heap q' b = t_heap q b) \<and>
    cancelingTimers q' = cancelingTimers q \<and> (\<forall>a \<in> snd ` set es. rescheduled now q q' a)"
  using assms
proof (induction es arbitrary: X q)
  case (Cons e es)
  obtain w a where e: "e = (w, a)" by (cases e)
  with Cons.prems have a: "a \<in> X" "a \<notin> snd ` set es" by auto
  then obtain t where t: "t_heap q a = Some t" using tq_invD(5) [OF Cons.prems(1), of a] by auto
  from reset_one_ok [OF Cons.prems(1) a(1) t, of now w] obtain q1 where
    q1: "reset_one now q (w, a) = Inr q1" "tq_inv (X - {a}) q1" "fired q1 = fired q" "cancelingTimers q1 = cancelingTimers q"
      "set (timers q) \<subseteq> set (timers q1)" "\<forall>b. b \<noteq> a \<longrightarrow> t_heap q1 b = t_heap q b"
      "if t_repeat t \<and> (a, t_sequence t) \<notin> cancelingTimers q
       then t_heap q1 a = Some (restart now t) \<and> (now + t_interval t, a) \<in> set (timers q1) else t_heap q1 a = None" by blast
  have sub: "snd ` set es \<subseteq> X - {a}" using Cons.prems(2) a(2) e by auto
  from Cons.IH [OF q1(2) sub] Cons.prems(3) obtain q' where
    q': "run_all (reset_one now) q1 es = Inr q'" "tq_inv (X - {a} - snd ` set es) q'" "fired q' = fired q1"
      "set (timers q1) \<subseteq> set (timers q')" "\<forall>b. b \<notin> snd ` set es \<longrightarrow> t_heap q' b = t_heap q1 b"
      "cancelingTimers q' = cancelingTimers q1" "\<forall>b \<in> snd ` set es. rescheduled now q1 q' b" by auto
  have "rescheduled now q q' a"
    using q1(7) q'(4,5) a(2) t by (auto simp: rescheduled_def split: if_splits)
  moreover have "rescheduled now q q' b" if "b \<in> snd ` set es" for b
  proof -
    have "b \<noteq> a" using that a(2) by blast
    with q1(6) have "t_heap q1 b = t_heap q b" by blast
    moreover have "rescheduled now q1 q' b" using q'(7) that by blast
    ultimately show ?thesis using q1(4) by (simp add: rescheduled_def split: option.splits if_splits)
  qed
  moreover have "X - {a} - snd ` set es = X - snd ` set (e # es)" using e by auto
  ultimately show ?case using e q1 q' by auto
qed simp

locale timer_user =
  fixes user :: "'u timer_code"
  assumes user_acts: "tq_inv X q \<Longrightarrow> \<exists>q'. user cb q = Inr q' \<and> timer_act\<^sup>*\<^sup>* q q'"
begin

lemma run_timers_ok:
  assumes "tq_inv X q" and "snd ` set es \<subseteq> X"
  shows "\<exists>q'. run_all (run_timer user) q es = Inr q' \<and> tq_inv X q' \<and> (\<forall>a \<in> X. t_heap q' a = t_heap q a) \<and>
    fired q' = fired q @ es \<and> callingExpiredTimers q' = callingExpiredTimers q \<and> cancelingTimers q \<subseteq> cancelingTimers q'"
  using assms
proof (induction es arbitrary: q)
  case (Cons e es)
  then obtain t where t: "t_heap q (snd e) = Some t" using tq_invD(5) [OF Cons.prems(1), of "snd e"] by auto
  let ?q = "q\<lparr>fired := fired q @ [e]\<rparr>"
  have "tq_inv X ?q" by (rule tq_inv_cong [OF Cons.prems(1)]) simp_all
  from user_acts [OF this, of "t_callback t"] timer_acts_ok [OF _ this] obtain q1 where
    q1: "user (t_callback t) ?q = Inr q1" "tq_inv X q1" "keeps_limbo X ?q q1" by blast
  have "run_timer user q e = Inr q1" using t q1(1) by (simp add: run_timer_def get_timer_def)
  moreover from Cons.IH [OF q1(2)] Cons.prems(2) obtain q' where
    "run_all (run_timer user) q1 es = Inr q'" "tq_inv X q'" "\<forall>a \<in> X. t_heap q' a = t_heap q1 a" "fired q' = fired q1 @ es"
    "callingExpiredTimers q' = callingExpiredTimers q1" "cancelingTimers q1 \<subseteq> cancelingTimers q'" by auto
  ultimately show ?case using q1(3) by (auto simp: keeps_limbo_def)
qed simp

text \<open>
  A whole alarm: the due timers are taken out, their callbacks run in the order of their times, then each is
  rescheduled or freed, and the timerfd is armed for the earliest entry.
\<close>

lemma handleRead_ok:
  assumes q: "tq_inv X q" and now: "now = k_clock q (k_ticks q)"
    and due: "due = filter (\<lambda>e. fst e \<le> now) (timers q)"
  shows "\<exists>q' c. tq_handleRead user q = Inr q' \<and> tq_inv X q' \<and> fired q' = fired q @ due \<and>
    (\<forall>(w, a) \<in> set due. \<exists>t. t_heap q a = Some t \<and>
       (t_heap q' a = None \<or> t_repeat t \<and> t_heap q' a = Some (restart now t) \<and> (now + t_interval t, a) \<in> set (timers q'))) \<and>
    (timers q' = [] \<or> fst (hd (timers q')) \<le> 0 \<or>
       timerfd_at q' = Some (c + howMuchTimeFromNow (fst (hd (timers q'))) c))"
proof -
  let ?q = "q\<lparr>k_ticks := Suc (k_ticks q)\<rparr>"
  let ?Y = "X \<union> snd ` set due"
  have "tq_inv X ?q" by (rule tq_inv_cong [OF q]) simp_all
  from getExpired_ok [OF this, of now] obtain q1 where
    q1: "getExpired now ?q = Inr (due, q1)" "tq_inv ?Y q1" "t_heap q1 = t_heap q" "fired q1 = fired q"
    by (auto simp: due)
  let ?q1 = "q1\<lparr>callingExpiredTimers := True, cancelingTimers := {}\<rparr>"
  have "tq_inv ?Y ?q1" by (rule tq_inv_cong [OF q1(2)]) simp_all
  from run_timers_ok [OF this, of due] obtain q2 where
    q2: "run_all (run_timer user) ?q1 due = Inr q2" "tq_inv ?Y q2" "\<forall>a \<in> ?Y. t_heap q2 a = t_heap q a" "fired q2 = fired q @ due"
    by (auto simp: q1(3,4))
  let ?q2 = "q2\<lparr>callingExpiredTimers := False\<rparr>"
  have i2: "tq_inv ?Y ?q2" by (rule tq_inv_cong [OF q2(2)]) simp_all
  have "distinct (map snd due)" using tq_invD(3) [OF q] by (simp add: due distinct_map_filter)
  from reset_all_ok [OF i2 _ this, of now] obtain q3 where
    q3: "run_all (reset_one now) ?q2 due = Inr q3" "tq_inv (?Y - snd ` set due) q3" "fired q3 = fired q2"
      "\<forall>a \<in> snd ` set due. rescheduled now ?q2 q3 a" by auto
  have dis: "X \<inter> snd ` set due = {}" using tq_invD(5) [OF q] by (force simp: due)
  then have "?Y - snd ` set due = X" by blast
  with q3(2) have i3: "tq_inv X q3" by simp
  have each: "\<exists>t. t_heap q a = Some t \<and> (t_heap q3 a = None \<or> t_repeat t \<and> t_heap q3 a = Some (restart now t) \<and>
      (now + t_interval t, a) \<in> set (timers q3))" if "(w, a) \<in> set due" for w a
  proof -
    have a: "a \<in> snd ` set due" using that by force
    with q2(3) have "t_heap q2 a = t_heap q a" by blast
    moreover have "rescheduled now ?q2 q3 a" using q3(4) a by blast
    ultimately show ?thesis by (auto simp: rescheduled_def split: option.splits if_splits)
  qed
  define q' where "q' = (if timers q3 = [] \<or> fst (hd (timers q3)) \<le> 0 then q3 else resetTimerfd (fst (hd (timers q3))) q3)"
  have frame: "timers q' = timers q3" "t_heap q' = t_heap q3" "fired q' = fired q3" "activeTimers q' = activeTimers q3"
    "t_inLoop q' = t_inLoop q3" by (simp_all add: q'_def)
  have "reset_timers due now ?q2 = Inr q'"
  proof (cases "timers q3")
    case (Cons e es)
    then obtain t where "t_heap q3 (snd e) = Some t" "t_expiration t = fst e" using tq_invD(4) [OF i3, of e] by auto
    with Cons q3(1) show ?thesis by (auto simp: reset_timers_def get_timer_def q'_def ts_valid_def)
  qed (use q3(1) in \<open>simp add: reset_timers_def q'_def\<close>)
  then have run: "tq_handleRead user q = Inr q'"
    using q1(1) q2(1) tq_invD(1) [OF q] by (simp add: tq_handleRead_def now_reading_def now [symmetric])
  have inv: "tq_inv X q'" by (rule tq_inv_cong [OF i3]) (simp_all add: frame)
  have "timers q' = [] \<or> fst (hd (timers q')) \<le> 0 \<or> timerfd_at q' =
      Some (k_clock q3 (k_ticks q3) + howMuchTimeFromNow (fst (hd (timers q'))) (k_clock q3 (k_ticks q3)))"
    unfolding frame(1) by (simp add: q'_def resetTimerfd_def now_reading_def)
  with run inv each show ?thesis using q3(3) q2(4) frame(2) unfolding frame(1)
    by (intro exI [of _ q'] exI [of _ "k_clock q3 (k_ticks q3)"]) (auto simp: frame)
qed

end


section \<open>Properties\<close>



end
