(* ===== verification/Mu_Delay.thy ===== *)
theory Mu_Delay
  imports Mu_Conn Mu_Timer
begin

text \<open>
  The timers of the event loop (\<open>runAt\<close>, \<open>runAfter\<close>, \<open>runEvery\<close>, \<open>cancel\<close> of \<^verbatim>\<open>mucgi/muduo_net/EventLoop.cc\<close>)
  over the timer queue, and the timers that \<open>forceCloseWithDelay\<close> starts: their callback holds a weak pointer to
  the connection.
\<close>

section \<open>Timers of the loop\<close>

definition runAt :: "nat \<Rightarrow> int \<Rightarrow> nat \<Rightarrow> 'u TimerQueue \<Rightarrow> ((nat \<times> int) \<times> 'u TimerQueue) res" where
  "runAt a time cb q = addTimer a cb time 0 False q"

definition runAfter :: "nat \<Rightarrow> int \<Rightarrow> nat \<Rightarrow> 'u TimerQueue \<Rightarrow> ((nat \<times> int) \<times> 'u TimerQueue) res" where
  "runAfter a delay cb q = (let (now, q1) = now_reading q in runAt a (addTime now delay) cb q1)"

text \<open>\<open>interval\<close> is positive: a timer whose interval is not repeats no more than that of \<open>runAt\<close>.\<close>

definition runEvery :: "nat \<Rightarrow> int \<Rightarrow> nat \<Rightarrow> 'u TimerQueue \<Rightarrow> ((nat \<times> int) \<times> 'u TimerQueue) res" where
  "runEvery a interval cb q =
     (let (now, q1) = now_reading q in addTimer a cb (addTime now interval) interval (interval > 0) q1)"

definition loop_cancel :: "nat \<times> int \<Rightarrow> 'u TimerQueue \<Rightarrow> 'u TimerQueue res" where
  "loop_cancel timerId q = cancel timerId q"

text \<open>The callback number \<open>c\<close> is that of connection \<open>c\<close>.\<close>

definition close_timer :: "'u net timer_code" where
  "close_timer c q = Inr (q\<lparr>t_user := weak_forceClose c (t_user q)\<rparr>)"

text \<open>The timer for the request that \<open>forceCloseWithDelay\<close> left.\<close>

definition start_delayed :: "nat \<Rightarrow> 'u net TimerQueue \<Rightarrow> 'u net TimerQueue res" where
  "start_delayed a q =
     (case delayed (t_user q) of
        [] \<Rightarrow> Inr q
      | (microseconds, c) # ds \<Rightarrow>
          bind_res (runAfter a (int microseconds) c (q\<lparr>t_user := (t_user q)\<lparr>delayed := ds\<rparr>\<rparr>)) (\<lambda>(_, q1). Inr q1))"

interpretation delayed_close: timer_user close_timer
  by unfold_locales (auto simp: close_timer_def intro: timer_act.own r_into_rtranclp)

section \<open>Closing after the delay\<close>

lemma run_close_timers:
  assumes "\<And>e. e \<in> set es \<Longrightarrow> t_heap q (snd e) \<noteq> None"
  shows "run_all (run_timer close_timer) q es =
    Inr (q\<lparr>fired := fired q @ es, t_user := fold (\<lambda>e. weak_forceClose (t_callback (the (t_heap q (snd e))))) es (t_user q)\<rparr>)"
  using assms
proof (induction es arbitrary: q)
  case (Cons e es)
  then obtain t where t: "t_heap q (snd e) = Some t" by fastforce
  let ?q = "q\<lparr>fired := fired q @ [e], t_user := weak_forceClose (t_callback t) (t_user q)\<rparr>"
  have "run_timer close_timer q e = Inr ?q" using t by (simp add: run_timer_def get_timer_def close_timer_def)
  with Cons.IH [of ?q] Cons.prems t show ?case by simp
qed simp

lemma weak_forceClose_keeps:
  "alive (weak_forceClose c w) = alive w"
  "conn_open w d \<Longrightarrow> conn_open (weak_forceClose c w) d"
  "set (pendingFunctors w) \<subseteq> set (pendingFunctors (weak_forceClose c w))"
  by (auto simp: weak_forceClose_def forceClose_def setState_def set_conn_def conn_open_def queueInLoop_def queue_push_def
      wakeup_def Let_def)

lemma weak_forceClose_closes:
  "alive w c \<Longrightarrow> conn_open w c \<Longrightarrow>
   F_forceCloseInLoop c \<in> set (pendingFunctors (weak_forceClose c w)) \<and> c_state (conns (weak_forceClose c w) c) = kDisconnecting"
  by (auto simp: weak_forceClose_def forceClose_def setState_def set_conn_def conn_open_def queueInLoop_def queue_push_def
      wakeup_def Let_def)

lemma weak_forceCloses:
  assumes "alive w c" and "conn_open w c" and "c \<in> set cs"
  shows "F_forceCloseInLoop c \<in> set (pendingFunctors (fold weak_forceClose cs w))"
proof -
  have keep: "set (pendingFunctors w) \<subseteq> set (pendingFunctors (fold weak_forceClose cs w))" for cs and w :: "'a net"
    by (induction cs arbitrary: w) (auto dest: subsetD [OF weak_forceClose_keeps(3)])
  show ?thesis
    using assms
  proof (induction cs arbitrary: w)
    case (Cons d ds)
    show ?case
    proof (cases "c = d")
      case True
      with weak_forceClose_closes [OF Cons.prems(1,2)] keep [of "weak_forceClose c w" ds] show ?thesis by auto
    next
      case False
      with Cons weak_forceClose_keeps(1) [of d w] weak_forceClose_keeps(2) [of w c d] show ?thesis by simp
    qed
  qed simp
qed


text \<open>The rest of an alarm leaves the connections alone.\<close>

lemma user_frame:
  "erase_active q e = Inr q' \<Longrightarrow> t_user q' = t_user q \<and> t_heap q' = t_heap q"
  "insert_timer a q = Inr (b, q') \<Longrightarrow> t_user q' = t_user q"
  "t_user (resetTimerfd t q) = t_user q"
  by (auto simp: erase_active_def insert_timer_def resetTimerfd_def now_reading_def res_simps Let_def split: if_splits)

lemma user_frame_reset: "reset_one now q e = Inr q' \<Longrightarrow> t_user q' = t_user q"
  by (auto simp: reset_one_def res_simps dest!: user_frame(2) split: if_splits)

lemma user_frame_all:
  "run_all erase_active q es = Inr q' \<Longrightarrow> t_user q' = t_user q \<and> t_heap q' = t_heap q"
  "run_all (reset_one now) q es = Inr q' \<Longrightarrow> t_user q' = t_user q"
  by (induction es arbitrary: q) (auto simp: res_simps dest: user_frame(1) user_frame_reset)

section \<open>Properties\<close>



text \<open>A server with the one connection 2.\<close>

definition demo_net :: "unit net" where
  "demo_net =
     \<lparr>chans = (\<lambda>c. new_Channel (int c)), alive = (\<lambda>c. c = 2), channels = Map.empty, ep_interest = Map.empty,
      ep_refuses = (\<lambda>_ _. False), ep_size = 16, threadId = 0, this_tid = 0, looping = True, quit_flag = False,
      eventHandling = False, callingPendingFunctors = False, iteration = 0, activeChannels = [], currentActiveChannel = None,
      pendingFunctors = [], wakeupChannel = 0, eventfd_count = 0,
      conns = (\<lambda>c. (new_TcpConnection ''conn'' c)\<lparr>c_state := kConnected\<rparr>), k_write = (\<lambda>_. Inr 0), k_writes = 0,
      k_readv = (\<lambda>_. Inr []), k_reads = 0, k_accept = (\<lambda>_. Inl EAGAIN), k_accepts = 0, k_open = (\<lambda>_. 5), k_opens = 1,
      delayed = [], next_obj = 3, acceptChannel = 1, listenning = True, idleFd = 5, srv_name = ''FastCGI'',
      ipPort = ''0.0.0.0:19981'', started = True, srv_writeComplete = False, connections = [''conn'' \<mapsto> 2],
      nextConnId = 2, app_data = ()\<rparr>"


end
