(* ===== verification/Mu_Date.thy ===== *)
theory Mu_Date
  imports Prelude "HOL-Library.Signed_Division"
begin

text \<open>
  Calendar dates (\<^verbatim>\<open>mucgi/muduo_base/Date.cc\<close>, \<^verbatim>\<open>Date.h\<close>) and the conversion of seconds since the epoch to
  and from the broken-down time of UTC (\<^verbatim>\<open>TimeZone.cc\<close>). The division of C++ rounds towards zero: it is
  \<open>sdiv\<close> and \<open>smod\<close>. A cast to \<open>int\<close> keeps 32 bits; the sums of the day number are integers, the
  properties are stated where they fit the 32 bits of \<open>int\<close>.
\<close>

section \<open>Dates\<close>

record YearMonthDay =
  ymd_year :: int
  ymd_month :: int
  ymd_day :: int

definition getJulianDayNumber :: "int \<Rightarrow> int \<Rightarrow> int \<Rightarrow> int" where
  "getJulianDayNumber year month day =
     (let a = (14 - month) sdiv 12;
          y = year + 4800 - a;
          m = month + 12 * a - 3
      in day + (153 * m + 2) sdiv 5 + y * 365 + y sdiv 4 - y sdiv 100 + y sdiv 400 - 32045)"

definition getYearMonthDay :: "int \<Rightarrow> YearMonthDay" where
  "getYearMonthDay julianDayNumber =
     (let a = julianDayNumber + 32044;
          b = (4 * a + 3) sdiv 146097;
          c = a - (b * 146097) sdiv 4;
          d = (4 * c + 3) sdiv 1461;
          e = c - (1461 * d) sdiv 4;
          m = (5 * e + 2) sdiv 153
      in \<lparr>ymd_year = b * 100 + d - 4800 + m sdiv 10, ymd_month = m + 3 - 12 * (m sdiv 10),
          ymd_day = e - (153 * m + 2) sdiv 5 + 1\<rparr>)"

definition kJulianDayOf1970_01_01 :: int where
  "kJulianDayOf1970_01_01 = getJulianDayNumber 1970 1 1"

definition date_valid :: "int \<Rightarrow> bool" where
  "date_valid julianDayNumber \<longleftrightarrow> julianDayNumber > 0"

definition weekDay :: "int \<Rightarrow> int" where
  "weekDay julianDayNumber = (julianDayNumber + 1) smod 7"

section \<open>The calendar\<close>

definition leap :: "int \<Rightarrow> bool" where
  "leap y \<longleftrightarrow> 4 dvd y \<and> \<not> 100 dvd y \<or> 400 dvd y"

definition days_in :: "int \<Rightarrow> int \<Rightarrow> int" where
  "days_in y m = (if m = 2 then if leap y then 29 else 28 else if m \<in> {4, 6, 9, 11} then 30 else 31)"

definition real_date :: "int \<Rightarrow> int \<Rightarrow> int \<Rightarrow> bool" where
  "real_date y m d \<longleftrightarrow> 1 \<le> m \<and> m \<le> 12 \<and> 1 \<le> d \<and> d \<le> days_in y m"

definition next_day :: "int \<times> int \<times> int \<Rightarrow> int \<times> int \<times> int" where
  "next_day = (\<lambda>(y, m, d). if d < days_in y m then (y, m, d + 1) else if m < 12 then (y, m + 1, 1) else (y + 1, 1, 1))"

lemma sdiv_nonneg: "0 \<le> k \<Longrightarrow> 0 < l \<Longrightarrow> k sdiv l = k div l" for k l :: int
  by (cases "k = 0") (simp_all add: signed_divide_int_def)

lemma smod_nonneg: "0 \<le> k \<Longrightarrow> 0 < l \<Longrightarrow> k smod l = k mod l" for k l :: int
  by (cases "k = 0") (simp_all add: signed_modulo_int_def)

text \<open>Years that begin in March: month \<open>m\<close> from 0, year \<open>y\<close> from 4801 B.C., and the days up to the first of that month.\<close>

definition march_days :: "int \<Rightarrow> int \<Rightarrow> int" where
  "march_days y m = (153 * m + 2) div 5 + 365 * y + y div 4 - y div 100 + y div 400"

definition march_length :: "int \<Rightarrow> int \<Rightarrow> int" where
  "march_length y m = (if m = 11 then if leap (y + 1) then 29 else 28 else if m \<in> {1, 3, 6, 8} then 30 else 31)"

lemma julian_march:
  assumes "1 \<le> month" "month \<le> 12" "-4800 \<le> year - (if month < 3 then 1 else 0)"
  shows "getJulianDayNumber year month day = day - 1 - 32044 +
    march_days (year + 4800 - (if month < 3 then 1 else 0)) (month + (if month < 3 then 9 else - 3))"
proof -
  have "(14 - month) sdiv 12 = (if month < 3 then 1 else 0)"
    using assms(1,2) by (auto simp: sdiv_nonneg div_pos_pos_trivial intro!: int_div_pos_eq [of _ 12 1 "2 - month"])
  then show ?thesis
    using assms by (auto simp: getJulianDayNumber_def Let_def march_days_def sdiv_nonneg)
qed

lemma leap_shift: "leap (y + 4800) = leap y"
proof -
  have "(400 :: int) dvd 4800" "(100 :: int) dvd 4800" "(4 :: int) dvd 4800" by simp_all
  then show ?thesis unfolding leap_def by (metis dvd_add_left_iff)
qed

lemma march_length_real:
  assumes "1 \<le> month" "month \<le> 12"
  shows "march_length (year + 4800 - (if month < 3 then 1 else 0)) (month + (if month < 3 then 9 else - 3)) = days_in year month"
proof -
  have "month \<in> {1, 2, 3, 4, 5, 6, 7, 8, 9, 10, 11, 12}" using assms by (simp, presburger)
  then show ?thesis using leap_shift [of year] by (auto simp: march_length_def days_in_def add.commute)
qed

lemma div_between: "n * q \<le> k \<Longrightarrow> k < n * q + n \<Longrightarrow> k div n = q" for k n q :: int
  by (intro int_div_pos_eq [of k n q "k - n * q"]) auto

lemma div_step: "0 < n \<Longrightarrow> k div n = (k - 1) div n + (if n dvd k then 1 else 0)" for k n :: int
proof (cases "n dvd k")
  case True
  assume n: "0 < n"
  from True obtain q where "k = n * q" by (rule dvdE)
  moreover have "(n * q - 1) div n = q - 1" using n by (intro int_div_pos_eq [of _ _ _ "n - 1"]) (auto simp: algebra_simps)
  ultimately show ?thesis using n by simp
next
  case False
  assume n: "0 < n"
  have "k mod n \<noteq> 0" using False by (simp add: dvd_eq_mod_eq_0)
  then have "0 \<le> k mod n - 1" "k mod n - 1 < n" using n pos_mod_bound [of n k] pos_mod_sign [of n k] by linarith+
  then have "(k - 1) div n = k div n"
    by (intro int_div_pos_eq [of _ _ _ "k mod n - 1"]) (simp_all add: algebra_simps)
  with False show ?thesis by simp
qed

text \<open>A year has 365 days or 366, and its months follow one another.\<close>

lemma march_year: "march_days (y + 1) 0 = march_days y 11 + march_length y 11"
proof -
  define p q r where "p \<longleftrightarrow> 4 dvd y + 1" and "q \<longleftrightarrow> 100 dvd y + 1" and "r \<longleftrightarrow> 400 dvd y + 1"
  have imp: "q \<Longrightarrow> p" "r \<Longrightarrow> q"
    using dvd_trans [of 4 100 "y + 1"] dvd_trans [of 100 400 "y + 1"] by (simp_all add: p_def q_def r_def)
  have st: "(y + 1) div 4 = y div 4 + (if p then 1 else 0)" "(y + 1) div 100 = y div 100 + (if q then 1 else 0)"
    "(y + 1) div 400 = y div 400 + (if r then 1 else 0)"
    using div_step [of 4 "y + 1"] div_step [of 100 "y + 1"] div_step [of 400 "y + 1"]
    unfolding p_def q_def r_def by simp_all
  have len: "march_length y 11 = (if p \<and> \<not> q \<or> r then 29 else 28)"
    by (simp add: march_length_def leap_def p_def q_def r_def)
  show ?thesis
    unfolding march_days_def st len using imp by (cases p; cases q; cases r) simp_all
qed

lemma march_month:
  assumes "0 \<le> m" "m < 11"
  shows "march_days y (m + 1) = march_days y m + march_length y m"
proof -
  have "m \<in> {0, 1, 2, 3, 4, 5, 6, 7, 8, 9, 10}" using assms by (simp, presburger)
  then show ?thesis by (auto simp: march_days_def march_length_def)
qed


lemma march_next:
  assumes "1 \<le> m" "m \<le> 12" "-4800 \<le> y - (if m < 3 then 1 else 0)"
  shows "getJulianDayNumber (if m < 12 then y else y + 1) (if m < 12 then m + 1 else 1) 1
    = getJulianDayNumber y m (days_in y m) + 1"
proof -
  let ?y = "y + 4800 - (if m < 3 then 1 else 0)"
  let ?m = "m + (if m < 3 then 9 else - 3)"
  have j: "getJulianDayNumber y m (days_in y m) + 1 = march_days ?y ?m + march_length ?y ?m - 32044"
    using julian_march [OF assms] march_length_real [OF assms(1,2)] by simp
  show ?thesis
  proof (cases "m = 2")
    case True
    with j julian_march [of 3 y 1] march_year [of ?y] assms(3) show ?thesis by (simp add: add.commute)
  next
    case False
    have m: "0 \<le> ?m" "?m < 11" using False assms(1,2) by auto
    from j march_month [OF m, of ?y] False assms julian_march [of "m + 1" y 1] julian_march [of 1 "y + 1" 1]
    show ?thesis by (auto simp: add.commute split: if_splits)
  qed
qed

lemma next_day_julian:
  assumes "real_date y m d" "-4800 \<le> y - (if m < 3 then 1 else 0)" "next_day (y, m, d) = (y', m', d')"
  shows "getJulianDayNumber y' m' d' = getJulianDayNumber y m d + 1" and "real_date y' m' d'"
    and "-4800 \<le> y' - (if m' < 3 then 1 else 0)"
proof -
  have m: "1 \<le> m" "m \<le> 12" "1 \<le> d" "d \<le> days_in y m" using assms(1) by (auto simp: real_date_def)
  have dim: "1 \<le> days_in a b" for a b by (simp add: days_in_def)
  show "real_date y' m' d'" "-4800 \<le> y' - (if m' < 3 then 1 else 0)"
    using assms(2,3) m dim by (auto simp: next_day_def real_date_def split: if_splits)
  show "getJulianDayNumber y' m' d' = getJulianDayNumber y m d + 1"
  proof (cases "d < days_in y m")
    case True
    with assms(3) show ?thesis by (auto simp: next_day_def getJulianDayNumber_def Let_def)
  next
    case False
    with m have "d = days_in y m" by simp
    with march_next [OF m(1,2) assms(2)] assms(3) show ?thesis by (auto simp: next_day_def split: if_splits)
  qed
qed

section \<open>The inverse\<close>

text \<open>Day \<open>n\<close> of the year from March, split into month and day.\<close>

lemma month_of_day:
  assumes "0 \<le> m" "m \<le> 11" "1 \<le> d" "d \<le> march_length y m"
  shows "(5 * (d - 1 + (153 * m + 2) div 5) + 2) div 153 = m"
proof -
  have "m \<in> {0, 1, 2, 3, 4, 5, 6, 7, 8, 9, 10, 11}" using assms(1,2) by (simp, presburger)
  then show ?thesis using assms(3,4) by (auto simp: march_length_def split: if_splits intro!: div_int_pos_iff)
qed


lemma day_of_year:
  assumes "0 \<le> m" "m \<le> 11" "1 \<le> d" "d \<le> march_length y m"
  shows "0 \<le> d - 1 + (153 * m + 2) div 5" "d - 1 + (153 * m + 2) div 5 \<le> 364 + (if leap (y + 1) then 1 else 0)"
proof -
  have "m \<in> {0, 1, 2, 3, 4, 5, 6, 7, 8, 9, 10, 11}" using assms(1,2) by (simp, presburger)
  then show "0 \<le> d - 1 + (153 * m + 2) div 5" "d - 1 + (153 * m + 2) div 5 \<le> 364 + (if leap (y + 1) then 1 else 0)"
    using assms(3,4) by (auto simp: march_length_def split: if_splits)
qed

text \<open>In a leap year that ends with the February of \<open>y + 1\<close>, the year is the last of its four, and of its four centuries.\<close>

lemma leap_parts:
  assumes "leap (y + 1)" and "y = 100 * b + r" and "0 \<le> r" "r < 100"
  shows "r mod 4 = 3" and "r = 99 \<Longrightarrow> b mod 4 = 3"
proof -
  have four: "4 dvd y + 1" using assms(1) dvd_trans [of 4 400 "y + 1"] by (auto simp: leap_def)
  have "4 dvd (100 * b + r + 1)" using four assms(2) by simp
  then have "4 dvd r + 1" by presburger
  then show "r mod 4 = 3" by presburger
  assume r: "r = 99"
  then have y: "y + 1 = 100 * (b + 1)" using assms(2) by simp
  then have "100 dvd y + 1" by simp
  with assms(1) have "400 dvd 100 * (b + 1)" by (simp add: leap_def y)
  then have "4 dvd b + 1" by presburger
  then show "b mod 4 = 3" by presburger
qed

lemma march_inverse:
  assumes y: "0 \<le> y" and m: "0 \<le> m" "m \<le> 11" and d: "1 \<le> d" "d \<le> march_length y m"
  shows "getYearMonthDay (d - 1 - 32044 + march_days y m) =
    \<lparr>ymd_year = y - 4800 + m div 10, ymd_month = m + 3 - 12 * (m div 10), ymd_day = d\<rparr>"
proof -
  define b r e where "b = y div 100" and "r = y mod 100" and "e = d - 1 + (153 * m + 2) div 5"
  have br: "y = 100 * b + r" "0 \<le> r" "r < 100" "0 \<le> b" using y by (simp_all add: b_def r_def pos_imp_zdiv_nonneg_iff)
  have e: "0 \<le> e" "e \<le> 364 + (if leap (y + 1) then 1 else 0)" using day_of_year [OF m d] by (simp_all add: e_def)
  define qb mb qr mr where "qb = b div 4" and "mb = b mod 4" and "qr = r div 4" and "mr = r mod 4"
  have b4: "b = 4 * qb + mb" "0 \<le> mb" "mb \<le> 3" and r4: "r = 4 * qr + mr" "0 \<le> mr" "mr \<le> 3"
    using pos_mod_bound [of 4 b] pos_mod_bound [of 4 r] by (simp_all add: qb_def mb_def qr_def mr_def)
  note lp = leap_parts [OF _ br(1-3), folded mr_def mb_def]
  have y4: "y div 4 = 25 * b + qr"
    using br r4 by (intro div_between; unfold distrib_left; linarith)
  have y400: "y div 400 = qb"
    using br b4 by (intro div_between; linarith)
  define s where "s = 365 * r + qr + e"
  define a where "a = d - 1 + march_days y m"
  have a: "a = 36524 * b + qb + s"
    unfolding a_def march_days_def y4 y400 s_def e_def b_def [symmetric] using br(1) by simp
  have s0: "0 \<le> s" using br e r4 by (simp add: s_def)
  have qr: "qr \<le> 24" using r4 br(3) by linarith
  have s1: "4 * s + 3 - mb < 146097"
  proof (cases "r = 99")
    case True
    then have "s \<le> 36523 + (if leap (y + 1) then 1 else 0)" using e qr by (auto simp: s_def split: if_splits)
    with lp(2) [OF _ True] b4 show ?thesis by (auto split: if_splits)
  next
    case False
    then have "r \<le> 98" using br by linarith
    with qr have "s \<le> 365 * 98 + 24 + 365" using e by (simp add: s_def split: if_splits)
    with b4 show ?thesis by linarith
  qed
  have bb: "(4 * a + 3) div 146097 = b"
    using a s0 s1 b4 by (intro div_between; linarith)
  have cc: "(b * 146097) div 4 = 36524 * b + qb"
    using b4 by (intro div_between; unfold distrib_left; linarith)
  have s2: "4 * e + 3 - mr < 1461" using e lp(1) r4 by (auto split: if_splits)
  have dd: "(4 * s + 3) div 1461 = r"
    using e(1) s2 r4 s_def by (intro div_between; linarith)
  have ee: "(1461 * r) div 4 = 365 * r + qr"
    using r4 by (intro div_between; unfold distrib_left; linarith)
  have mm: "(5 * e + 2) div 153 = m" unfolding e_def by (rule month_of_day [OF m d])
  have a0: "0 \<le> a" using a br(4) s0 b4 by linarith
  have j: "d - 1 - 32044 + march_days y m + 32044 = a" by (simp add: a_def)
  have bb': "(4 * a + 3) sdiv 146097 = b" using sdiv_nonneg [of "4 * a + 3"] a0 bb by simp
  have cc': "a - (b * 146097) sdiv 4 = s" using sdiv_nonneg [of "b * 146097"] br(4) cc a by simp
  have dd': "(4 * s + 3) sdiv 1461 = r" using sdiv_nonneg [of "4 * s + 3"] s0 dd by simp
  have ee': "s - (1461 * r) sdiv 4 = e" using sdiv_nonneg [of "1461 * r"] br(2) ee by (simp add: s_def)
  have mm': "(5 * e + 2) sdiv 153 = m" using sdiv_nonneg [of "5 * e + 2"] e(1) mm by simp
  have m': "m sdiv 10 = m div 10" "(153 * m + 2) sdiv 5 = (153 * m + 2) div 5" using m(1) by (simp_all add: sdiv_nonneg)
  have "b * 100 + r - 4800 + m div 10 = y - 4800 + m div 10" unfolding br(1) by simp
  moreover have "e - (153 * m + 2) div 5 + 1 = d" unfolding e_def by simp
  ultimately show ?thesis
    unfolding getYearMonthDay_def Let_def j bb' cc' dd' ee' mm' m' by simp
qed

lemma date_roundtrip:
  assumes "real_date y m d" "-4800 \<le> y - (if m < 3 then 1 else 0)"
  shows "getYearMonthDay (getJulianDayNumber y m d) = \<lparr>ymd_year = y, ymd_month = m, ymd_day = d\<rparr>"
proof -
  have m: "1 \<le> m" "m \<le> 12" "1 \<le> d" "d \<le> days_in y m" using assms(1) by (auto simp: real_date_def)
  let ?y = "y + 4800 - (if m < 3 then 1 else 0)"
  let ?m = "m + (if m < 3 then 9 else - 3)"
  have "0 \<le> ?y" "0 \<le> ?m" "?m \<le> 11" "d \<le> march_length ?y ?m"
    using assms(2) m march_length_real [OF m(1,2), of y] by auto
  from march_inverse [OF this(1-3) m(3) this(4)]
  have "getYearMonthDay (getJulianDayNumber y m d) = \<lparr>ymd_year = ?y - 4800 + ?m div 10, ymd_month = ?m + 3 - 12 * (?m div 10), ymd_day = d\<rparr>"
    by (simp add: julian_march [OF m(1,2) assms(2)])
  moreover have "?m div 10 = (if m < 3 then 1 else 0)"
    using m(1,2) by (auto simp: div_pos_pos_trivial intro!: int_div_pos_eq [of _ _ _ "m - 1"])
  ultimately show ?thesis by auto
qed


text \<open>Every day number from that of 1 March 4801 B.C. on is the day of a date, since the days follow one another.\<close>

lemma julian_onto:
  "\<exists>y m d. real_date y m d \<and> -4800 \<le> y - (if m < 3 then 1 else 0) \<and> getJulianDayNumber y m d = int n - 32044"
proof (induction n)
  case 0
  have "real_date (-4800) 3 1" by (simp add: real_date_def days_in_def)
  moreover have "getJulianDayNumber (-4800) 3 1 = - 32044" using julian_march [of 3 "-4800" 1] by (simp add: march_days_def)
  ultimately show ?case by (intro exI [of _ "-4800"] exI [of _ 3] exI [of _ 1]) simp
next
  case (Suc n)
  then obtain y m d where d: "real_date y m d" "-4800 \<le> y - (if m < 3 then 1 else 0)" "getJulianDayNumber y m d = int n - 32044"
    by blast
  obtain y' m' d' where n: "next_day (y, m, d) = (y', m', d')" by (cases "next_day (y, m, d)")
  from next_day_julian [OF d(1,2) n] d(3) show ?case by (intro exI [of _ y'] exI [of _ m'] exI [of _ d']) simp
qed

lemma julian_roundtrip:
  assumes "-32044 \<le> j" and "getYearMonthDay j = \<lparr>ymd_year = y, ymd_month = m, ymd_day = d\<rparr>"
  shows "getJulianDayNumber y m d = j" and "real_date y m d" and "-4800 \<le> y - (if m < 3 then 1 else 0)"
proof -
  from julian_onto [of "nat (j + 32044)"] obtain y' m' d' where
    d: "real_date y' m' d'" "-4800 \<le> y' - (if m' < 3 then 1 else 0)" "getJulianDayNumber y' m' d' = j"
    using assms(1) by auto
  from date_roundtrip [OF d(1,2)] assms(2) d(3) have "y' = y" "m' = m" "d' = d" by simp_all
  with d show "getJulianDayNumber y m d = j" "real_date y m d" "-4800 \<le> y - (if m < 3 then 1 else 0)" by simp_all
qed

section \<open>Broken-down time\<close>

record tm =
  tm_sec :: int
  tm_min :: int
  tm_hour :: int
  tm_mday :: int
  tm_mon :: int
  tm_year :: int
  tm_wday :: int
  tm_yday :: int
  tm_isdst :: bool
  tm_gmtoff :: int
  tm_zone :: string

definition zero_tm :: tm where
  "zero_tm = \<lparr>tm_sec = 0, tm_min = 0, tm_hour = 0, tm_mday = 0, tm_mon = 0, tm_year = 0, tm_wday = 0, tm_yday = 0,
     tm_isdst = False, tm_gmtoff = 0, tm_zone = []\<rparr>"

definition cast_int :: "int \<Rightarrow> int" where
  "cast_int x = sint (word_of_int x :: 32 word)"

definition kSecondsPerDay :: int where "kSecondsPerDay = 24 * 60 * 60"

definition fillHMS :: "int \<Rightarrow> tm \<Rightarrow> tm" where
  "fillHMS seconds utc =
     (let minutes = seconds sdiv 60
      in utc\<lparr>tm_sec := seconds smod 60, tm_min := minutes smod 60, tm_hour := minutes sdiv 60\<rparr>)"

definition toUtcTime :: "int \<Rightarrow> bool \<Rightarrow> tm" where
  "toUtcTime secondsSinceEpoch yday =
     (let seconds0 = cast_int (secondsSinceEpoch smod kSecondsPerDay);
          days0 = cast_int (secondsSinceEpoch sdiv kSecondsPerDay);
          (seconds, days) = (if seconds0 < 0 then (seconds0 + kSecondsPerDay, days0 - 1) else (seconds0, days0));
          utc = fillHMS seconds (zero_tm\<lparr>tm_zone := ''GMT''\<rparr>);
          date = days + kJulianDayOf1970_01_01;
          ymd = getYearMonthDay date;
          utc1 = utc\<lparr>tm_year := ymd_year ymd - 1900, tm_mon := ymd_month ymd - 1, tm_mday := ymd_day ymd, tm_wday := weekDay date\<rparr>
      in if yday then utc1\<lparr>tm_yday := date - getJulianDayNumber (ymd_year ymd) 1 1\<rparr> else utc1)"

definition fromUtcTime_parts :: "int \<Rightarrow> int \<Rightarrow> int \<Rightarrow> int \<Rightarrow> int \<Rightarrow> int \<Rightarrow> int" where
  "fromUtcTime_parts year month day hour minute seconds =
     (let date = getJulianDayNumber year month day;
          secondsInDay = hour * 3600 + minute * 60 + seconds;
          days = date - kJulianDayOf1970_01_01
      in days * kSecondsPerDay + secondsInDay)"

definition fromUtcTime :: "tm \<Rightarrow> int" where
  "fromUtcTime utc =
     fromUtcTime_parts (tm_year utc + 1900) (tm_mon utc + 1) (tm_mday utc) (tm_hour utc) (tm_min utc) (tm_sec utc)"

lemma cast_int_id: "- (2 ^ 31) \<le> x \<Longrightarrow> x < 2 ^ 31 \<Longrightarrow> cast_int x = x"
  by (simp add: cast_int_def signed_take_bit_int_eq_self signed_of_int)

lemma epoch_day: "kJulianDayOf1970_01_01 = 2440588"
  by (simp add: kJulianDayOf1970_01_01_def getJulianDayNumber_def signed_divide_int_def)

text \<open>The corrections for a negative remainder make the division round down.\<close>

lemma day_split:
  fixes t :: int
  shows "(if t smod 86400 < 0 then (t smod 86400 + 86400, t sdiv 86400 - 1) else (t smod 86400, t sdiv 86400))
    = (t mod 86400, t div 86400)"
proof -
  have eq: "t smod 86400 = t - 86400 * (t sdiv 86400)" using mult_sdiv_smod_eq [of 86400 t] by linarith
  have b: "t smod 86400 < 86400" "- 86400 < t smod 86400"
    by (simp_all add: signed_modulo_int_def sgn_if) (smt (verit) pos_mod_bound pos_mod_sign)+
  show ?thesis
  proof (cases "t smod 86400 < 0")
    case True
    then have "t div 86400 = t sdiv 86400 - 1" using eq b by (intro div_between; unfold right_diff_distrib; linarith)
    then show ?thesis using True eq by (simp add: minus_mult_div_eq_mod [symmetric])
  next
    case False
    then have "t div 86400 = t sdiv 86400" using eq b by (intro div_between) linarith+
    then show ?thesis using False eq by (simp add: minus_mult_div_eq_mod [symmetric])
  qed
qed

lemma hms_split: "t mod 86400 = (t mod 86400) div 60 div 60 * 3600 + (t mod 86400) div 60 mod 60 * 60 + t mod 86400 mod 60" for t :: int
proof -
  define s q where "s = t mod 86400" and "q = s div 60"
  have "s = q * 60 + s mod 60" "q = q div 60 * 60 + q mod 60" by (simp_all add: q_def)
  then show ?thesis unfolding s_def [symmetric] q_def [symmetric] by linarith
qed


definition utc_range :: "int \<Rightarrow> bool" where
  "utc_range t \<longleftrightarrow> - 210866803200 \<le> t \<and> t < 46172011392000"

lemma utc_day:
  assumes "utc_range t"
  shows "0 \<le> t div 86400 + 2440588" "t div 86400 < 534398280"
proof -
  define q r where "q = t div 86400" and "r = t mod 86400"
  have "t = 86400 * q + r" "0 \<le> r" "r < 86400" by (simp_all add: q_def r_def)
  then show "0 \<le> t div 86400 + 2440588" "t div 86400 < 534398280"
    using assms unfolding utc_range_def q_def [symmetric] by linarith+
qed

lemma toUtcTime_eq:
  assumes "utc_range t" and "date = t div 86400 + 2440588" and "s = t mod 86400"
  shows "toUtcTime t yday =
    (let ymd = getYearMonthDay date;
         utc = zero_tm\<lparr>tm_zone := ''GMT'', tm_sec := s mod 60, tm_min := s div 60 mod 60, tm_hour := s div 60 div 60,
           tm_year := ymd_year ymd - 1900, tm_mon := ymd_month ymd - 1, tm_mday := ymd_day ymd, tm_wday := (date + 1) mod 7\<rparr>
     in if yday then utc\<lparr>tm_yday := date - getJulianDayNumber (ymd_year ymd) 1 1\<rparr> else utc)"
proof -
  have eq: "t smod 86400 = t - 86400 * (t sdiv 86400)" using mult_sdiv_smod_eq [of 86400 t] by linarith
  have split: "(if t smod 86400 < 0 then (t smod 86400 + 86400, t sdiv 86400 - 1) else (t smod 86400, t sdiv 86400))
      = (s, t div 86400)" using day_split [of t] assms(3) by simp
  have s: "0 \<le> s" "s < 86400" using assms(3) by simp_all
  then have m: "- 86400 \<le> t smod 86400" "t smod 86400 < 86400" using split by (auto split: if_splits)
  have q: "- (2 ^ 31) \<le> t sdiv 86400" "t sdiv 86400 < 2 ^ 31" using split utc_day [OF assms(1)] by (auto split: if_splits)
  have c: "cast_int (t smod 86400) = t smod 86400" "cast_int (t sdiv 86400) = t sdiv 86400"
    using m q by (auto intro!: cast_int_id)
  have d: "0 \<le> date + 1" using utc_day(1) [OF assms(1)] assms(2) by simp
  have h: "s sdiv 60 = s div 60" "s smod 60 = s mod 60" "(s div 60) smod 60 = s div 60 mod 60" "(s div 60) sdiv 60 = s div 60 div 60"
    using s by (simp_all add: sdiv_nonneg smod_nonneg pos_imp_zdiv_nonneg_iff)
  have k: "kSecondsPerDay = 86400" by (simp add: kSecondsPerDay_def)
  have w: "(date + 1) smod 7 = (date + 1) mod 7" using d by (simp add: smod_nonneg)
  show ?thesis
    unfolding toUtcTime_def Let_def k c split fillHMS_def weekDay_def epoch_day prod.case h assms(2) [symmetric] w
    by (simp add: zero_tm_def)
qed

lemma utc_ok:
  assumes "utc_range t"
  shows "fromUtcTime (toUtcTime t yday) = t \<and> 0 \<le> tm_sec (toUtcTime t yday) \<and> tm_sec (toUtcTime t yday) < 60 \<and>
    0 \<le> tm_min (toUtcTime t yday) \<and> tm_min (toUtcTime t yday) < 60 \<and>
    0 \<le> tm_hour (toUtcTime t yday) \<and> tm_hour (toUtcTime t yday) < 24 \<and>
    real_date (tm_year (toUtcTime t yday) + 1900) (tm_mon (toUtcTime t yday) + 1) (tm_mday (toUtcTime t yday)) \<and>
    tm_wday (toUtcTime t yday) = (t div 86400 + 4) mod 7"
proof -
  define date s where "date = t div 86400 + 2440588" and "s = t mod 86400"
  obtain y m d where ymd: "getYearMonthDay date = \<lparr>ymd_year = y, ymd_month = m, ymd_day = d\<rparr>"
    by (cases "getYearMonthDay date")
  have "-32044 \<le> date" using utc_day [OF assms] by (simp add: date_def)
  note j = julian_roundtrip [OF this ymd]
  note u = toUtcTime_eq [OF assms date_def s_def, of yday]
  have f: "tm_sec (toUtcTime t yday) = s mod 60" "tm_min (toUtcTime t yday) = s div 60 mod 60"
    "tm_hour (toUtcTime t yday) = s div 60 div 60" "tm_year (toUtcTime t yday) = y - 1900" "tm_mon (toUtcTime t yday) = m - 1"
    "tm_mday (toUtcTime t yday) = d" "tm_wday (toUtcTime t yday) = (date + 1) mod 7"
    by (simp_all add: u ymd Let_def)
  have s: "0 \<le> s" "s < 86400" by (simp_all add: s_def)
  have hour: "0 \<le> s div 60 div 60" "s div 60 div 60 < 24"
    using s by (simp_all add: zdiv_zmult2_eq [symmetric] pos_imp_zdiv_nonneg_iff div_less_iff_less_mult)
  have "fromUtcTime (toUtcTime t yday) = (date - 2440588) * 86400 + (s div 60 div 60 * 3600 + s div 60 mod 60 * 60 + s mod 60)"
    by (simp add: fromUtcTime_def fromUtcTime_parts_def f j(1) kSecondsPerDay_def epoch_day Let_def)
  also have "\<dots> = t" using hms_split [of t] div_mult_mod_eq [of t 86400]
    unfolding date_def s_def by (simp only: add_diff_cancel_right')
  finally have "fromUtcTime (toUtcTime t yday) = t" .
  moreover have "(date + 1) mod 7 = (t div 86400 + 4) mod 7"
  proof -
    have "date + 1 = (t div 86400 + 4) + 7 * 348655" by (simp add: date_def)
    then show ?thesis by (simp only: mod_mult_self2)
  qed
  moreover have "real_date (y - 1900 + 1900) (m - 1 + 1) d" using j(2) by (simp only: diff_add_cancel)
  moreover have "0 \<le> s mod 60" "s mod 60 < 60" "0 \<le> s div 60 mod 60" "s div 60 mod 60 < 60" by simp_all
  ultimately show ?thesis using hour unfolding f by (intro conjI)
qed

lemmas utc_seconds = utc_ok [THEN conjunct1]

section \<open>Properties\<close>





end
