(* ===== verification/Mu_Log.thy ===== *)
theory Mu_Log
  imports Mu_Date
begin

text \<open>
  The logger of mucgi: the fixed buffer and the formatting of \<^verbatim>\<open>mucgi/muduo_base/LogStream.cc\<close> and
  \<^verbatim>\<open>LogStream.h\<close>, and the assembly of a line in \<^verbatim>\<open>Logging.cc\<close>. The buffer is an array written through a
  plain pointer, so every store is checked against its bounds here: a store outside is the fault
  \<open>Out_of_bounds\<close>. The text that \<open>snprintf\<close> makes of a floating point number, the text of an error number,
  the clock and the broken-down time of the C library are arguments.
\<close>

section \<open>The fixed buffer\<close>

definition store :: "string \<Rightarrow> nat \<Rightarrow> string \<Rightarrow> string res" where
  "store mem p s = (if p + length s \<le> length mem then Inr (blit mem p s) else Inl Out_of_bounds)"

definition kSmallBuffer :: nat where "kSmallBuffer = 4000"

record FixedBuffer =
  fb_data :: string
  fb_cur :: nat

definition new_FixedBuffer :: "string \<Rightarrow> FixedBuffer" where
  "new_FixedBuffer mem = \<lparr>fb_data = mem, fb_cur = 0\<rparr>"

definition avail :: "FixedBuffer \<Rightarrow> int" where
  "avail b = int (length (fb_data b)) - int (fb_cur b)"

definition fb_append :: "string \<Rightarrow> FixedBuffer \<Rightarrow> FixedBuffer res" where
  "fb_append buf b =
     (if avail b mod 2 ^ 64 > int (length buf)
      then bind_res (store (fb_data b) (fb_cur b) buf) (\<lambda>d. Inr (b\<lparr>fb_data := d, fb_cur := fb_cur b + length buf\<rparr>))
      else Inr b)"

definition fb_add :: "nat \<Rightarrow> FixedBuffer \<Rightarrow> FixedBuffer" where
  "fb_add len b = b\<lparr>fb_cur := fb_cur b + len\<rparr>"

definition fb_reset :: "FixedBuffer \<Rightarrow> FixedBuffer" where
  "fb_reset b = b\<lparr>fb_cur := 0\<rparr>"

definition fb_bzero :: "FixedBuffer \<Rightarrow> FixedBuffer" where
  "fb_bzero b = b\<lparr>fb_data := replicate (length (fb_data b)) (CHR 0x00)\<rparr>"

definition debugString :: "FixedBuffer \<Rightarrow> (string \<times> FixedBuffer) res" where
  "debugString b = bind_res (store (fb_data b) (fb_cur b) [CHR 0x00]) (\<lambda>d. Inr (d, b\<lparr>fb_data := d\<rparr>))"

definition fb_toString :: "FixedBuffer \<Rightarrow> string" where
  "fb_toString b = take (fb_cur b) (fb_data b)"

section \<open>Numbers\<close>

definition digits :: string where "digits = ''9876543210123456789''"

definition zero_at :: "int \<Rightarrow> char res" where
  "zero_at lsd = (if -9 \<le> lsd \<and> lsd \<le> 9 then Inr (digits ! nat (9 + lsd)) else Inl Out_of_bounds)"

definition digitsHex :: string where "digitsHex = ''0123456789ABCDEF''"

lemma abs_sdiv: "\<bar>i sdiv 10\<bar> = \<bar>i\<bar> div 10" for i :: int
  by (cases "i = 0") (auto simp: signed_divide_int_def abs_mult)

lemma abs_smod: "\<bar>i smod 10\<bar> = \<bar>i\<bar> mod 10" for i :: int
  by (cases "i = 0") (auto simp: signed_modulo_int_def abs_mult)

function (sequential) convert_loop :: "int \<Rightarrow> nat \<Rightarrow> string \<Rightarrow> (nat \<times> string) res" where
  "convert_loop i p mem =
     bind_res (zero_at (i smod 10)) (\<lambda>c. bind_res (store mem p [c]) (\<lambda>mem.
       if i sdiv 10 \<noteq> 0 then convert_loop (i sdiv 10) (p + 1) mem else Inr (p + 1, mem)))"
  by pat_completeness auto

termination
proof (relation "measure (\<lambda>(i, _). nat \<bar>i\<bar>)")
  fix i :: int
  assume "i sdiv 10 \<noteq> 0"
  then have "i \<noteq> 0" by (auto simp: signed_divide_int_def)
  then have "\<bar>i sdiv 10\<bar> < \<bar>i\<bar>" unfolding abs_sdiv by (intro int_div_less_self) auto
  then show "((i sdiv 10, p + 1, m), i, p, mem) \<in> measure (\<lambda>(i, _). nat \<bar>i\<bar>)" for p m mem by simp
qed simp

definition reverse :: "nat \<Rightarrow> nat \<Rightarrow> string \<Rightarrow> string" where
  "reverse i j mem = blit mem i (rev (slice i j mem))"

definition convert :: "nat \<Rightarrow> int \<Rightarrow> string \<Rightarrow> (nat \<times> string) res" where
  "convert buf v mem =
     bind_res (convert_loop v buf mem) (\<lambda>(p, mem).
     bind_res (if v < 0 then bind_res (store mem p ''-'') (\<lambda>mem. Inr (p + 1, mem)) else Inr (p, mem)) (\<lambda>(p, mem).
     bind_res (store mem p [CHR 0x00]) (\<lambda>mem. Inr (p - buf, reverse buf p mem))))"

fun convertHex_loop :: "nat \<Rightarrow> nat \<Rightarrow> string \<Rightarrow> (nat \<times> string) res" where
  "convertHex_loop i p mem =
     bind_res (store mem p [digitsHex ! (i mod 16)]) (\<lambda>mem.
       if i div 16 \<noteq> 0 then convertHex_loop (i div 16) (p + 1) mem else Inr (p + 1, mem))"

declare convert_loop.simps [simp del] convertHex_loop.simps [simp del]

definition convertHex :: "nat \<Rightarrow> nat \<Rightarrow> string \<Rightarrow> (nat \<times> string) res" where
  "convertHex buf v mem =
     bind_res (convertHex_loop v buf mem) (\<lambda>(p, mem).
     bind_res (store mem p [CHR 0x00]) (\<lambda>mem. Inr (p - buf, reverse buf p mem)))"

section \<open>The stream\<close>

definition kMaxNumericSize :: int where "kMaxNumericSize = 32"

definition out_bool :: "bool \<Rightarrow> FixedBuffer \<Rightarrow> FixedBuffer res" where
  "out_bool v b = fb_append (if v then ''1'' else ''0'') b"

definition formatInteger :: "int \<Rightarrow> FixedBuffer \<Rightarrow> FixedBuffer res" where
  "formatInteger v b =
     (if avail b \<ge> kMaxNumericSize
      then bind_res (convert (fb_cur b) v (fb_data b)) (\<lambda>(len, d). Inr (fb_add len (b\<lparr>fb_data := d\<rparr>)))
      else Inr b)"

definition out_pointer :: "nat \<Rightarrow> FixedBuffer \<Rightarrow> FixedBuffer res" where
  "out_pointer v b =
     (if avail b \<ge> kMaxNumericSize
      then bind_res (store (fb_data b) (fb_cur b) ''0'') (\<lambda>d. bind_res (store d (fb_cur b + 1) ''x'') (\<lambda>d.
           bind_res (convertHex (fb_cur b + 2) v d) (\<lambda>(len, d). Inr (fb_add (len + 2) (b\<lparr>fb_data := d\<rparr>)))))
      else Inr b)"

text \<open>\<open>snprintf\<close> stores at most the given number of bytes, the last of them zero, and returns the length of the whole text.\<close>

definition snprintf :: "string \<Rightarrow> nat \<Rightarrow> nat \<Rightarrow> string \<Rightarrow> (nat \<times> string) res" where
  "snprintf mem p n txt = bind_res (store mem p (take (n - 1) txt @ [CHR 0x00])) (\<lambda>mem. Inr (length txt, mem))"

definition out_double :: "string \<Rightarrow> FixedBuffer \<Rightarrow> FixedBuffer res" where
  "out_double txt b =
     (if avail b \<ge> kMaxNumericSize
      then bind_res (snprintf (fb_data b) (fb_cur b) (nat kMaxNumericSize) txt) (\<lambda>(len, d). Inr (fb_add len (b\<lparr>fb_data := d\<rparr>)))
      else Inr b)"

definition out_char :: "char \<Rightarrow> FixedBuffer \<Rightarrow> FixedBuffer res" where
  "out_char v b = fb_append [v] b"

definition strlen :: "string \<Rightarrow> nat" where
  "strlen s = length (takeWhile (\<lambda>c. c \<noteq> CHR 0x00) s)"

definition out_cstr :: "string option \<Rightarrow> FixedBuffer \<Rightarrow> FixedBuffer res" where
  "out_cstr str b = (case str of Some s \<Rightarrow> fb_append (take (strlen s) s) b | None \<Rightarrow> fb_append ''(null)'' b)"

definition out_string :: "string \<Rightarrow> FixedBuffer \<Rightarrow> FixedBuffer res" where
  "out_string v b = fb_append v b"

datatype log_item =
    L_bool bool
  | L_integer int
  | L_pointer nat
  | L_double string
  | L_char char
  | L_cstr "string option"
  | L_string string

fun out_item :: "FixedBuffer \<Rightarrow> log_item \<Rightarrow> FixedBuffer res" where
  "out_item b (L_bool v) = out_bool v b"
| "out_item b (L_integer v) = formatInteger v b"
| "out_item b (L_pointer v) = out_pointer v b"
| "out_item b (L_double txt) = out_double txt b"
| "out_item b (L_char v) = out_char v b"
| "out_item b (L_cstr v) = out_cstr v b"
| "out_item b (L_string v) = out_string v b"

section \<open>The logger\<close>

datatype LogLevel = TRACE | DEBUG | INFO | WARN | ERROR | FATAL

fun level_code :: "LogLevel \<Rightarrow> nat" where
  "level_code TRACE = 0"
| "level_code DEBUG = 1"
| "level_code INFO = 2"
| "level_code WARN = 3"
| "level_code ERROR = 4"
| "level_code FATAL = 5"

instantiation LogLevel :: linorder
begin

definition less_eq_LogLevel :: "LogLevel \<Rightarrow> LogLevel \<Rightarrow> bool" where
  "less_eq_LogLevel a b \<longleftrightarrow> level_code a \<le> level_code b"

definition less_LogLevel :: "LogLevel \<Rightarrow> LogLevel \<Rightarrow> bool" where
  "less_LogLevel a b \<longleftrightarrow> level_code a < level_code b"

instance
proof
  fix x y :: LogLevel
  show "x \<le> y \<Longrightarrow> y \<le> x \<Longrightarrow> x = y" by (cases x; cases y) (simp_all add: less_eq_LogLevel_def)
qed (auto simp: less_eq_LogLevel_def less_LogLevel_def)

end

definition LogLevelName :: "LogLevel \<Rightarrow> string" where
  "LogLevelName level = [''TRACE '', ''DEBUG '', ''INFO  '', ''WARN  '', ''ERROR '', ''FATAL ''] ! level_code level"

definition initLogLevel :: "(string \<Rightarrow> string option) \<Rightarrow> LogLevel" where
  "initLogLevel getenv =
     (if getenv ''LOG_TRACE'' \<noteq> None then TRACE
      else if getenv ''LOG_DEBUG'' \<noteq> None then DEBUG
      else if getenv ''LOG_INFO'' \<noteq> None then INFO
      else if getenv ''LOG_WARN'' \<noteq> None then WARN
      else ERROR)"

definition strrchr :: "string \<Rightarrow> char \<Rightarrow> nat option" where
  "strrchr s c = (if c \<in> set s then Some (length s - 1 - length (takeWhile (\<lambda>x. x \<noteq> c) (rev s))) else None)"

definition SourceFile :: "string \<Rightarrow> string" where
  "SourceFile filename = (case strrchr filename (CHR ''/'') of Some slash \<Rightarrow> drop (slash + 1) filename | None \<Rightarrow> filename)"

text \<open>The variables of a thread; the two character arrays are C strings, empty at first.\<close>

record log_thread =
  t_time :: string
  t_lastSecond :: int
  t_cachedTid :: int
  t_tidString :: string
  t_tidStringLength :: nat

definition new_log_thread :: log_thread where
  "new_log_thread = \<lparr>t_time = [], t_lastSecond = 0, t_cachedTid = 0, t_tidString = [], t_tidStringLength = 6\<rparr>"

definition int_text :: "int \<Rightarrow> string" where
  "int_text v = (if v < 0 then ''-'' else []) @ dec_string (nat \<bar>v\<bar>)"

definition pad_left :: "char \<Rightarrow> nat \<Rightarrow> string \<Rightarrow> string" where
  "pad_left c w s = replicate (w - length s) c @ s"

text \<open>The conversions \<open>%<w>d\<close> and \<open>%0<w>d\<close> of \<open>snprintf\<close>.\<close>

definition fmt_d :: "nat \<Rightarrow> int \<Rightarrow> string" where
  "fmt_d w v = pad_left (CHR '' '') w (int_text v)"

definition fmt_0d :: "nat \<Rightarrow> int \<Rightarrow> string" where
  "fmt_0d w v = (if v < 0 then ''-'' @ pad_left (CHR ''0'') (w - 1) (dec_string (nat \<bar>v\<bar>))
     else pad_left (CHR ''0'') w (dec_string (nat v)))"

definition cacheTid :: "int \<Rightarrow> log_thread \<Rightarrow> log_thread" where
  "cacheTid gettid th =
     (if t_cachedTid th = 0
      then let txt = fmt_d 5 gettid @ '' ''
           in th\<lparr>t_cachedTid := gettid, t_tidString := take 31 txt, t_tidStringLength := length txt\<rparr>
      else th)"

definition out_T :: "string \<Rightarrow> nat \<Rightarrow> FixedBuffer \<Rightarrow> FixedBuffer res" where
  "out_T str len b = assert_res (strlen str = len) (fb_append (take len str) b)"

definition time_text :: "tm \<Rightarrow> string" where
  "time_text t = fmt_d 4 (tm_year t + 1900) @ fmt_0d 2 (tm_mon t + 1) @ fmt_0d 2 (tm_mday t) @ '' '' @
     fmt_0d 2 (tm_hour t) @ '':'' @ fmt_0d 2 (tm_min t) @ '':'' @ fmt_0d 2 (tm_sec t)"

definition Fmt :: "string \<Rightarrow> string res" where
  "Fmt txt = assert_res (length txt < 32) (Inr txt)"

definition formatTime :: "(int \<Rightarrow> tm) \<Rightarrow> (int \<Rightarrow> tm) option \<Rightarrow> int \<Rightarrow> log_thread \<Rightarrow> FixedBuffer \<Rightarrow> (log_thread \<times> FixedBuffer) res" where
  "formatTime gmtime_r g_logTimeZone microSecondsSinceEpoch th b =
     (let seconds = microSecondsSinceEpoch sdiv 1000000;
          microseconds = cast_int (microSecondsSinceEpoch smod 1000000)
      in bind_res
        (if seconds \<noteq> t_lastSecond th
         then let txt = time_text (case g_logTimeZone of Some toLocalTime \<Rightarrow> toLocalTime seconds | None \<Rightarrow> gmtime_r seconds)
              in assert_res (length txt = 17) (Inr (th\<lparr>t_lastSecond := seconds, t_time := take 31 txt\<rparr>))
         else Inr th)
        (\<lambda>th. if g_logTimeZone \<noteq> None
          then bind_res (Fmt (''.'' @ fmt_0d 6 microseconds @ '' '')) (\<lambda>us. assert_res (length us = 8)
            (bind_res (out_T (t_time th) 17 b) (\<lambda>b. bind_res (out_T us 8 b) (\<lambda>b. Inr (th, b)))))
          else bind_res (Fmt (''.'' @ fmt_0d 6 microseconds @ ''Z '')) (\<lambda>us. assert_res (length us = 9)
            (bind_res (out_T (t_time th) 17 b) (\<lambda>b. bind_res (out_T us 9 b) (\<lambda>b. Inr (th, b)))))))"

text \<open>What a log statement reads from its surroundings.\<close>

record log_env =
  le_gmtime :: "int \<Rightarrow> tm"
  le_zone :: "(int \<Rightarrow> tm) option"
  le_now :: int
  le_tid :: int
  le_strerror :: "int \<Rightarrow> string"

definition new_Impl :: "log_env \<Rightarrow> LogLevel \<Rightarrow> int \<Rightarrow> log_thread \<Rightarrow> FixedBuffer \<Rightarrow> (log_thread \<times> FixedBuffer) res" where
  "new_Impl e level savedErrno th b =
     bind_res (formatTime (le_gmtime e) (le_zone e) (le_now e) th b) (\<lambda>(th, b).
     let th = cacheTid (le_tid e) th in
     bind_res (out_T (t_tidString th) (t_tidStringLength th) b) (\<lambda>b.
     bind_res (out_T (LogLevelName level) 6 b) (\<lambda>b.
     bind_res (if savedErrno \<noteq> 0
       then run_all out_item b [L_cstr (Some (le_strerror e savedErrno)), L_cstr (Some '' (errno=''), L_integer savedErrno, L_cstr (Some '') '')]
       else Inr b) (\<lambda>b. Inr (th, b)))))"

definition Impl_finish :: "string \<Rightarrow> int \<Rightarrow> FixedBuffer \<Rightarrow> FixedBuffer res" where
  "Impl_finish basename line b =
     run_all out_item b [L_cstr (Some '' - ''), L_string basename, L_char (CHR '':''), L_integer line, L_char (CHR 0x0A)]"

datatype log_macro =
    LOG_TRACE string
  | LOG_DEBUG string
  | LOG_INFO
  | LOG_WARN
  | LOG_ERROR
  | LOG_FATAL
  | LOG_SYSERR
  | LOG_SYSFATAL

fun macro_level :: "log_macro \<Rightarrow> LogLevel" where
  "macro_level (LOG_TRACE _) = TRACE"
| "macro_level (LOG_DEBUG _) = DEBUG"
| "macro_level LOG_INFO = INFO"
| "macro_level LOG_WARN = WARN"
| "macro_level LOG_ERROR = ERROR"
| "macro_level LOG_FATAL = FATAL"
| "macro_level LOG_SYSERR = ERROR"
| "macro_level LOG_SYSFATAL = FATAL"

fun macro_enabled :: "LogLevel \<Rightarrow> log_macro \<Rightarrow> bool" where
  "macro_enabled logLevel (LOG_TRACE _) \<longleftrightarrow> logLevel \<le> TRACE"
| "macro_enabled logLevel (LOG_DEBUG _) \<longleftrightarrow> logLevel \<le> DEBUG"
| "macro_enabled logLevel LOG_INFO \<longleftrightarrow> logLevel \<le> INFO"
| "macro_enabled logLevel _ \<longleftrightarrow> True"

fun macro_errno :: "log_macro \<Rightarrow> int \<Rightarrow> int" where
  "macro_errno LOG_SYSERR errno = errno"
| "macro_errno LOG_SYSFATAL errno = errno"
| "macro_errno _ errno = 0"

fun macro_func :: "log_macro \<Rightarrow> log_item list" where
  "macro_func (LOG_TRACE func) = [L_cstr (Some func), L_char (CHR '' '')]"
| "macro_func (LOG_DEBUG func) = [L_cstr (Some func), L_char (CHR '' '')]"
| "macro_func _ = []"

definition new_Logger :: "log_env \<Rightarrow> log_macro \<Rightarrow> int \<Rightarrow> log_thread \<Rightarrow> FixedBuffer \<Rightarrow> (log_thread \<times> FixedBuffer) res" where
  "new_Logger e mac errno th b =
     bind_res (new_Impl e (macro_level mac) (macro_errno mac errno) th b) (\<lambda>(th, b).
     bind_res (run_all out_item b (macro_func mac)) (\<lambda>b. Inr (th, b)))"

text \<open>The destructor hands the line to the output function; after a fatal line the process is aborted.\<close>

definition delete_Logger :: "LogLevel \<Rightarrow> string \<Rightarrow> int \<Rightarrow> FixedBuffer \<Rightarrow> (string \<times> bool) res" where
  "delete_Logger level basename line b =
     bind_res (Impl_finish basename line b) (\<lambda>b. Inr (fb_toString b, level = FATAL))"

definition log_statement ::
  "log_env \<Rightarrow> LogLevel \<Rightarrow> log_macro \<Rightarrow> int \<Rightarrow> string \<Rightarrow> int \<Rightarrow> log_item list \<Rightarrow> string \<Rightarrow> log_thread \<Rightarrow> ((string \<times> bool) option \<times> log_thread) res"
where
  "log_statement e logLevel mac errno file line its mem th =
     (if macro_enabled logLevel mac
      then bind_res (new_Logger e mac errno th (new_FixedBuffer mem)) (\<lambda>(th, b).
           bind_res (run_all out_item b its) (\<lambda>b.
           bind_res (delete_Logger (macro_level mac) (SourceFile file) line b) (\<lambda>out. Inr (Some out, th))))
      else Inr (None, th))"

section \<open>What the stream holds\<close>

fun hex_text :: "nat \<Rightarrow> string" where
  "hex_text n = (if n < 16 then [digitsHex ! n] else hex_text (n div 16) @ [digitsHex ! (n mod 16)])"

declare hex_text.simps [simp del]

fun item_text :: "log_item \<Rightarrow> string" where
  "item_text (L_bool v) = (if v then ''1'' else ''0'')"
| "item_text (L_integer v) = int_text v"
| "item_text (L_pointer v) = ''0x'' @ hex_text v"
| "item_text (L_double txt) = txt"
| "item_text (L_char v) = [v]"
| "item_text (L_cstr v) = (case v of Some s \<Rightarrow> take (strlen s) s | None \<Rightarrow> ''(null)'')"
| "item_text (L_string v) = v"

fun item_need :: "log_item \<Rightarrow> nat" where
  "item_need (L_integer v) = 32"
| "item_need (L_pointer v) = 32"
| "item_need (L_double txt) = 32"
| "item_need it = length (item_text it) + 1"

fun item_ok :: "log_item \<Rightarrow> bool" where
  "item_ok (L_integer v) \<longleftrightarrow> - (2 ^ 63) \<le> v \<and> v < 2 ^ 64"
| "item_ok (L_pointer v) \<longleftrightarrow> v < 2 ^ 64"
| "item_ok (L_double txt) \<longleftrightarrow> length txt < 32"
| "item_ok _ \<longleftrightarrow> True"

definition spec_item :: "nat \<Rightarrow> string \<Rightarrow> log_item \<Rightarrow> string" where
  "spec_item N s it = (if item_need it \<le> N - length s then s @ item_text it else s)"

text \<open>The buffer holds \<open>s\<close>, of the bytes of an array of \<open>N\<close> bytes, with room for a terminating zero.\<close>

definition holds_text :: "nat \<Rightarrow> string \<Rightarrow> FixedBuffer \<Rightarrow> bool" where
  "holds_text N s b \<longleftrightarrow> length (fb_data b) = N \<and> fb_cur b = length s \<and> length s < N \<and> take (length s) (fb_data b) = s"

lemma store_ok: "p + length s \<le> length mem \<Longrightarrow> store mem p s = Inr (blit mem p s)"
  by (simp add: store_def)

lemma blit_blit: "p + length s + length t \<le> length mem \<Longrightarrow> blit (blit mem p s) (p + length s) t = blit mem p (s @ t)"
  by (simp add: blit_def ac_simps)

lemma zero_at_digit:
  assumes "\<bar>d\<bar> \<le> 9"
  shows "zero_at d = Inr (char_of (48 + nat \<bar>d\<bar>))"
proof -
  have "d \<in> set [-9 .. 9]" unfolding set_upto atLeastAtMost_iff using assms by linarith
  moreover have "\<forall>d \<in> set [-9 .. 9]. zero_at d = Inr (char_of (48 + nat \<bar>d\<bar>))" by code_simp
  ultimately show ?thesis by blast
qed

lemma rev_dec_string:
  "rev (dec_string n) = char_of (48 + n mod 10) # (if n div 10 = 0 then [] else rev (dec_string (n div 10)))"
  by (cases "n < 10") (simp_all add: dec_string.simps [of n] div_eq_0_iff)

lemma convert_loop_ok:
  "p + length (dec_string (nat \<bar>i\<bar>)) \<le> length mem \<Longrightarrow>
   convert_loop i p mem = Inr (p + length (dec_string (nat \<bar>i\<bar>)), blit mem p (rev (dec_string (nat \<bar>i\<bar>))))"
proof (induction i p mem rule: convert_loop.induct)
  case (1 i p mem)
  let ?n = "nat \<bar>i\<bar>"
  have m: "nat \<bar>i smod 10\<bar> = ?n mod 10" "nat \<bar>i sdiv 10\<bar> = ?n div 10"
    by (simp_all add: abs_smod abs_sdiv nat_mod_distrib nat_div_distrib)
  have z: "zero_at (i smod 10) = Inr (char_of (48 + ?n mod 10))"
    using zero_at_digit [of "i smod 10"] m(1) by (simp add: abs_smod)
  have e: "i sdiv 10 = 0 \<longleftrightarrow> ?n div 10 = 0" using m(2) abs_sdiv [of i] by linarith
  have len: "length (dec_string ?n) = Suc (if ?n div 10 = 0 then 0 else length (dec_string (?n div 10)))"
    using arg_cong [OF rev_dec_string [of ?n], of length] by (simp split: if_splits)
  have s: "store mem p [char_of (48 + ?n mod 10)] = Inr (blit mem p [char_of (48 + ?n mod 10)])"
    using "1.prems" len by (intro store_ok) simp
  show ?case
  proof (cases "?n div 10 = 0")
    case True
    then have "rev (dec_string ?n) = [char_of (48 + ?n mod 10)]" using rev_dec_string [of ?n] by simp
    then show ?thesis using z s e True len by (simp add: convert_loop.simps [of i])
  next
    case False
    then have r: "rev (dec_string ?n) = char_of (48 + ?n mod 10) # rev (dec_string (?n div 10))"
      using rev_dec_string [of ?n] by simp
    have l: "length (dec_string ?n) = Suc (length (dec_string (?n div 10)))" using len False by simp
    have "convert_loop (i sdiv 10) (p + 1) (blit mem p [char_of (48 + ?n mod 10)]) =
      Inr (p + 1 + length (dec_string (?n div 10)), blit (blit mem p [char_of (48 + ?n mod 10)]) (p + 1) (rev (dec_string (?n div 10))))"
      using "1.IH" [OF z s] "1.prems" False e l by (simp add: m(2))
    then show ?thesis
      using z s e False l r blit_blit [of p "[char_of (48 + ?n mod 10)]" "rev (dec_string (?n div 10))" mem] "1.prems"
      by (simp add: convert_loop.simps [of i])
  qed
qed

text \<open>Both conversions end alike: the digits are there from the last to the first, a zero is stored and they are reversed.\<close>

lemma terminate_reverse:
  assumes "p + length txt < length mem"
  shows "bind_res (store (blit mem p (rev txt)) (p + length txt) [CHR 0x00])
      (\<lambda>mem. Inr (p + length txt - p, reverse p (p + length txt) mem)) = Inr (length txt, blit mem p (txt @ [CHR 0x00]))"
proof -
  have "store (blit mem p (rev txt)) (p + length txt) [CHR 0x00] = Inr (blit mem p (rev txt @ [CHR 0x00]))"
    using assms blit_blit [of p "rev txt" "[CHR 0x00]" mem] by (simp add: store_ok)
  moreover have "reverse p (p + length txt) (blit mem p (rev txt @ [CHR 0x00])) = blit mem p (txt @ [CHR 0x00])"
    using assms by (simp add: reverse_def slice_def blit_def)
  ultimately show ?thesis by simp
qed

lemma convert_ok:
  assumes "p + length (int_text v) < length mem"
  shows "convert p v mem = Inr (length (int_text v), blit mem p (int_text v @ [CHR 0x00]))"
proof -
  let ?d = "dec_string (nat \<bar>v\<bar>)" and ?t = "int_text v"
  have l: "convert_loop v p mem = Inr (p + length ?d, blit mem p (rev ?d))"
    using assms by (intro convert_loop_ok) (simp add: int_text_def split: if_splits)
  have "(if v < 0 then bind_res (store (blit mem p (rev ?d)) (p + length ?d) ''-'') (\<lambda>mem. Inr (p + length ?d + 1, mem))
      else Inr (p + length ?d, blit mem p (rev ?d))) = Inr (p + length ?t, blit mem p (rev ?t))"
    using assms blit_blit [of p "rev ?d" "''-''" mem] by (auto simp: int_text_def store_ok)
  then show ?thesis
    using terminate_reverse [OF assms] by (simp add: convert_def l)
qed

lemma rev_hex_text:
  "rev (hex_text n) = digitsHex ! (n mod 16) # (if n div 16 = 0 then [] else rev (hex_text (n div 16)))"
  by (cases "n < 16") (simp_all add: hex_text.simps [of n] div_eq_0_iff)

lemma convertHex_loop_ok:
  "p + length (hex_text n) \<le> length mem \<Longrightarrow>
   convertHex_loop n p mem = Inr (p + length (hex_text n), blit mem p (rev (hex_text n)))"
proof (induction n p mem rule: convertHex_loop.induct)
  case (1 n p mem)
  let ?c = "digitsHex ! (n mod 16)"
  have len: "length (hex_text n) = Suc (if n div 16 = 0 then 0 else length (hex_text (n div 16)))"
    using arg_cong [OF rev_hex_text [of n], of length] by (simp split: if_splits)
  have s: "store mem p [?c] = Inr (blit mem p [?c])" using "1.prems" len by (intro store_ok) simp
  show ?case
  proof (cases "n div 16 = 0")
    case True
    then show ?thesis using s len rev_hex_text [of n] by (simp add: convertHex_loop.simps [of n])
  next
    case False
    then have "convertHex_loop (n div 16) (p + 1) (blit mem p [?c]) =
      Inr (p + 1 + length (hex_text (n div 16)), blit (blit mem p [?c]) (p + 1) (rev (hex_text (n div 16))))"
      using "1.IH" [OF s False] "1.prems" len by simp
    then show ?thesis
      using s False len rev_hex_text [of n] blit_blit [of p "[?c]" "rev (hex_text (n div 16))" mem] "1.prems"
      by (simp add: convertHex_loop.simps [of n])
  qed
qed

lemma convertHex_ok:
  assumes "p + length (hex_text n) < length mem"
  shows "convertHex p n mem = Inr (length (hex_text n), blit mem p (hex_text n @ [CHR 0x00]))"
  using assms terminate_reverse [OF assms] by (simp add: convertHex_def convertHex_loop_ok)

lemma dec_length: "n < 10 ^ k \<Longrightarrow> 0 < k \<Longrightarrow> length (dec_string n) \<le> k"
proof (induction k arbitrary: n)
  case (Suc k)
  show ?case
  proof (cases "n < 10")
    case False
    then have "0 < k" using Suc.prems by (cases k) auto
    moreover have "n div 10 < 10 ^ k" using Suc.prems by (simp add: div_less_iff_less_mult)
    ultimately show ?thesis using Suc.IH [of "n div 10"] False by (simp add: dec_string.simps [of n])
  qed (simp add: dec_string.simps [of n])
qed simp

lemma hex_length: "n < 16 ^ k \<Longrightarrow> 0 < k \<Longrightarrow> length (hex_text n) \<le> k"
proof (induction k arbitrary: n)
  case (Suc k)
  show ?case
  proof (cases "n < 16")
    case False
    then have "0 < k" using Suc.prems by (cases k) auto
    moreover have "n div 16 < 16 ^ k" using Suc.prems by (simp add: div_less_iff_less_mult)
    ultimately show ?thesis using Suc.IH [of "n div 16"] False by (simp add: hex_text.simps [of n])
  qed (simp add: hex_text.simps [of n])
qed simp

lemma int_text_length:
  assumes "- (2 ^ 63) \<le> v" "v < 2 ^ 64"
  shows "length (int_text v) \<le> 20"
proof (cases "v < 0")
  case True
  then have "nat \<bar>v\<bar> < 10 ^ 19" using assms by simp
  then show ?thesis using True dec_length [of "nat \<bar>v\<bar>" 19] by (simp add: int_text_def)
next
  case False
  then have "nat \<bar>v\<bar> < 10 ^ 20" using assms by simp
  then show ?thesis using False dec_length [of "nat \<bar>v\<bar>" 20] by (simp add: int_text_def)
qed

lemma holds_add:
  assumes "holds_text N s b" "length s + length t < N"
  shows "holds_text N (s @ t) (fb_add (length t) (b\<lparr>fb_data := blit (fb_data b) (fb_cur b) (t @ [CHR 0x00])\<rparr>))"
    "holds_text N (s @ t) (b\<lparr>fb_data := blit (fb_data b) (fb_cur b) t, fb_cur := fb_cur b + length t\<rparr>)"
  using assms by (auto simp: holds_text_def fb_add_def blit_def)

lemma holds_toString: "holds_text N s b \<Longrightarrow> fb_toString b = s" "holds_text N s b \<Longrightarrow> length s < N"
  by (auto simp: holds_text_def fb_toString_def)

lemma avail_holds:
  "holds_text N s b \<Longrightarrow> avail b = int (N - length s)"
  "holds_text N s b \<Longrightarrow> int N < 2 ^ 64 \<Longrightarrow> avail b mod 2 ^ 64 = int (N - length s)"
  by (auto simp: avail_def holds_text_def)

lemma fb_append_ok:
  assumes "holds_text N s b" "int N < 2 ^ 64"
  shows "res_ok (fb_append t b) (holds_text N (if length t + 1 \<le> N - length s then s @ t else s))"
proof -
  have c: "length (fb_data b) = N" "fb_cur b = length s" using assms(1) by (simp_all add: holds_text_def)
  then show ?thesis
    using avail_holds(2) [OF assms] assms(1) holds_add(2) [OF assms(1), of t]
    by (auto simp: fb_append_def store_ok)
qed

lemma out_item_ok:
  assumes "holds_text N s b" "int N < 2 ^ 64" "item_ok it"
  shows "res_ok (out_item b it) (holds_text N (spec_item N s it))"
proof -
  have c: "length (fb_data b) = N" "fb_cur b = length s" "length s < N" using assms(1) by (simp_all add: holds_text_def)
  have a: "avail b \<ge> kMaxNumericSize \<longleftrightarrow> 32 \<le> N - length s"
    using avail_holds(1) [OF assms(1)] by (simp add: kMaxNumericSize_def)
  note app = fb_append_ok [OF assms(1,2)]
  show ?thesis
  proof (cases it)
    case (L_integer v)
    then have "length (int_text v) \<le> 20" using assms(3) by (intro int_text_length) auto
    then show ?thesis
      using L_integer a c assms(1) convert_ok [of "length s" v "fb_data b"] holds_add(1) [OF assms(1), of "int_text v"]
      by (auto simp: formatInteger_def spec_item_def)
  next
    case (L_pointer v)
    let ?t = "hex_text v"
    have l: "length ?t \<le> 16" using assms(3) L_pointer hex_length [of v 16] by simp
    have "32 \<le> N - length s \<Longrightarrow> out_item b it = Inr (fb_add (length ?t + 2) (b\<lparr>fb_data := blit (fb_data b) (length s) (''0x'' @ ?t @ [CHR 0x00])\<rparr>))"
      using L_pointer a c l convertHex_ok [of "length s + 2" v "blit (fb_data b) (length s) ''0x''"]
        blit_blit [of "length s" "''0''" "''x''" "fb_data b"] blit_blit [of "length s" "''0x''" "?t @ [CHR 0x00]" "fb_data b"]
      by (simp add: out_pointer_def store_ok)
    then show ?thesis
      using L_pointer a c l assms(1) holds_add(1) [OF assms(1), of "''0x'' @ ?t"] by (auto simp: out_pointer_def spec_item_def)
  next
    case (L_double t)
    then show ?thesis
      using a c assms(1,3) holds_add(1) [OF assms(1), of t]
      by (auto simp: out_double_def snprintf_def store_ok kMaxNumericSize_def spec_item_def)
  qed (use app [of "item_text it"] in \<open>auto simp: out_bool_def out_char_def out_cstr_def out_string_def spec_item_def split: option.splits\<close>)
qed

lemma out_items_ok:
  assumes "int N < 2 ^ 64" "list_all item_ok its"
  shows "holds_text N s b \<Longrightarrow> res_ok (run_all out_item b its) (holds_text N (foldl (spec_item N) s its))"
  using assms(2)
proof (induction its arbitrary: s b)
  case (Cons it its)
  from Cons.prems show ?case
    by (auto intro!: res_ok_bind [OF out_item_ok [OF _ assms(1)]] Cons.IH)
qed simp

section \<open>The line of a statement\<close>

definition zone_tm :: "log_env \<Rightarrow> int \<Rightarrow> tm" where
  "zone_tm e seconds = (case le_zone e of Some toLocalTime \<Rightarrow> toLocalTime seconds | None \<Rightarrow> le_gmtime e seconds)"

definition head_items :: "log_env \<Rightarrow> LogLevel \<Rightarrow> int \<Rightarrow> log_item list" where
  "head_items e level savedErrno =
     [L_string (time_text (zone_tm e (le_now e div 1000000))),
      L_string (''.'' @ fmt_0d 6 (le_now e mod 1000000) @ (if le_zone e = None then ''Z '' else '' '')),
      L_string (fmt_d 5 (le_tid e) @ '' ''), L_string (LogLevelName level)] @
     (if savedErrno \<noteq> 0
      then [L_cstr (Some (le_strerror e savedErrno)), L_cstr (Some '' (errno=''), L_integer savedErrno, L_cstr (Some '') '')]
      else [])"

definition line_items :: "log_env \<Rightarrow> log_macro \<Rightarrow> int \<Rightarrow> string \<Rightarrow> int \<Rightarrow> log_item list \<Rightarrow> log_item list" where
  "line_items e mac errno file line its =
     head_items e (macro_level mac) (macro_errno mac errno) @ macro_func mac @ its @
     [L_cstr (Some '' - ''), L_string (SourceFile file), L_char (CHR '':''), L_integer line, L_char (CHR 0x0A)]"

definition nul_free :: "string \<Rightarrow> bool" where
  "nul_free s \<longleftrightarrow> CHR 0x00 \<notin> set s"

text \<open>The fields of a broken-down time are in the ranges the C library documents, for a year of at most four digits.\<close>

definition tm_ok :: "tm \<Rightarrow> bool" where
  "tm_ok t \<longleftrightarrow> 0 \<le> tm_year t + 1900 \<and> tm_year t + 1900 < 10000 \<and> 0 \<le> tm_mon t \<and> tm_mon t < 12 \<and>
     1 \<le> tm_mday t \<and> tm_mday t \<le> 31 \<and> 0 \<le> tm_hour t \<and> tm_hour t < 24 \<and> 0 \<le> tm_min t \<and> tm_min t < 60 \<and>
     0 \<le> tm_sec t \<and> tm_sec t \<le> 60"

text \<open>What the thread has cached is what it would compute again.\<close>

definition th_ok :: "log_env \<Rightarrow> log_thread \<Rightarrow> bool" where
  "th_ok e th \<longleftrightarrow>
     (t_lastSecond th \<noteq> 0 \<longrightarrow> t_time th = time_text (zone_tm e (t_lastSecond th)) \<and> length (t_time th) = 17) \<and>
     (t_cachedTid th \<noteq> 0 \<longrightarrow> t_tidString th = fmt_d 5 (le_tid e) @ '' '' \<and> t_tidStringLength th = length (t_tidString th))"

definition log_env_ok :: "log_env \<Rightarrow> bool" where
  "log_env_ok e \<longleftrightarrow> 1000000 \<le> le_now e \<and> tm_ok (zone_tm e (le_now e div 1000000)) \<and> 0 < le_tid e \<and> le_tid e < 2 ^ 31"

lemma nul_free_simps [simp]:
  "nul_free []" "nul_free (c # s) \<longleftrightarrow> c \<noteq> CHR 0x00 \<and> nul_free s" "nul_free (s @ t) \<longleftrightarrow> nul_free s \<and> nul_free t"
  by (auto simp: nul_free_def)

lemma strlen_nul_free: "nul_free s \<Longrightarrow> strlen s = length s"
  unfolding strlen_def nul_free_def by (subst takeWhile_eq_all_conv [THEN iffD2]) auto

lemma nul_free_dec [simp]: "nul_free (dec_string n)"
proof (induction n rule: dec_string.induct)
  case (1 n)
  have digit: "char_of (48 + k) \<noteq> CHR 0x00" if "k < 10" for k :: nat
  proof -
    have "of_char (char_of (48 + k) :: char) = 48 + k" using that by simp
    moreover have "of_char (CHR 0x00) = (0 :: nat)" by simp
    ultimately show ?thesis by (metis add_is_0 zero_neq_numeral)
  qed
  show ?case using 1 digit by (cases "n < 10") (simp_all add: dec_string.simps [of n])
qed

lemma nul_free_fmt [simp]: "nul_free (fmt_d w v)" "nul_free (fmt_0d w v)"
  by (auto simp: fmt_d_def fmt_0d_def pad_left_def int_text_def) (auto simp: nul_free_def)

lemma nul_free_time_text [simp]: "nul_free (time_text t)"
  by (simp add: time_text_def)

lemma length_fmt:
  "0 \<le> v \<Longrightarrow> v < 10 ^ w \<Longrightarrow> 0 < w \<Longrightarrow> length (fmt_0d w v) = w"
  "0 \<le> v \<Longrightarrow> v < 10 ^ w \<Longrightarrow> 0 < w \<Longrightarrow> length (fmt_d w v) = w"
  using dec_length [of "nat v" w] by (simp_all add: fmt_0d_def fmt_d_def int_text_def pad_left_def nat_less_iff)

lemma length_time_text: "tm_ok t \<Longrightarrow> length (time_text t) = 17"
  by (simp add: time_text_def tm_ok_def length_fmt)

lemma out_T_ok:
  assumes "holds_text N s b" "int N < 2 ^ 64" "nul_free str" "len = length str"
  shows "res_ok (out_T str len b) (holds_text N (spec_item N s (L_string str)))"
  using out_item_ok [OF assms(1,2), of "L_string str"] assms(3,4)
  by (simp add: out_T_def strlen_nul_free out_string_def)

lemma formatTime_ok:
  assumes "log_env_ok e" "th_ok e th" "holds_text N s b" "int N < 2 ^ 64"
  shows "res_ok (formatTime (le_gmtime e) (le_zone e) (le_now e) th b) (\<lambda>(th', b'). th_ok e th' \<and>
    holds_text N (foldl (spec_item N) s [L_string (time_text (zone_tm e (le_now e div 1000000))),
      L_string (''.'' @ fmt_0d 6 (le_now e mod 1000000) @ (if le_zone e = None then ''Z '' else '' ''))]) b')"
proof -
  define secs us where "secs = le_now e div 1000000" and "us = le_now e mod 1000000"
  have now: "1000000 \<le> le_now e" and t: "tm_ok (zone_tm e secs)" using assms(1) by (simp_all add: log_env_ok_def secs_def)
  have u: "0 \<le> us" "us < 1000000" by (simp_all add: us_def)
  have "1 \<le> secs" using now unfolding secs_def by (simp add: zdiv_mono1 [of 1000000 _ 1000000, simplified])
  have eq: "le_now e sdiv 1000000 = secs" "cast_int (le_now e smod 1000000) = us"
    using now u by (simp_all add: secs_def us_def sdiv_nonneg smod_nonneg cast_int_id)
  have us6: "length (fmt_0d 6 us) = 6" using u by (intro length_fmt) simp_all
  note tt = length_time_text [OF t]
  have "res_ok (if secs \<noteq> t_lastSecond th
      then assert_res (length (time_text (zone_tm e secs)) = 17)
        (Inr (th\<lparr>t_lastSecond := secs, t_time := take 31 (time_text (zone_tm e secs))\<rparr>))
      else Inr th) (\<lambda>th. th_ok e th \<and> t_time th = time_text (zone_tm e secs))"
    using assms(2) tt \<open>1 \<le> secs\<close> by (auto simp: th_ok_def Let_def)
  then obtain th1 where th1: "th_ok e th1" "t_time th1 = time_text (zone_tm e secs)"
    and r: "(if secs \<noteq> t_lastSecond th
      then assert_res (length (time_text (zone_tm e secs)) = 17)
        (Inr (th\<lparr>t_lastSecond := secs, t_time := take 31 (time_text (zone_tm e secs))\<rparr>))
      else Inr th) = Inr th1" by (auto elim!: res_okE)
  have T: "res_ok (bind_res (out_T (t_time th1) 17 b) (\<lambda>b. bind_res (out_T v (length v) b) (\<lambda>b. Inr (th1, b))))
      (\<lambda>(th', b'). th_ok e th' \<and> holds_text N (foldl (spec_item N) s [L_string (time_text (zone_tm e secs)), L_string v]) b')"
    if "nul_free v" for v
    using that th1 tt by (auto intro!: res_ok_bind [OF out_T_ok [OF _ assms(4)]] assms(3))
  show ?thesis
    unfolding formatTime_def Let_def eq zone_tm_def [symmetric] r
      secs_def [symmetric] us_def [symmetric] bind_res_simps Fmt_def
    using T [of "''.'' @ fmt_0d 6 us @ '' ''"] T [of "''.'' @ fmt_0d 6 us @ ''Z ''"] us6 by (auto simp: numeral_eq_Suc)
qed

lemma cacheTid_ok:
  assumes "log_env_ok e" "th_ok e th"
  shows "th_ok e (cacheTid (le_tid e) th)" "t_tidString (cacheTid (le_tid e) th) = fmt_d 5 (le_tid e) @ '' ''"
    "t_tidStringLength (cacheTid (le_tid e) th) = length (fmt_d 5 (le_tid e) @ '' '')"
proof -
  have "nat \<bar>le_tid e\<bar> < 10 ^ 10" using assms(1) by (simp add: log_env_ok_def nat_less_iff)
  then have "length (fmt_d 5 (le_tid e)) \<le> 10"
    using assms(1) dec_length [of "nat \<bar>le_tid e\<bar>" 10] by (simp add: fmt_d_def pad_left_def int_text_def log_env_ok_def)
  then show "th_ok e (cacheTid (le_tid e) th)" "t_tidString (cacheTid (le_tid e) th) = fmt_d 5 (le_tid e) @ '' ''"
    "t_tidStringLength (cacheTid (le_tid e) th) = length (fmt_d 5 (le_tid e) @ '' '')"
    using assms by (auto simp: th_ok_def cacheTid_def Let_def)
qed

lemma level_name: "nul_free (LogLevelName level)" "length (LogLevelName level) = 6"
  by (cases level; simp add: LogLevelName_def)+

lemma new_Impl_ok:
  assumes "log_env_ok e" "th_ok e th" "holds_text N s b" "int N < 2 ^ 64" "list_all item_ok (head_items e level savedErrno)"
  shows "res_ok (new_Impl e level savedErrno th b) (\<lambda>(th', b'). th_ok e th' \<and>
    holds_text N (foldl (spec_item N) s (head_items e level savedErrno)) b')"
  unfolding new_Impl_def
proof (rule res_ok_bind [OF formatTime_ok [OF assms(1-4)]], clarify)
  fix th1 b1
  let ?th = "cacheTid (le_tid e) th1"
  let ?its = "drop 4 (head_items e level savedErrno)"
  define s1 where "s1 = foldl (spec_item N) s (take 2 (head_items e level savedErrno))"
  assume th1: "th_ok e th1"
    and "holds_text N (foldl (spec_item N) s [L_string (time_text (zone_tm e (le_now e div 1000000))),
      L_string (''.'' @ fmt_0d 6 (le_now e mod 1000000) @ (if le_zone e = None then ''Z '' else '' ''))]) b1"
  then have b1: "holds_text N s1 b1" by (simp add: s1_def head_items_def numeral_2_eq_2)
  define s2 where "s2 = spec_item N (spec_item N s1 (L_string (fmt_d 5 (le_tid e) @ '' ''))) (L_string (LogLevelName level))"
  have its: "(if savedErrno \<noteq> 0
      then run_all out_item b [L_cstr (Some (le_strerror e savedErrno)), L_cstr (Some '' (errno=''), L_integer savedErrno, L_cstr (Some '') '')]
      else Inr b) = run_all out_item b ?its" for b by (simp add: head_items_def)
  have "list_all item_ok ?its" using assms(5) by (auto simp: list_all_iff dest: in_set_dropD)
  note errno = out_items_ok [OF assms(4) this, of s2]
  have "foldl (spec_item N) s (head_items e level savedErrno) = foldl (spec_item N) s2 ?its"
    by (simp add: s1_def s2_def head_items_def numeral_2_eq_2)
  moreover have "res_ok (bind_res (out_T (t_tidString ?th) (t_tidStringLength ?th) b1) (\<lambda>b.
      bind_res (out_T (LogLevelName level) 6 b) (\<lambda>b. bind_res (run_all out_item b ?its) (\<lambda>b. Inr (?th, b)))))
      (\<lambda>(th', b'). th_ok e th' \<and> holds_text N (foldl (spec_item N) s2 ?its) b')"
    using cacheTid_ok [OF assms(1) th1] level_name b1 errno
    by (auto intro!: res_ok_bind [OF out_T_ok [OF _ assms(4)]] res_ok_bind [OF errno] simp: s2_def)
  ultimately show "res_ok (let th = ?th in bind_res (out_T (t_tidString th) (t_tidStringLength th) b1) (\<lambda>b.
      bind_res (out_T (LogLevelName level) 6 b) (\<lambda>b. bind_res (if savedErrno \<noteq> 0
      then run_all out_item b [L_cstr (Some (le_strerror e savedErrno)), L_cstr (Some '' (errno=''), L_integer savedErrno, L_cstr (Some '') '')]
      else Inr b) (\<lambda>b. Inr (th, b)))))
      (\<lambda>(th', b'). th_ok e th' \<and> holds_text N (foldl (spec_item N) s (head_items e level savedErrno)) b')"
    unfolding its Let_def by simp
qed

lemma log_statement_ok:
  assumes "log_env_ok e" "th_ok e th" "length mem = N" "0 < N" "int N < 2 ^ 64" "list_all item_ok (line_items e mac errno file line its)"
    and "macro_enabled logLevel mac"
  shows "res_ok (log_statement e logLevel mac errno file line its mem th) (\<lambda>(out, th'). th_ok e th' \<and>
     length (foldl (spec_item N) [] (line_items e mac errno file line its)) < N \<and>
     out = Some (foldl (spec_item N) [] (line_items e mac errno file line its), macro_level mac = FATAL))"
proof -
  have h: "holds_text N [] (new_FixedBuffer mem)" using assms(3,4) by (simp add: holds_text_def new_FixedBuffer_def)
  have its: "list_all item_ok (head_items e (macro_level mac) (macro_errno mac errno))" "list_all item_ok (macro_func mac)"
    "list_all item_ok its" "list_all item_ok [L_cstr (Some '' - ''), L_string (SourceFile file), L_char (CHR '':''), L_integer line, L_char (CHR 0x0A)]"
    using assms(6) by (simp_all add: line_items_def)
  show ?thesis
    unfolding log_statement_def new_Logger_def delete_Logger_def Impl_finish_def bind_res_assoc line_items_def foldl_append
    using assms(7)
    by (auto intro!: res_ok_bind [OF new_Impl_ok [OF assms(1,2) h assms(5) its(1)]] res_ok_bind [OF out_items_ok [OF assms(5) its(2)]]
        res_ok_bind [OF out_items_ok [OF assms(5) its(3)]] res_ok_bind [OF out_items_ok [OF assms(5) its(4)]]
        simp: bind_res_assoc simp del: foldl_Cons run_all.simps) (blast dest: holds_toString)+
qed

lemma item_need_bound: "item_need it \<le> length (item_text it) + 32"
  by (cases it) auto

lemma spec_items_all:
  "length s + length (concat (map item_text its)) + 32 \<le> N \<Longrightarrow> foldl (spec_item N) s its = s @ concat (map item_text its)"
proof (induction its arbitrary: s)
  case (Cons it its)
  then have "spec_item N s it = s @ item_text it" using item_need_bound [of it] by (simp add: spec_item_def)
  then show ?case using Cons by simp
qed simp

section \<open>Properties\<close>

text \<open>
  C33. An enabled log statement, with any items in the ranges of their types, never stores a byte outside its buffer and fails no
  assertion, whatever the thread has cached. The line is the list of its pieces, written one after the other as far as
  each of them fits: time, thread, level, error, function, the items in order, file and line number. It is always shorter than the buffer; when
  all pieces fit, it is exactly their concatenation and ends with the line break. The cached time and thread number
  stay what they would be if they were computed again. A statement below the level writes nothing.
\<close>

theorem log_line_written:
  assumes "log_env_ok e" "th_ok e th" "length mem = kSmallBuffer" "list_all item_ok (line_items e mac errno file line its)"
  shows "(if macro_enabled logLevel mac
      then \<exists>out th'. log_statement e logLevel mac errno file line its mem th = Inr (Some (out, macro_level mac = FATAL), th') \<and>
        th_ok e th' \<and> out = foldl (spec_item kSmallBuffer) [] (line_items e mac errno file line its) \<and> length out < 4000 \<and>
        (length (concat (map item_text (line_items e mac errno file line its))) \<le> 3968 \<longrightarrow>
          out = concat (map item_text (line_items e mac errno file line its)))
      else log_statement e logLevel mac errno file line its mem th = Inr (None, th))"
proof (cases "macro_enabled logLevel mac")
  case True
  have k: "0 < kSmallBuffer" "int kSmallBuffer < 2 ^ 64" by (simp_all add: kSmallBuffer_def)
  from log_statement_ok [OF assms(1-3) k assms(4) True] spec_items_all [of "[]" "line_items e mac errno file line its" kSmallBuffer]
  show ?thesis using True by (auto elim!: res_okE simp: kSmallBuffer_def)
next
  case False
  then show ?thesis by (simp add: log_statement_def)
qed

definition demo_log_env :: log_env where
  "demo_log_env = \<lparr>le_gmtime = (\<lambda>t. toUtcTime t True), le_zone = None, le_now = 951782400000007, le_tid = 42, le_strerror = (\<lambda>_. ''Connection reset'')\<rparr>"

text \<open>The first log line of 29 February 2000, evaluated in steps.\<close>

lemma demo_time: "toUtcTime 951782400 True = zero_tm\<lparr>tm_zone := ''GMT'', tm_year := 100, tm_mon := 1, tm_mday := 29, tm_wday := 2, tm_yday := 59\<rparr>"
proof -
  have g: "getYearMonthDay 2451604 = \<lparr>ymd_year = 2000, ymd_month = 2, ymd_day = 29\<rparr>" "getJulianDayNumber 2000 1 1 = 2451545" by code_simp+
  have "utc_range 951782400" by (simp add: utc_range_def)
  then show ?thesis using toUtcTime_eq [of 951782400 2451604 0 True] by (simp add: g zero_tm_def)
qed

lemma demo_time_text: "time_text (zone_tm demo_log_env 951782400) = ''20000229 00:00:00''"
  unfolding zone_tm_def demo_log_env_def log_env.simps option.case demo_time by code_simp

lemma demo_items:
  "line_items demo_log_env LOG_SYSERR 104 ''net/Acceptor.cc'' 83 [L_cstr (Some ''fd ''), L_integer (-1)] =
   [L_string ''20000229 00:00:00'', L_string ''.000007Z '', L_string ''   42 '', L_string ''ERROR '', L_cstr (Some ''Connection reset''),
    L_cstr (Some '' (errno=''), L_integer 104, L_cstr (Some '') ''), L_cstr (Some ''fd ''), L_integer (-1), L_cstr (Some '' - ''),
    L_string ''Acceptor.cc'', L_char (CHR '':''), L_integer 83, L_char (CHR 0x0A)]"
proof -
  have "fmt_0d 6 7 = ''000007''" "fmt_d 5 42 = ''   42''" "SourceFile ''net/Acceptor.cc'' = ''Acceptor.cc''" "LogLevelName ERROR = ''ERROR ''"
    by code_simp+
  moreover have "le_now demo_log_env = 951782400000007" "le_zone demo_log_env = None" "le_tid demo_log_env = 42"
    "le_strerror demo_log_env 104 = ''Connection reset''" by (simp_all add: demo_log_env_def)
  ultimately show ?thesis by (simp add: line_items_def head_items_def demo_time_text)
qed

theorem log_line_written_witness:
  "\<exists>out th'. log_statement demo_log_env INFO LOG_SYSERR 104 ''net/Acceptor.cc'' 83 [L_cstr (Some ''fd ''), L_integer (-1)]
      (replicate 4000 (CHR 0x00)) new_log_thread = Inr (Some (out, False), th') \<and>
    out = ''20000229 00:00:00.000007Z    42 ERROR Connection reset (errno=104) fd -1 - Acceptor.cc:83'' @ [CHR 0x0A]"
proof -
  have e: "log_env_ok demo_log_env" using demo_time by (simp add: log_env_ok_def tm_ok_def zone_tm_def demo_log_env_def zero_tm_def)
  have th: "th_ok demo_log_env new_log_thread" by (simp add: th_ok_def new_log_thread_def)
  have ok: "list_all item_ok (line_items demo_log_env LOG_SYSERR 104 ''net/Acceptor.cc'' 83 [L_cstr (Some ''fd ''), L_integer (-1)])"
    by (simp add: demo_items)
  have l: "concat (map item_text (line_items demo_log_env LOG_SYSERR 104 ''net/Acceptor.cc'' 83 [L_cstr (Some ''fd ''), L_integer (-1)])) =
    ''20000229 00:00:00.000007Z    42 ERROR Connection reset (errno=104) fd -1 - Acceptor.cc:83'' @ [CHR 0x0A]"
    unfolding demo_items by code_simp
  have m: "length (replicate 4000 (CHR 0x00)) = kSmallBuffer" by (simp add: kSmallBuffer_def)
  from log_line_written [OF e th m ok, of INFO] show ?thesis
    unfolding l macro_enabled.simps macro_level.simps if_True by (elim exE conjE) simp
qed

text \<open>A line that does not fit loses whole pieces, also the line break at its end: the next line follows on the same one.\<close>

lemma long_line_loses_break:
  "foldl (spec_item 4000) [] [L_string (replicate 3999 (CHR ''x'')), L_string ''more'', L_char (CHR 0x0A)] = replicate 3999 (CHR ''x'')"
  by (simp add: spec_item_def)

end
