(* ===== verification/Mu_Zone.thy ===== *)
theory Mu_Zone
  imports Mu_Date Endian
begin

text \<open>
  Time zones (\<^verbatim>\<open>mucgi/muduo_base/TimeZone.cc\<close>): the reader of the zone files of the time zone database, the search for
  the local time in force, and the conversions to and from local time. A file is the list of its bytes; an
  exception of the reader is \<open>Inl\<close> with its message, a fault is a value of \<open>cxx_fault\<close>. \<open>gmtime_r\<close> and
  \<open>timegm\<close> of the C library are arguments.
\<close>

section \<open>The data of a zone\<close>

record Transition =
  gmttime :: int
  localtime :: int
  localtimeIdx :: nat

definition Comp_less :: "bool \<Rightarrow> Transition \<Rightarrow> Transition \<Rightarrow> bool" where
  "Comp_less compareGmt lhs rhs = (if compareGmt then gmttime lhs < gmttime rhs else localtime lhs < localtime rhs)"

definition Comp_equal :: "bool \<Rightarrow> Transition \<Rightarrow> Transition \<Rightarrow> bool" where
  "Comp_equal compareGmt lhs rhs = (if compareGmt then gmttime lhs = gmttime rhs else localtime lhs = localtime rhs)"

record Localtime =
  gmtOffset :: int
  isDst :: bool
  arrbIdx :: nat

record TimeZone_Data =
  transitions :: "Transition list"
  localtimes :: "Localtime list"
  tz_abbreviation :: string

definition empty_Data :: TimeZone_Data where
  "empty_Data = \<lparr>transitions = [], localtimes = [], tz_abbreviation = []\<rparr>"

section \<open>Reading a zone file\<close>

definition readBytes :: "nat \<Rightarrow> string \<Rightarrow> string + (string \<times> string)" where
  "readBytes n f = (if length f < n then Inl ''no enough data'' else Inr (take n f, drop n f))"

definition file_readInt32 :: "string \<Rightarrow> string + (int \<times> string)" where
  "file_readInt32 f =
     (if length f < 4 then Inl ''bad int32_t data''
      else Inr (sint (bswap 4 (le_load (take 4 f) :: 32 word)), drop 4 f))"

definition readUInt8 :: "string \<Rightarrow> string + (nat \<times> string)" where
  "readUInt8 f = (case f of [] \<Rightarrow> Inl ''bad uint8_t data'' | c # f \<Rightarrow> Inr (of_char c, f))"

fun read_times :: "nat \<Rightarrow> string \<Rightarrow> string + (int list \<times> string)" where
  "read_times 0 f = Inr ([], f)"
| "read_times (Suc n) f = bind_res (file_readInt32 f) (\<lambda>(x, f). bind_res (read_times n f) (\<lambda>(xs, f). Inr (x # xs, f)))"

fun read_indices :: "nat \<Rightarrow> string \<Rightarrow> string + (nat list \<times> string)" where
  "read_indices 0 f = Inr ([], f)"
| "read_indices (Suc n) f = bind_res (readUInt8 f) (\<lambda>(x, f). bind_res (read_indices n f) (\<lambda>(xs, f). Inr (x # xs, f)))"

text \<open>The types are pushed into the data one by one, so those before an exception stay there.\<close>

fun read_types :: "nat \<Rightarrow> string \<Rightarrow> Localtime list \<Rightarrow> Localtime list \<times> (string + string)" where
  "read_types 0 f ls = (ls, Inr f)"
| "read_types (Suc n) f ls =
     (case bind_res (file_readInt32 f) (\<lambda>(gmtoff, f). bind_res (readUInt8 f) (\<lambda>(isdst, f).
           bind_res (readUInt8 f) (\<lambda>(abbrind, f). Inr (\<lparr>gmtOffset = gmtoff, isDst = isdst \<noteq> 0, arrbIdx = abbrind\<rparr>, f)))) of
        Inl e \<Rightarrow> (ls, Inl e)
      | Inr (l, f) \<Rightarrow> read_types n f (ls @ [l]))"

fun add_transitions :: "int list \<Rightarrow> nat list \<Rightarrow> Localtime list \<Rightarrow> Transition list \<Rightarrow> Transition list res" where
  "add_transitions (t # trns) (i # idxs) ls ts =
     (if i < length ls
      then add_transitions trns idxs ls (ts @ [\<lparr>gmttime = t, localtime = t + gmtOffset (ls ! i), localtimeIdx = i\<rparr>])
      else Inl Out_of_bounds)"
| "add_transitions _ _ ls ts = Inr ts"

definition read_front :: "string \<Rightarrow> string + (int list \<times> nat list \<times> int \<times> int \<times> string)" where
  "read_front f =
     bind_res (readBytes 4 f) (\<lambda>(head, f). if head \<noteq> ''TZif'' then Inl ''bad head'' else
     bind_res (readBytes 1 f) (\<lambda>(version, f).
     bind_res (readBytes 15 f) (\<lambda>(_, f).
     bind_res (file_readInt32 f) (\<lambda>(isgmtcnt, f).
     bind_res (file_readInt32 f) (\<lambda>(isstdcnt, f).
     bind_res (file_readInt32 f) (\<lambda>(leapcnt, f).
     bind_res (file_readInt32 f) (\<lambda>(timecnt, f).
     bind_res (file_readInt32 f) (\<lambda>(typecnt, f).
     bind_res (file_readInt32 f) (\<lambda>(charcnt, f). if timecnt < 0 then Inl ''vector::reserve'' else
     bind_res (read_times (nat timecnt) f) (\<lambda>(trns, f).
     bind_res (read_indices (nat timecnt) f) (\<lambda>(idxs, f).
     Inr (trns, idxs, typecnt, charcnt, f))))))))))))"

text \<open>A file that cannot be opened is \<open>None\<close>. The exceptions are caught; the result is always true.\<close>

definition readTimeZoneFile :: "string option \<Rightarrow> TimeZone_Data \<Rightarrow> (bool \<times> TimeZone_Data) res" where
  "readTimeZoneFile zonefile data =
     (case zonefile of None \<Rightarrow> Inr (True, data)
      | Some f \<Rightarrow>
          (case read_front f of Inl e \<Rightarrow> Inr (True, data)
           | Inr (trns, idxs, typecnt, charcnt, f) \<Rightarrow>
               (case read_types (nat typecnt) f (localtimes data) of
                  (ls, Inl e) \<Rightarrow> Inr (True, data\<lparr>localtimes := ls\<rparr>)
                | (ls, Inr f) \<Rightarrow>
                    bind_res (add_transitions trns idxs ls (transitions data)) (\<lambda>ts.
                      let data = data\<lparr>localtimes := ls, transitions := ts\<rparr> in
                      if charcnt < 0 then Inl Out_of_bounds
                      else case readBytes (nat charcnt) f of
                             Inl e \<Rightarrow> Inr (True, data)
                           | Inr (s, f) \<Rightarrow> Inr (True, data\<lparr>tz_abbreviation := s\<rparr>)))))"

type_synonym TimeZone = "TimeZone_Data option"

definition new_TimeZone :: "string option \<Rightarrow> TimeZone res" where
  "new_TimeZone zonefile = bind_res (readTimeZoneFile zonefile empty_Data) (\<lambda>(r, data). Inr (if \<not> r then None else Some data))"

definition new_TimeZone_fixed :: "int \<Rightarrow> string \<Rightarrow> TimeZone" where
  "new_TimeZone_fixed eastOfUtc name =
     Some (empty_Data\<lparr>localtimes := [\<lparr>gmtOffset = eastOfUtc, isDst = False, arrbIdx = 0\<rparr>], tz_abbreviation := name\<rparr>)"

section \<open>Local time\<close>

text \<open>\<open>std::lower_bound\<close>: the first element that is not less than the value, in a sequence that is sorted.\<close>

definition lower_bound :: "('a \<Rightarrow> 'a \<Rightarrow> bool) \<Rightarrow> 'a list \<Rightarrow> 'a \<Rightarrow> nat" where
  "lower_bound lt xs v = length (takeWhile (\<lambda>x. lt x v) xs)"

definition at_localtime :: "TimeZone_Data \<Rightarrow> nat \<Rightarrow> Localtime res" where
  "at_localtime data i = (if i < length (localtimes data) then Inr (localtimes data ! i) else Inl Out_of_bounds)"

definition findLocaltime :: "TimeZone_Data \<Rightarrow> Transition \<Rightarrow> bool \<Rightarrow> Localtime res" where
  "findLocaltime data sentry cmp =
     (if transitions data = [] \<or> Comp_less cmp sentry (hd (transitions data)) then at_localtime data 0
      else let i = lower_bound (Comp_less cmp) (transitions data) sentry in
        if i \<noteq> length (transitions data)
        then if \<not> Comp_equal cmp sentry (transitions data ! i)
             then assert_res (i \<noteq> 0) (at_localtime data (localtimeIdx (transitions data ! (i - 1))))
             else at_localtime data (localtimeIdx (transitions data ! i))
        else at_localtime data (localtimeIdx (last (transitions data))))"

definition toLocalTime :: "(int \<Rightarrow> tm) \<Rightarrow> TimeZone \<Rightarrow> int \<Rightarrow> tm res" where
  "toLocalTime gmtime_r tz seconds =
     (case tz of None \<Rightarrow> Inl Assert_fail
      | Some data \<Rightarrow> bind_res (findLocaltime data \<lparr>gmttime = seconds, localtime = 0, localtimeIdx = 0\<rparr> True) (\<lambda>l.
          if arrbIdx l > length (tz_abbreviation data) then Inl Out_of_bounds
          else Inr ((gmtime_r (seconds + gmtOffset l))\<lparr>tm_isdst := isDst l, tm_gmtoff := gmtOffset l,
            tm_zone := takeWhile (\<lambda>c. c \<noteq> CHR 0x00) (drop (arrbIdx l) (tz_abbreviation data))\<rparr>)))"

definition fromLocalTime :: "(int \<Rightarrow> tm) \<Rightarrow> (tm \<Rightarrow> int) \<Rightarrow> TimeZone \<Rightarrow> tm \<Rightarrow> int res" where
  "fromLocalTime gmtime_r timegm tz localTm =
     (case tz of None \<Rightarrow> Inl Assert_fail
      | Some data \<Rightarrow>
          let seconds = timegm localTm in
          bind_res (findLocaltime data \<lparr>gmttime = 0, localtime = seconds, localtimeIdx = 0\<rparr> False) (\<lambda>l.
          bind_res (if tm_isdst localTm
            then bind_res (toLocalTime gmtime_r tz (seconds - gmtOffset l)) (\<lambda>tryTm.
              Inr (if \<not> tm_isdst tryTm \<and> tm_hour tryTm = tm_hour localTm \<and> tm_min tryTm = tm_min localTm then seconds - 3600 else seconds))
            else Inr seconds) (\<lambda>seconds. Inr (seconds - gmtOffset l))))"

section \<open>Zone files and their data\<close>

definition be32 :: "int \<Rightarrow> string" where
  "be32 x = be_bytes 4 (word_of_int x :: 32 word)"

definition encode_type :: "Localtime \<Rightarrow> string" where
  "encode_type l = be32 (gmtOffset l) @ [char_of (if isDst l then 1 else 0 :: nat), char_of (arrbIdx l)]"

definition encode_zone :: "char \<Rightarrow> TimeZone_Data \<Rightarrow> string" where
  "encode_zone version z =
     ''TZif'' @ [version] @ replicate 15 (CHR 0x00) @ be32 0 @ be32 0 @ be32 0 @ be32 (int (length (transitions z))) @
     be32 (int (length (localtimes z))) @ be32 (int (length (tz_abbreviation z))) @ concat (map (be32 \<circ> gmttime) (transitions z)) @
     map (char_of \<circ> localtimeIdx) (transitions z) @ concat (map encode_type (localtimes z)) @ tz_abbreviation z"

definition int32 :: "int \<Rightarrow> bool" where
  "int32 x \<longleftrightarrow> - (2 ^ 31) \<le> x \<and> x < 2 ^ 31"

definition zone_wf :: "TimeZone_Data \<Rightarrow> bool" where
  "zone_wf z \<longleftrightarrow> length (localtimes z) \<le> 256 \<and> localtimes z \<noteq> [] \<and> length (transitions z) < 2 ^ 31 \<and> length (tz_abbreviation z) < 2 ^ 31 \<and>
     list_all (\<lambda>l. int32 (gmtOffset l) \<and> arrbIdx l < 256 \<and> arrbIdx l \<le> length (tz_abbreviation z)) (localtimes z) \<and>
     list_all (\<lambda>t. int32 (gmttime t) \<and> localtimeIdx t < length (localtimes z) \<and>
       localtime t = gmttime t + gmtOffset (localtimes z ! localtimeIdx t)) (transitions z)"

lemma length_be32 [simp]: "length (be32 x) = 4"
  by (simp add: be32_def)

lemma file_readInt32_be32: "int32 x \<Longrightarrow> file_readInt32 (be32 x @ f) = Inr (x, f)"
proof -
  assume x: "int32 x"
  have "bswap 4 (le_load (be32 x) :: 32 word) = word_of_int x"
    using le_bytes_le_load [where 'a = 32, of "be32 x"] by (simp add: bswap_def be32_def be_bytes_def le_load_le_bytes)
  then show ?thesis using x by (simp add: file_readInt32_def int32_def signed_of_int signed_take_bit_int_eq_self)
qed

lemma readUInt8_char: "n < 256 \<Longrightarrow> readUInt8 (char_of n # f) = Inr (n, f)" for n :: nat
  by (simp add: readUInt8_def)

lemma read_times_ok: "list_all int32 xs \<Longrightarrow> read_times (length xs) (concat (map be32 xs) @ f) = Inr (xs, f)"
  by (induction xs) (simp_all add: file_readInt32_be32)

lemma read_indices_ok: "list_all (\<lambda>n. n < 256) xs \<Longrightarrow> read_indices (length xs) (map char_of xs @ f) = Inr (xs, f)" for xs :: "nat list"
  by (induction xs) (simp_all add: readUInt8_char)

lemma read_types_ok:
  "list_all (\<lambda>l. int32 (gmtOffset l) \<and> arrbIdx l < 256) ls \<Longrightarrow>
   read_types (length ls) (concat (map encode_type ls) @ f) ls0 = (ls0 @ ls, Inr f)"
proof (induction ls arbitrary: ls0)
  case (Cons l ls)
  then show ?case
    by (cases l) (simp add: encode_type_def file_readInt32_be32 readUInt8_char readUInt8_char [of 1, simplified] readUInt8_char [of 0, simplified])
qed simp

lemma add_transitions_ok:
  "list_all (\<lambda>t. localtimeIdx t < length ls \<and> localtime t = gmttime t + gmtOffset (ls ! localtimeIdx t)) ts \<Longrightarrow>
   add_transitions (map gmttime ts) (map localtimeIdx ts) ls ts0 = Inr (ts0 @ ts)"
  by (induction ts arbitrary: ts0) auto

lemma readBytes_append: "length s = n \<Longrightarrow> readBytes n (s @ f) = Inr (s, f)"
  by (simp add: readBytes_def)

lemma read_front_ok:
  assumes "zone_wf z"
  shows "read_front (encode_zone version z @ f) =
    Inr (map gmttime (transitions z), map localtimeIdx (transitions z), int (length (localtimes z)), int (length (tz_abbreviation z)),
      concat (map encode_type (localtimes z)) @ tz_abbreviation z @ f)"
proof -
  let ?ts = "transitions z"
  have n: "int32 0" "int32 (int (length ?ts))" "int32 (int (length (localtimes z)))" "int32 (int (length (tz_abbreviation z)))"
    using assms by (simp_all add: zone_wf_def int32_def)
  have t: "read_times (length ?ts) (concat (map (be32 \<circ> gmttime) ?ts) @ g) = Inr (map gmttime ?ts, g)" for g
    using assms read_times_ok [of "map gmttime ?ts" g] by (simp add: zone_wf_def list_all_iff)
  have i: "read_indices (length ?ts) (map (char_of \<circ> localtimeIdx) ?ts @ g) = Inr (map localtimeIdx ?ts, g)" for g
    using assms read_indices_ok [of "map localtimeIdx ?ts" g] by (fastforce simp: zone_wf_def list_all_iff)
  show ?thesis
    unfolding read_front_def encode_zone_def append_assoc
    by (simp add: readBytes_append [of "''TZif''"] readBytes_append [of "[version]"] readBytes_append [of "replicate 15 (CHR 0x00)"]
        file_readInt32_be32 n t i del: append.simps replicate.simps)
qed

lemma readTimeZoneFile_ok:
  assumes "zone_wf z"
  shows "readTimeZoneFile (Some (encode_zone version z @ f)) empty_Data = Inr (True, z)"
proof -
  have "read_types (length (localtimes z)) (concat (map encode_type (localtimes z)) @ tz_abbreviation z @ f) [] =
      (localtimes z, Inr (tz_abbreviation z @ f))"
    using assms read_types_ok [of "localtimes z" "tz_abbreviation z @ f" "[]"] by (simp add: zone_wf_def list_all_iff)
  moreover have "add_transitions (map gmttime (transitions z)) (map localtimeIdx (transitions z)) (localtimes z) [] = Inr (transitions z)"
    using assms add_transitions_ok [of "localtimes z" "transitions z" "[]"] by (simp add: zone_wf_def list_all_iff)
  ultimately show ?thesis
    using read_front_ok [OF assms] by (cases z) (simp add: readTimeZoneFile_def empty_Data_def readBytes_append)
qed

section \<open>The local time in force\<close>

text \<open>The local time after \<open>k\<close> transitions, and the number of transitions up to a time by a clock \<open>key\<close>.\<close>

definition type_after :: "TimeZone_Data \<Rightarrow> nat \<Rightarrow> Localtime" where
  "type_after z k = (if k = 0 then hd (localtimes z) else localtimes z ! localtimeIdx (transitions z ! (k - 1)))"

abbreviation off :: "TimeZone_Data \<Rightarrow> nat \<Rightarrow> int" where
  "off z k \<equiv> gmtOffset (type_after z k)"

definition passed :: "(Transition \<Rightarrow> int) \<Rightarrow> TimeZone_Data \<Rightarrow> int \<Rightarrow> nat" where
  "passed key z v = length (takeWhile (\<lambda>x. key x \<le> v) (transitions z))"

definition in_order :: "(Transition \<Rightarrow> int) \<Rightarrow> TimeZone_Data \<Rightarrow> bool" where
  "in_order key z \<longleftrightarrow> sorted_wrt (<) (map key (transitions z))"

lemma passed_bound: "passed key z v \<le> length (transitions z)"
  by (simp add: passed_def length_takeWhile_le)

lemma passed_iff:
  assumes "in_order key z" "i < length (transitions z)"
  shows "i < passed key z v \<longleftrightarrow> key (transitions z ! i) \<le> v"
proof
  assume "i < passed key z v"
  then show "key (transitions z ! i) \<le> v" unfolding passed_def
    by (metis (no_types, lifting) nth_mem set_takeWhileD takeWhile_nth)
next
  assume le: "key (transitions z ! i) \<le> v"
  show "i < passed key z v"
  proof (rule ccontr)
    assume "\<not> i < passed key z v"
    then have p: "passed key z v < length (transitions z)" "passed key z v \<le> i" using assms(2) by simp_all
    then have "\<not> key (transitions z ! passed key z v) \<le> v"
      using nth_length_takeWhile [of "\<lambda>x. key x \<le> v" "transitions z"] by (simp add: passed_def)
    moreover have "key (transitions z ! passed key z v) \<le> key (transitions z ! i)"
      using assms p by (cases "passed key z v = i") (auto simp: in_order_def sorted_wrt_iff_nth_less intro!: less_imp_le)
    ultimately show False using le by simp
  qed
qed

lemma passed_eqI:
  assumes "in_order key z" "k \<le> length (transitions z)"
    and "k > 0 \<Longrightarrow> key (transitions z ! (k - 1)) \<le> v" and "k < length (transitions z) \<Longrightarrow> v < key (transitions z ! k)"
  shows "passed key z v = k"
proof (rule antisym)
  show "k \<le> passed key z v"
    using assms passed_iff [OF assms(1), of "k - 1" v] by (cases k) auto
  show "passed key z v \<le> k"
  proof (rule ccontr)
    assume "\<not> passed key z v \<le> k"
    then have "k < passed key z v" by simp
    moreover from this have "k < length (transitions z)" using passed_bound [of key z v] by simp
    ultimately show False using passed_iff [OF assms(1), of k v] assms(4) by simp
  qed
qed

lemma at_type_after:
  "zone_wf z \<Longrightarrow> k \<le> length (transitions z) \<Longrightarrow>
   at_localtime z (if k = 0 then 0 else localtimeIdx (transitions z ! (k - 1))) = Inr (type_after z k)"
  by (auto simp: at_localtime_def type_after_def zone_wf_def hd_conv_nth list_all_length)

text \<open>
  What the search relies on: the comparison object compares by one of the two clocks. With either clock it finds the local
  time after the transitions that have passed by that clock.
\<close>

locale zone_clock =
  fixes cmp :: bool and key :: "Transition \<Rightarrow> int"
  assumes key_less: "Comp_less cmp a b \<longleftrightarrow> key a < key b" and key_equal: "Comp_equal cmp a b \<longleftrightarrow> key a = key b"
begin

lemmas key = key_less key_equal

lemma findLocaltime_ok:
  assumes "zone_wf z" "in_order key z"
  shows "findLocaltime z v cmp = Inr (type_after z (passed key z (key v)))"
proof -
  let ?ts = "transitions z"
  let ?k = "passed key z (key v)" and ?i = "lower_bound (Comp_less cmp) (transitions z) v"
  note at = at_type_after [OF assms(1) passed_bound, of key "key v"]
  have i: "?i \<le> length ?ts" "?i < length ?ts \<Longrightarrow> key v \<le> key (?ts ! ?i)" "0 < ?i \<Longrightarrow> key (?ts ! (?i - 1)) < key v"
  proof -
    show "?i \<le> length ?ts" by (simp add: lower_bound_def length_takeWhile_le)
    show "key v \<le> key (?ts ! ?i)" if "?i < length ?ts"
      using nth_length_takeWhile [OF that [unfolded lower_bound_def]] by (simp add: lower_bound_def key(1))
    assume "0 < ?i"
    then have "?i - 1 < length (takeWhile (\<lambda>x. Comp_less cmp x v) ?ts)" by (simp add: lower_bound_def)
    then show "key (?ts ! (?i - 1)) < key v" using key(1) by (metis (no_types, lifting) nth_mem set_takeWhileD takeWhile_nth)
  qed
  consider (before) "?ts = [] \<or> key v < key (hd ?ts)" | (hit) "?ts \<noteq> []" "\<not> key v < key (hd ?ts)" "?i < length ?ts" "key v = key (?ts ! ?i)"
    | (between) "?ts \<noteq> []" "\<not> key v < key (hd ?ts)" "?i < length ?ts" "key v < key (?ts ! ?i)" | (after) "?ts \<noteq> []" "\<not> key v < key (hd ?ts)" "?i = length ?ts"
    using i(1,2) by linarith
  then show ?thesis
  proof cases
    case before
    then have "?k = 0" by (intro passed_eqI [OF assms(2)]) (auto simp: hd_conv_nth)
    then show ?thesis using before at by (simp add: findLocaltime_def key)
  next
    case hit
    have "?k = Suc ?i"
    proof (rule passed_eqI [OF assms(2)])
      show "key v < key (?ts ! Suc ?i)" if "Suc ?i < length ?ts"
        using that hit(4) assms(2) by (auto simp: in_order_def sorted_wrt_iff_nth_less)
    qed (use hit in auto)
    then show ?thesis using hit at by (simp add: findLocaltime_def key)
  next
    case between
    then have p: "0 < ?i" by (cases "?i = 0") (auto simp: hd_conv_nth)
    then have "?k = ?i" using between i(3) by (intro passed_eqI [OF assms(2)]) auto
    then show ?thesis using between p at by (simp add: findLocaltime_def key)
  next
    case after
    then have "?k = length ?ts" using i(3) by (intro passed_eqI [OF assms(2)]) auto
    then show ?thesis using after at by (simp add: findLocaltime_def key last_conv_nth)
  qed
qed

end

interpretation gmt_clock: zone_clock True gmttime
  by unfold_locales (simp_all add: Comp_less_def Comp_equal_def)

interpretation local_clock: zone_clock False localtime
  by unfold_locales (simp_all add: Comp_less_def Comp_equal_def)

lemma findLocaltime_gmt:
  "zone_wf z \<Longrightarrow> in_order gmttime z \<Longrightarrow>
   findLocaltime z \<lparr>gmttime = t, localtime = 0, localtimeIdx = 0\<rparr> True = Inr (type_after z (passed gmttime z t))"
  using gmt_clock.findLocaltime_ok by simp

lemma findLocaltime_local:
  "zone_wf z \<Longrightarrow> in_order localtime z \<Longrightarrow>
   findLocaltime z \<lparr>gmttime = 0, localtime = t, localtimeIdx = 0\<rparr> False = Inr (type_after z (passed localtime z t))"
  using local_clock.findLocaltime_ok by simp

definition zone_name :: "TimeZone_Data \<Rightarrow> Localtime \<Rightarrow> string" where
  "zone_name z l = takeWhile (\<lambda>c. c \<noteq> CHR 0x00) (drop (arrbIdx l) (tz_abbreviation z))"

definition local_tm :: "(int \<Rightarrow> tm) \<Rightarrow> TimeZone_Data \<Rightarrow> int \<Rightarrow> Localtime \<Rightarrow> tm" where
  "local_tm gm z t l = (gm (t + gmtOffset l))\<lparr>tm_isdst := isDst l, tm_gmtoff := gmtOffset l, tm_zone := zone_name z l\<rparr>"

lemma type_after_wf: "zone_wf z \<Longrightarrow> k \<le> length (transitions z) \<Longrightarrow> type_after z k \<in> set (localtimes z)"
  by (auto simp: type_after_def zone_wf_def list_all_length)

lemma toLocalTime_ok:
  assumes "zone_wf z" "in_order gmttime z"
  shows "toLocalTime gm (Some z) t = Inr (local_tm gm z t (type_after z (passed gmttime z t)))"
  using assms(1) type_after_wf [OF assms(1) passed_bound [of gmttime z t]]
  by (auto simp: toLocalTime_def findLocaltime_gmt [OF assms] local_tm_def zone_name_def zone_wf_def list_all_iff)

text \<open>
  The zones the conversion from local time is made for: when the clock is turned back, it is by one hour at the end of daylight
  saving time, and transitions are far enough apart.
\<close>

definition dst_zone :: "TimeZone_Data \<Rightarrow> bool" where
  "dst_zone z \<longleftrightarrow> zone_wf z \<and> in_order gmttime z \<and> in_order localtime z \<and>
     (\<forall>k < length (transitions z). off z (Suc k) < off z k \<longrightarrow>
        isDst (type_after z k) \<and> \<not> isDst (type_after z (Suc k)) \<and> off z k = off z (Suc k) + 3600) \<and>
     (\<forall>k < length (transitions z) - 1.
        gmttime (transitions z ! k) + max (off z k) (off z (Suc k)) \<le> localtime (transitions z ! Suc k) \<and>
        gmttime (transitions z ! k) + 3600 \<le> gmttime (transitions z ! Suc k))"

lemma localtime_off:
  "zone_wf z \<Longrightarrow> k < length (transitions z) \<Longrightarrow> localtime (transitions z ! k) = gmttime (transitions z ! k) + off z (Suc k)"
  by (auto simp: zone_wf_def type_after_def list_all_length)

text \<open>The local clock is at the same transition, or already at the next one, which turns the clock back.\<close>

lemma passed_local:
  assumes "dst_zone z" and k: "k = passed gmttime z t"
  shows "passed localtime z (t + off z k) = k \<or>
    k < length (transitions z) \<and> passed localtime z (t + off z k) = Suc k \<and> off z (Suc k) < off z k \<and> passed gmttime z (t + 3600) = Suc k"
proof -
  let ?ts = "transitions z"
  have wf: "zone_wf z" and g: "in_order gmttime z" and l: "in_order localtime z" using assms(1) by (simp_all add: dst_zone_def)
  have kb: "k \<le> length ?ts" using passed_bound k by simp
  have ge: "gmttime (?ts ! (k - 1)) \<le> t" if "0 < k" using passed_iff [OF g, of "k - 1" t] kb k that by simp
  have lt: "t < gmttime (?ts ! k)" if "k < length ?ts" using passed_iff [OF g that, of t] k by simp
  have last: "localtime (?ts ! (k - 1)) \<le> t + off z k" if "0 < k" using ge localtime_off [OF wf, of "k - 1"] kb that by simp
  show ?thesis
  proof (cases "k < length ?ts \<and> localtime (?ts ! k) \<le> t + off z k")
    case False
    then have "passed localtime z (t + off z k) = k" using last kb by (intro passed_eqI [OF l]) auto
    then show ?thesis ..
  next
    case True
    then have turned: "off z (Suc k) < off z k" using lt localtime_off [OF wf, of k] by auto
    then have hour: "off z k = off z (Suc k) + 3600" using assms(1) True by (simp add: dst_zone_def)
    have next_k: "gmttime (?ts ! k) + off z k \<le> localtime (?ts ! Suc k)" "gmttime (?ts ! k) + 3600 \<le> gmttime (?ts ! Suc k)" if "Suc k < length ?ts"
      using assms(1) that by (auto simp: dst_zone_def less_diff_conv)
    have "passed localtime z (t + off z k) = Suc k"
      using True lt next_k by (intro passed_eqI [OF l]) fastforce+
    moreover have "passed gmttime z (t + 3600) = Suc k"
      using True lt next_k hour localtime_off [OF wf, of k] by (intro passed_eqI [OF g]) fastforce+
    ultimately show ?thesis using turned True by simp
  qed
qed

lemma fromLocalTime_ok:
  assumes "dst_zone z" and tg: "\<And>d o' n. timegm ((gm (t + off z k))\<lparr>tm_isdst := d, tm_gmtoff := o', tm_zone := n\<rparr>) = t + off z k"
    and k: "k = passed gmttime z t"
  shows "fromLocalTime gm timegm (Some z) (local_tm gm z t (type_after z k)) = Inr t"
proof -
  have wf: "zone_wf z" and g: "in_order gmttime z" and l: "in_order localtime z" using assms(1) by (simp_all add: dst_zone_def)
  have s: "timegm (local_tm gm z t (type_after z k)) = t + off z k" using tg by (simp add: local_tm_def)
  note find = findLocaltime_local [OF wf l, of "t + off z k"]
  note loc = toLocalTime_ok [OF wf g, of gm]
  from passed_local [OF assms(1) k] show ?thesis
  proof
    assume "passed localtime z (t + off z k) = k"
    moreover have "toLocalTime gm (Some z) (t + off z k - off z k) = Inr (local_tm gm z t (type_after z k))"
      using loc [of t] k by simp
    moreover have "tm_isdst (local_tm gm z t (type_after z k)) = isDst (type_after z k)" by (simp add: local_tm_def)
    ultimately show ?thesis by (simp add: fromLocalTime_def s find Let_def)
  next
    assume b: "k < length (transitions z) \<and> passed localtime z (t + off z k) = Suc k \<and> off z (Suc k) < off z k \<and> passed gmttime z (t + 3600) = Suc k"
    then have d: "isDst (type_after z k)" "\<not> isDst (type_after z (Suc k))" "off z k = off z (Suc k) + 3600"
      using assms(1) by (auto simp: dst_zone_def)
    have "toLocalTime gm (Some z) (t + off z k - off z (Suc k)) = Inr (local_tm gm z (t + 3600) (type_after z (Suc k)))"
      using loc [of "t + 3600"] b d(3) by simp
    moreover have "tm_hour (local_tm gm z (t + 3600) (type_after z (Suc k))) = tm_hour (local_tm gm z t (type_after z k))"
      "tm_min (local_tm gm z (t + 3600) (type_after z (Suc k))) = tm_min (local_tm gm z t (type_after z k))"
      using d(3) by (simp_all add: local_tm_def ac_simps)
    moreover have "tm_isdst (local_tm gm z t (type_after z k))" "\<not> tm_isdst (local_tm gm z (t + 3600) (type_after z (Suc k)))"
      using d by (simp_all add: local_tm_def)
    moreover have f: "findLocaltime z \<lparr>gmttime = 0, localtime = t + off z k, localtimeIdx = 0\<rparr> False = Inr (type_after z (Suc k))"
      using find b by simp
    ultimately show ?thesis using d(3) unfolding fromLocalTime_def option.case Let_def s f bind_res_simps by simp
  qed
qed

section \<open>Properties\<close>


definition demo_zone :: TimeZone_Data where
  "demo_zone = \<lparr>transitions = [\<lparr>gmttime = 1459040400, localtime = 1459047600, localtimeIdx = 1\<rparr>, \<lparr>gmttime = 1477789200, localtime = 1477792800, localtimeIdx = 0\<rparr>],
     localtimes = [\<lparr>gmtOffset = 3600, isDst = False, arrbIdx = 0\<rparr>, \<lparr>gmtOffset = 7200, isDst = True, arrbIdx = 4\<rparr>],
     tz_abbreviation = ''CET'' @ [CHR 0x00] @ ''CEST'' @ [CHR 0x00]\<rparr>"


text \<open>A file that is missing or damaged gives a zone without local times all the same, and its first use reads past the end of the vector.\<close>

lemma missing_zone_file_faults:
  "\<exists>tz. new_TimeZone None = Inr tz \<and> tz \<noteq> None \<and> toLocalTime gm tz t = Inl Out_of_bounds"
  by (simp add: new_TimeZone_def readTimeZoneFile_def empty_Data_def toLocalTime_def findLocaltime_def at_localtime_def)

end
