(* ===== verification/Mu_Pool.thy ===== *)
theory Mu_Pool
  imports Prelude
begin

text \<open>
  The threads of mucgi's server: the start of a loop in a thread of its own (\<^verbatim>\<open>mucgi/muduo_net/EventLoopThread.cc\<close>) as
  interleaved steps of the two threads around the mutex and the condition variable, and the pool that hands the loops
  out (\<^verbatim>\<open>EventLoopThreadPool.cc\<close>). Loops are addresses.
\<close>

section \<open>Starting a loop in a thread\<close>

text \<open>
  The places of \<open>startLoop\<close> after \<open>thread_.start()\<close>: before the lock, with the lock at the test of the loop,
  in \<open>cond_.wait()\<close> without the lock, woken and waiting for the lock, past the lock, and returned with a value.
\<close>

datatype starter = S_lock | S_check | S_wait | S_relock | S_unlocked | S_done "nat option"

text \<open>The places of \<open>threadFunc\<close>: before and in the callback, before the lock, with the lock, in the loop, past it.\<close>

datatype runner = T_callback | T_lock | T_set | T_loop | T_end

datatype owner = Free | By_starter | By_runner

record EventLoopThread =
  lt_loop :: "nat option"
  mutex :: owner
  s_pc :: starter
  t_pc :: runner

definition new_EventLoopThread :: EventLoopThread where
  "new_EventLoopThread = \<lparr>lt_loop = None, mutex = Free, s_pc = S_lock, t_pc = T_callback\<rparr>"

fun startLoop_step :: "EventLoopThread \<Rightarrow> EventLoopThread option" where
  "startLoop_step st =
     (case s_pc st of
        S_lock \<Rightarrow> if mutex st = Free then Some (st\<lparr>mutex := By_starter, s_pc := S_check\<rparr>) else None
      | S_check \<Rightarrow> if lt_loop st = None then Some (st\<lparr>mutex := Free, s_pc := S_wait\<rparr>) else Some (st\<lparr>mutex := Free, s_pc := S_unlocked\<rparr>)
      | S_wait \<Rightarrow> None
      | S_relock \<Rightarrow> if mutex st = Free then Some (st\<lparr>mutex := By_starter, s_pc := S_check\<rparr>) else None
      | S_unlocked \<Rightarrow> Some (st\<lparr>s_pc := S_done (lt_loop st)\<rparr>)
      | S_done _ \<Rightarrow> None)"

definition cond_notify :: "EventLoopThread \<Rightarrow> EventLoopThread" where
  "cond_notify st = (if s_pc st = S_wait then st\<lparr>s_pc := S_relock\<rparr> else st)"

fun threadFunc_step :: "nat \<Rightarrow> EventLoopThread \<Rightarrow> EventLoopThread option" where
  "threadFunc_step l st =
     (case t_pc st of
        T_callback \<Rightarrow> Some (st\<lparr>t_pc := T_lock\<rparr>)
      | T_lock \<Rightarrow> if mutex st = Free then Some (st\<lparr>mutex := By_runner, t_pc := T_set\<rparr>) else None
      | T_set \<Rightarrow> Some ((cond_notify (st\<lparr>lt_loop := Some l\<rparr>))\<lparr>mutex := Free, t_pc := T_loop\<rparr>)
      | T_loop \<Rightarrow> None
      | T_end \<Rightarrow> None)"

text \<open>
  The steps of the two threads, a spurious return of \<open>cond_.wait()\<close>, and the end of the loop when somebody has
  asked it to quit.
\<close>

inductive thread_step :: "nat \<Rightarrow> bool \<Rightarrow> EventLoopThread \<Rightarrow> EventLoopThread \<Rightarrow> bool" for l quit where
  start: "startLoop_step st = Some st' \<Longrightarrow> thread_step l quit st st'"
| run: "threadFunc_step l st = Some st' \<Longrightarrow> thread_step l quit st st'"
| spurious: "s_pc st = S_wait \<Longrightarrow> thread_step l quit st (st\<lparr>s_pc := S_relock\<rparr>)"
| loop_ends: "quit \<Longrightarrow> t_pc st = T_loop \<Longrightarrow> thread_step l quit st (st\<lparr>t_pc := T_end, lt_loop := None\<rparr>)"

section \<open>The pool\<close>

record EventLoopThreadPool =
  base_loop :: nat
  pool_started :: bool
  num_threads :: int
  pool_next :: nat
  pool_loops :: "nat list"
  inits :: "nat list"

definition new_EventLoopThreadPool :: "nat \<Rightarrow> EventLoopThreadPool" where
  "new_EventLoopThreadPool baseLoop =
     \<lparr>base_loop = baseLoop, pool_started = False, num_threads = 0, pool_next = 0, pool_loops = [], inits = []\<rparr>"

definition setThreadNum :: "int \<Rightarrow> EventLoopThreadPool \<Rightarrow> EventLoopThreadPool res" where
  "setThreadNum numThreads p = assert_res (0 \<le> numThreads) (Inr (p\<lparr>num_threads := numThreads\<rparr>))"

text \<open>\<open>thread_loop i\<close> is the loop of the thread with number \<open>i\<close>; \<open>cb\<close> tells whether there is a callback.\<close>

definition pool_start :: "(nat \<Rightarrow> nat) \<Rightarrow> bool \<Rightarrow> bool \<Rightarrow> EventLoopThreadPool \<Rightarrow> EventLoopThreadPool res" where
  "pool_start thread_loop cb inLoopThread p =
     assert_res (\<not> pool_started p) (if \<not> inLoopThread then Inl Abort else
       let p = p\<lparr>pool_started := True\<rparr>;
           p = foldl (\<lambda>p i. p\<lparr>pool_loops := pool_loops p @ [thread_loop i], inits := (if cb then inits p @ [thread_loop i] else inits p)\<rparr>)
                 p [0 ..< nat (num_threads p)]
       in Inr (if num_threads p = 0 \<and> cb then p\<lparr>inits := inits p @ [base_loop p]\<rparr> else p))"

definition getNextLoop :: "bool \<Rightarrow> EventLoopThreadPool \<Rightarrow> (nat \<times> EventLoopThreadPool) res" where
  "getNextLoop inLoopThread p =
     (if \<not> inLoopThread then Inl Abort else assert_res (pool_started p)
       (if pool_loops p \<noteq> []
        then if pool_next p < length (pool_loops p)
             then Inr (pool_loops p ! pool_next p, p\<lparr>pool_next := (if pool_next p + 1 \<ge> length (pool_loops p) then 0 else pool_next p + 1)\<rparr>)
             else Inl Out_of_bounds
        else Inr (base_loop p, p)))"

definition getLoopForHash :: "bool \<Rightarrow> nat \<Rightarrow> EventLoopThreadPool \<Rightarrow> nat res" where
  "getLoopForHash inLoopThread hashCode p =
     (if \<not> inLoopThread then Inl Abort
      else if pool_loops p \<noteq> [] then Inr (pool_loops p ! (hashCode mod length (pool_loops p))) else Inr (base_loop p))"

definition getAllLoops :: "bool \<Rightarrow> EventLoopThreadPool \<Rightarrow> nat list res" where
  "getAllLoops inLoopThread p =
     (if \<not> inLoopThread then Inl Abort
      else assert_res (pool_started p) (Inr (if pool_loops p = [] then [base_loop p] else pool_loops p)))"

fun next_loops :: "nat \<Rightarrow> EventLoopThreadPool \<Rightarrow> (nat list \<times> EventLoopThreadPool) res" where
  "next_loops 0 p = Inr ([], p)"
| "next_loops (Suc k) p = bind_res (getNextLoop True p) (\<lambda>(l, p). bind_res (next_loops k p) (\<lambda>(ls, p). Inr (l # ls, p)))"

section \<open>The hand-over of the loop\<close>

definition hand_inv :: "nat \<Rightarrow> EventLoopThread \<Rightarrow> bool" where
  "hand_inv l st \<longleftrightarrow>
     (mutex st = By_starter \<longleftrightarrow> s_pc st = S_check) \<and> (mutex st = By_runner \<longleftrightarrow> t_pc st = T_set) \<and>
     lt_loop st = (if t_pc st = T_loop then Some l else None) \<and> t_pc st \<noteq> T_end \<and>
     (s_pc st = S_wait \<longrightarrow> t_pc st \<noteq> T_loop) \<and> (s_pc st = S_unlocked \<longrightarrow> t_pc st = T_loop) \<and>
     (\<forall>r. s_pc st = S_done r \<longrightarrow> r = Some l)"

text \<open>How far the two threads still have to go; only a spurious wake-up goes back.\<close>

definition starter_left :: "starter \<Rightarrow> bool \<Rightarrow> nat" where
  "starter_left pc there =
     (case pc of S_lock \<Rightarrow> 6 | S_check \<Rightarrow> if there then 2 else 5 | S_wait \<Rightarrow> 4 | S_relock \<Rightarrow> if there then 3 else 6
      | S_unlocked \<Rightarrow> 1 | S_done _ \<Rightarrow> 0)"

fun runner_left :: "runner \<Rightarrow> nat" where
  "runner_left T_callback = 3"
| "runner_left T_lock = 2"
| "runner_left T_set = 1"
| "runner_left _ = 0"

definition left_to_do :: "EventLoopThread \<Rightarrow> nat" where
  "left_to_do st = runner_left (t_pc st) + starter_left (s_pc st) (lt_loop st \<noteq> None)"

text \<open>\<open>n\<close> steps of the two threads with \<open>k\<close> spurious wake-ups among them.\<close>

inductive thread_run :: "nat \<Rightarrow> nat \<Rightarrow> nat \<Rightarrow> EventLoopThread \<Rightarrow> EventLoopThread \<Rightarrow> bool" for l where
  none: "thread_run l 0 0 st st"
| starter: "thread_run l n k st st1 \<Longrightarrow> startLoop_step st1 = Some st2 \<Longrightarrow> thread_run l (Suc n) k st st2"
| runner: "thread_run l n k st st1 \<Longrightarrow> threadFunc_step l st1 = Some st2 \<Longrightarrow> thread_run l (Suc n) k st st2"
| wake: "thread_run l n k st st1 \<Longrightarrow> s_pc st1 = S_wait \<Longrightarrow> thread_run l n (Suc k) st (st1\<lparr>s_pc := S_relock\<rparr>)"

lemma hand_inv_new: "hand_inv l new_EventLoopThread"
  by (simp add: hand_inv_def new_EventLoopThread_def)

lemma startLoop_step_ok:
  "hand_inv l st \<Longrightarrow> startLoop_step st = Some st' \<Longrightarrow> hand_inv l st' \<and> left_to_do st' < left_to_do st"
  by (cases "s_pc st") (auto simp: hand_inv_def left_to_do_def starter_left_def split: if_splits)

lemma threadFunc_step_ok:
  "hand_inv l st \<Longrightarrow> threadFunc_step l st = Some st' \<Longrightarrow> hand_inv l st' \<and> left_to_do st' < left_to_do st"
  by (cases "t_pc st"; cases "s_pc st") (auto simp: hand_inv_def left_to_do_def starter_left_def cond_notify_def split: if_splits)

lemma spurious_ok:
  "hand_inv l st \<Longrightarrow> s_pc st = S_wait \<Longrightarrow> hand_inv l (st\<lparr>s_pc := S_relock\<rparr>) \<and> left_to_do (st\<lparr>s_pc := S_relock\<rparr>) = left_to_do st + 2"
  by (auto simp: hand_inv_def left_to_do_def starter_left_def)

lemma thread_run_ok:
  assumes "thread_run l n k st st'" "hand_inv l st"
  shows "hand_inv l st' \<and> left_to_do st' + n \<le> left_to_do st + 2 * k"
  using assms
proof (induction rule: thread_run.induct)
  case (starter n k st st1 st2)
  then show ?case using startLoop_step_ok [of l st1 st2] by auto
next
  case (runner n k st st1 st2)
  then show ?case using threadFunc_step_ok [of l st1 st2] by auto
next
  case (wake n k st st1)
  then show ?case using spurious_ok [of l st1] by auto
qed simp

lemma not_stuck:
  assumes "hand_inv l st"
  shows "s_pc st = S_done (Some l) \<or> startLoop_step st \<noteq> None \<or> threadFunc_step l st \<noteq> None"
  using assms by (cases "mutex st") (auto simp: hand_inv_def split: starter.splits runner.splits)

section \<open>The pool hands out its loops in turn\<close>

definition pool_ok :: "EventLoopThreadPool \<Rightarrow> bool" where
  "pool_ok p \<longleftrightarrow> pool_started p \<and> (pool_loops p \<noteq> [] \<longrightarrow> pool_next p < length (pool_loops p))"

definition pool_cycle :: "EventLoopThreadPool \<Rightarrow> nat \<Rightarrow> nat" where
  "pool_cycle p i = (if pool_loops p = [] then base_loop p else pool_loops p ! ((pool_next p + i) mod length (pool_loops p)))"

lemma getNextLoop_ok:
  assumes "pool_ok p"
  shows "\<exists>p'. getNextLoop True p = Inr (pool_cycle p 0, p') \<and> pool_ok p' \<and> pool_loops p' = pool_loops p \<and> base_loop p' = base_loop p \<and>
    (\<forall>i. pool_cycle p' i = pool_cycle p (Suc i))"
proof (cases "pool_next p + 1 \<ge> length (pool_loops p)")
  case True
  then have "pool_loops p = [] \<or> length (pool_loops p) = pool_next p + 1" using assms by (auto simp: pool_ok_def)
  moreover have "Suc (pool_next p + i) mod Suc (pool_next p) = i mod Suc (pool_next p)" for i
    using mod_add_self1 [of "Suc (pool_next p)" i] by simp
  ultimately show ?thesis using assms by (auto simp: getNextLoop_def pool_cycle_def pool_ok_def)
next
  case False
  then show ?thesis using assms by (auto simp: getNextLoop_def pool_cycle_def pool_ok_def)
qed

lemma next_loops_ok:
  "pool_ok p \<Longrightarrow> \<exists>p'. next_loops k p = Inr (map (pool_cycle p) [0 ..< k], p') \<and> pool_ok p'"
proof (induction k arbitrary: p)
  case (Suc k)
  from getNextLoop_ok [OF Suc.prems] obtain p1 where p1: "getNextLoop True p = Inr (pool_cycle p 0, p1)" "pool_ok p1"
    "\<forall>i. pool_cycle p1 i = pool_cycle p (Suc i)" by blast
  have "map (pool_cycle p) [0 ..< Suc k] = pool_cycle p 0 # map (pool_cycle p1) [0 ..< k]"
    using p1(3) by (simp add: map_upt_Suc del: upt_Suc)
  then show ?case using p1 Suc.IH [OF p1(2)] by auto
qed simp

lemma foldl_loops:
  "pool_loops (foldl (\<lambda>p i. p\<lparr>pool_loops := pool_loops p @ [f i], inits := g p i\<rparr>) p is) = pool_loops p @ map f is"
  "pool_next (foldl (\<lambda>p i. p\<lparr>pool_loops := pool_loops p @ [f i], inits := g p i\<rparr>) p is) = pool_next p"
  "base_loop (foldl (\<lambda>p i. p\<lparr>pool_loops := pool_loops p @ [f i], inits := g p i\<rparr>) p is) = base_loop p"
  "num_threads (foldl (\<lambda>p i. p\<lparr>pool_loops := pool_loops p @ [f i], inits := g p i\<rparr>) p is) = num_threads p"
  "pool_started (foldl (\<lambda>p i. p\<lparr>pool_loops := pool_loops p @ [f i], inits := g p i\<rparr>) p is) = pool_started p"
  by (induction "is" arbitrary: p) simp_all

lemma pool_start_ok:
  assumes "0 \<le> n"
  shows "\<exists>p. bind_res (setThreadNum n (new_EventLoopThreadPool base)) (pool_start thread_loop cb True) = Inr p \<and> pool_ok p \<and>
    pool_loops p = map thread_loop [0 ..< nat n] \<and> base_loop p = base \<and> pool_next p = 0"
  using assms by (auto simp: setThreadNum_def new_EventLoopThreadPool_def pool_start_def Let_def foldl_loops pool_ok_def)

text \<open>Among \<open>k\<close> numbers in a row every remainder occurs equally often, up to one.\<close>

lemma count_mod:
  assumes "j < n"
  shows "length (filter (\<lambda>i. i mod n = j) [0 ..< k]) = k div n + (if j < k mod n then 1 else 0)"
proof (induction k)
  case (Suc k)
  show ?case
  proof (cases "Suc (k mod n) = n")
    case True
    then have "Suc k mod n = 0" "Suc k div n = Suc (k div n)" by (simp_all add: mod_Suc div_Suc)
    then show ?thesis using Suc assms True by auto
  next
    case False
    then have "Suc k mod n = Suc (k mod n)" "Suc k div n = k div n" by (simp_all add: mod_Suc div_Suc)
    then show ?thesis using Suc assms by auto
  qed
qed (use assms in simp)

section \<open>Properties\<close>



text \<open>
  C32. The pool hands out its loops in turn: after \<open>setThreadNum\<close> and \<open>start\<close> the \<open>i\<close>-th connection gets the loop of thread
  \<open>i mod n\<close>, or the loop of the server when there are no threads; no access is out of range, and of \<open>k\<close> connections
  every thread serves \<open>k div n\<close> or one more.
\<close>

theorem pool_round_robin:
  assumes "0 \<le> n"
  shows "\<exists>p ls p'. bind_res (setThreadNum n (new_EventLoopThreadPool base)) (pool_start thread_loop cb True) = Inr p \<and>
    next_loops k p = Inr (ls, p') \<and>
    ls = map (\<lambda>i. if n = 0 then base else thread_loop (i mod nat n)) [0 ..< k] \<and>
    (\<forall>j < nat n. inj thread_loop \<longrightarrow> count_list ls (thread_loop j) = k div nat n + (if j < k mod nat n then 1 else 0))"
proof -
  from pool_start_ok [OF assms, of base thread_loop cb] obtain p where
    p: "bind_res (setThreadNum n (new_EventLoopThreadPool base)) (pool_start thread_loop cb True) = Inr p" "pool_ok p"
    "pool_loops p = map thread_loop [0 ..< nat n]" "base_loop p = base" "pool_next p = 0" by blast
  from next_loops_ok [OF p(2), of k] obtain p' where p': "next_loops k p = Inr (map (pool_cycle p) [0 ..< k], p')" by blast
  have ls: "map (pool_cycle p) [0 ..< k] = map (\<lambda>i. if n = 0 then base else thread_loop (i mod nat n)) [0 ..< k]"
    using assms p(3-5) by (auto simp: pool_cycle_def)
  have "count_list (map (pool_cycle p) [0 ..< k]) (thread_loop j) = k div nat n + (if j < k mod nat n then 1 else 0)"
    if "j < nat n" "inj thread_loop" for j
  proof -
    have "n \<noteq> 0" using that(1) by simp
    then show ?thesis
      using that unfolding ls by (simp add: count_list_eq_length_filter filter_map comp_def inj_eq eq_commute [of "thread_loop j"] count_mod)
  qed
  with p(1) p' ls show ?thesis by blast
qed

theorem pool_round_robin_witness:
  "\<exists>p ls p'. bind_res (setThreadNum 3 (new_EventLoopThreadPool 100)) (pool_start Suc False True) = Inr p \<and>
     next_loops 4 p = Inr (ls, p') \<and> ls = [1, 2, 3, 1] \<and> count_list ls 1 = 2"
proof -
  have u: "[0 ..< 4] = [0, 1, 2, 3 :: nat]" by code_simp
  from pool_round_robin [of 3 100 Suc False 4] show ?thesis by (auto simp: u)
qed

text \<open>
  \<open>startLoop\<close> reads the loop once more after it has left the lock: if the loop has ended by then, because a functor queued by the
  callback of the thread asked for it, the result is a null pointer.
\<close>

lemma startLoop_null_after_quit:
  assumes "s_pc st = S_unlocked" "t_pc st = T_loop"
  shows "\<exists>st1 st2. thread_step l True st st1 \<and> thread_step l True st1 st2 \<and> s_pc st2 = S_done None"
proof -
  have "thread_step l True st (st\<lparr>t_pc := T_end, lt_loop := None\<rparr>)" using assms(2) by (intro thread_step.loop_ends) simp_all
  moreover have "thread_step l True (st\<lparr>t_pc := T_end, lt_loop := None\<rparr>) (st\<lparr>t_pc := T_end, lt_loop := None, s_pc := S_done None\<rparr>)"
    using assms(1) by (intro thread_step.start) simp
  ultimately show ?thesis by fastforce
qed

end
