(* ===== verification/Co_List.thy ===== *)
theory Co_List
  imports Prelude
begin

text \<open>
  The intrusive doubly linked lists of libco (the templates at the head of
  \<^verbatim>\<open>cocgi/libco/co_routine.cpp\<close>): nodes that carry their own links and a pointer to the
  list they are in, on an explicit heap. A node and a list header are numbers; a null pointer is
  \<^term>\<open>None\<close>. The specification is a family of lists, and each template implements the
  obvious operation on it.
\<close>

section \<open>The heap\<close>

record lheap =
  pNext :: "nat \<Rightarrow> nat option"
  pPrev :: "nat \<Rightarrow> nat option"
  pLink :: "nat \<Rightarrow> nat option"
  l_head :: "nat \<Rightarrow> nat option"
  l_tail :: "nat \<Rightarrow> nat option"

definition set_next :: "nat \<Rightarrow> nat option \<Rightarrow> lheap \<Rightarrow> lheap" where
  "set_next x v h = h\<lparr>pNext := (pNext h)(x := v)\<rparr>"

definition set_prev :: "nat \<Rightarrow> nat option \<Rightarrow> lheap \<Rightarrow> lheap" where
  "set_prev x v h = h\<lparr>pPrev := (pPrev h)(x := v)\<rparr>"

definition set_link :: "nat \<Rightarrow> nat option \<Rightarrow> lheap \<Rightarrow> lheap" where
  "set_link x v h = h\<lparr>pLink := (pLink h)(x := v)\<rparr>"

definition set_head :: "nat \<Rightarrow> nat option \<Rightarrow> lheap \<Rightarrow> lheap" where
  "set_head l v h = h\<lparr>l_head := (l_head h)(l := v)\<rparr>"

definition set_tail :: "nat \<Rightarrow> nat option \<Rightarrow> lheap \<Rightarrow> lheap" where
  "set_tail l v h = h\<lparr>l_tail := (l_tail h)(l := v)\<rparr>"

lemmas set_defs = set_next_def set_prev_def set_link_def set_head_def set_tail_def

definition empty_lheap :: lheap where
  "empty_lheap =
     \<lparr>pNext = Map.empty, pPrev = Map.empty, pLink = Map.empty, l_head = Map.empty, l_tail = Map.empty\<rparr>"

section \<open>The templates\<close>

definition RemoveFromLink :: "nat \<Rightarrow> lheap \<Rightarrow> lheap res" where
  "RemoveFromLink ap h0 =
     (case pLink h0 ap of
        None \<Rightarrow> Inr h0
      | Some lst \<Rightarrow>
          assert_res (l_head h0 lst \<noteq> None \<and> l_tail h0 lst \<noteq> None)
           (let h1 =
              (if l_head h0 lst = Some ap then
                 let h = set_head lst (pNext h0 ap) h0
                 in case l_head h lst of None \<Rightarrow> h | Some n \<Rightarrow> set_prev n None h
               else case pPrev h0 ap of None \<Rightarrow> h0 | Some p \<Rightarrow> set_next p (pNext h0 ap) h0)
            in bind_res
              (if l_tail h1 lst = Some ap then
                 let h = set_tail lst (pPrev h1 ap) h1
                 in Inr (case l_tail h lst of None \<Rightarrow> h | Some p \<Rightarrow> set_next p None h)
               else case pNext h1 ap of
                      None \<Rightarrow> Inl Null_deref
                    | Some n \<Rightarrow> Inr (set_prev n (pPrev h1 ap) h1))
              (\<lambda>h2. Inr (set_link ap None (set_prev ap None (set_next ap None h2))))))"

definition AddTail :: "nat \<Rightarrow> nat \<Rightarrow> lheap \<Rightarrow> lheap" where
  "AddTail apLink ap h =
     (if pLink h ap \<noteq> None then h
      else set_link ap (Some apLink)
        (case l_tail h apLink of
           Some t \<Rightarrow> set_tail apLink (Some ap) (set_prev ap (Some t) (set_next ap None (set_next t (Some ap) h)))
         | None \<Rightarrow> set_prev ap None (set_next ap None
                     (set_head apLink (Some ap) (set_tail apLink (Some ap) h)))))"

definition PopHead :: "nat \<Rightarrow> lheap \<Rightarrow> lheap" where
  "PopHead apLink h =
     (case l_head h apLink of
        None \<Rightarrow> h
      | Some lp \<Rightarrow>
          (let h1 = (if l_head h apLink = l_tail h apLink
                     then set_head apLink None (set_tail apLink None h)
                     else set_head apLink (pNext h lp) h);
               h2 = set_link lp None (set_next lp None (set_prev lp None h1))
           in case l_head h2 apLink of None \<Rightarrow> h2 | Some n \<Rightarrow> set_prev n None h2))"

text \<open>The loop of \<open>Join\<close> over the nodes; on a cyclic chain it does not return.\<close>

partial_function (option) relink :: "nat \<Rightarrow> nat option \<Rightarrow> lheap \<Rightarrow> lheap option" where
  [code]: "relink apLink cur h =
     (case cur of None \<Rightarrow> Some h | Some lp \<Rightarrow> relink apLink (pNext h lp) (set_link lp (Some apLink) h))"

definition Join :: "nat \<Rightarrow> nat \<Rightarrow> lheap \<Rightarrow> lheap res" where
  "Join apLink apOther h0 =
     (case l_head h0 apOther of
        None \<Rightarrow> Inr h0
      | Some lp \<Rightarrow>
          (case relink apLink (Some lp) h0 of
             None \<Rightarrow> Inl No_return
           | Some h \<Rightarrow>
               let h1 = (case l_tail h apLink of
                           Some t \<Rightarrow> set_tail apLink (l_tail h apOther) (set_prev lp (Some t) (set_next t (Some lp) h))
                         | None \<Rightarrow> set_tail apLink (l_tail h apOther) (set_head apLink (l_head h apOther) h))
               in Inr (set_head apOther None (set_tail apOther None h1))))"

section \<open>Lists on the heap\<close>

definition hd_opt :: "'a list \<Rightarrow> 'a option" where
  "hd_opt xs = (case xs of [] \<Rightarrow> None | x # _ \<Rightarrow> Some x)"

definition last_opt :: "'a list \<Rightarrow> 'a option" where
  "last_opt xs = (if xs = [] then None else Some (last xs))"

lemma hd_opt_simps [simp]: "hd_opt [] = None" "hd_opt (x # xs) = Some x"
  by (simp_all add: hd_opt_def)

lemma last_opt_simps [simp]: "last_opt [] = None" "last_opt (xs @ [x]) = Some x"
  by (simp_all add: last_opt_def)

lemma hd_opt_None [simp]: "hd_opt xs = None \<longleftrightarrow> xs = []"
  by (cases xs) simp_all

lemma last_opt_None [simp]: "last_opt xs = None \<longleftrightarrow> xs = []"
  by (simp add: last_opt_def)

text \<open>\<open>seg h p xs n\<close>: the nodes \<open>xs\<close> are linked in order, with \<open>p\<close> before and \<open>n\<close> after.\<close>

fun seg :: "lheap \<Rightarrow> nat option \<Rightarrow> nat list \<Rightarrow> nat option \<Rightarrow> bool" where
  "seg h p [] n = True"
| "seg h p (x # xs) n \<longleftrightarrow>
     pPrev h x = p \<and> pNext h x = (if xs = [] then n else hd_opt xs) \<and> seg h (Some x) xs n"

lemma seg_append:
  "seg h p (xs @ ys) n \<longleftrightarrow>
     seg h p xs (if ys = [] then n else hd_opt ys) \<and> seg h (if xs = [] then p else last_opt xs) ys n"
  by (induction xs arbitrary: p) (auto simp: last_opt_def hd_opt_def split: list.splits)

lemma seg_cong:
  assumes "\<And>x. x \<in> set xs \<Longrightarrow> pPrev h' x = pPrev h x \<and> pNext h' x = pNext h x"
  shows "seg h' p xs n = seg h p xs n"
  using assms by (induction xs arbitrary: p) auto

definition links_ok :: "(nat \<Rightarrow> nat list) \<Rightarrow> lheap \<Rightarrow> bool" where
  "links_ok L h \<longleftrightarrow>
     (\<forall>l. distinct (L l) \<and> seg h None (L l) None \<and> l_head h l = hd_opt (L l) \<and> l_tail h l = last_opt (L l)) \<and>
     (\<forall>x l. pLink h x = Some l \<longleftrightarrow> x \<in> set (L l))"

lemma links_okD:
  assumes "links_ok L h"
  shows "distinct (L l)" "seg h None (L l) None" "l_head h l = hd_opt (L l)" "l_tail h l = last_opt (L l)"
    "pLink h x = Some l \<longleftrightarrow> x \<in> set (L l)"
  using assms by (simp_all add: links_ok_def)

lemma links_ok_disjoint: "links_ok L h \<Longrightarrow> x \<in> set (L l) \<Longrightarrow> x \<in> set (L l') \<Longrightarrow> l = l'"
  unfolding links_ok_def by (metis option.inject)

lemma links_ok_empty: "links_ok (\<lambda>_. []) empty_lheap"
  by (simp add: links_ok_def empty_lheap_def)

section \<open>The templates implement the operations on lists\<close>

lemma set_tl_subset: "set (tl xs) \<subseteq> set xs"
  by (cases xs) auto

lemma seg_new_next:
  assumes "seg h p xs n" "distinct xs" "\<And>x. x \<in> set xs \<Longrightarrow> pPrev h' x = pPrev h x"
    "\<And>x. x \<in> set (butlast xs) \<Longrightarrow> pNext h' x = pNext h x" "xs \<noteq> [] \<Longrightarrow> pNext h' (last xs) = n'"
  shows "seg h' p xs n'"
  using assms by (induction xs arbitrary: p) (auto split: if_splits)

lemma seg_new_prev:
  assumes "seg h p xs n" "\<And>x. x \<in> set xs \<Longrightarrow> pNext h' x = pNext h x"
    "\<And>x. x \<in> set (tl xs) \<Longrightarrow> pPrev h' x = pPrev h x" "xs \<noteq> [] \<Longrightarrow> pPrev h' (hd xs) = p'"
  shows "seg h' p' xs n"
proof (cases xs)
  case (Cons x ys)
  with assms seg_cong [of ys h' h "Some x" n] show ?thesis by auto
qed simp

lemma links_ok_update:
  assumes "links_ok L h" and "\<And>k. k \<notin> K \<Longrightarrow> L' k = L k \<and> l_head h' k = l_head h k \<and> l_tail h' k = l_tail h k"
    and "\<And>k x. k \<notin> K \<Longrightarrow> x \<in> set (L k) \<Longrightarrow> pNext h' x = pNext h x \<and> pPrev h' x = pPrev h x"
    and "\<And>k. k \<in> K \<Longrightarrow> distinct (L' k) \<and> seg h' None (L' k) None \<and> l_head h' k = hd_opt (L' k)
      \<and> l_tail h' k = last_opt (L' k)"
    and "\<And>x l. pLink h' x = Some l \<longleftrightarrow> x \<in> set (L' l)"
  shows "links_ok L' h'"
  unfolding links_ok_def
proof (intro conjI allI)
  fix k x
  show "distinct (L' k)" "l_head h' k = hd_opt (L' k)" "l_tail h' k = last_opt (L' k)"
    using assms(1,2,4) by (cases "k \<in> K"; simp add: links_okD)+
  show "seg h' None (L' k) None"
  proof (cases "k \<in> K")
    case False
    have "seg h' None (L k) None = seg h None (L k) None"
      using assms(3) [OF False] by (intro seg_cong) auto
    with False assms(1,2) show ?thesis by (simp add: links_okD)
  qed (use assms(4) in blast)
  show "(pLink h' x = Some k) = (x \<in> set (L' k))" by (rule assms(5))
qed

lemma AddTail_linked: "pLink h ap \<noteq> None \<Longrightarrow> AddTail l ap h = h"
  by (simp add: AddTail_def)

lemma AddTail_ok:
  assumes "links_ok L h" and "pLink h ap = None"
  shows "links_ok (L(l := L l @ [ap])) (AddTail l ap h)"
proof -
  note ok = links_okD [OF assms(1)]
  have fresh: "ap \<notin> set (L k)" for k using ok(5) [of ap k] assms(2) by simp
  let ?h = "AddTail l ap h"
  have link: "pLink ?h = (pLink h)(ap := Some l)"
    by (simp add: AddTail_def assms(2) set_defs split: option.splits)
  have heads: "l_tail ?h = (l_tail h)(l := Some ap)"
      "l_head ?h = (if L l = [] then (l_head h)(l := Some ap) else l_head h)"
    using ok(4) [of l] by (auto simp: AddTail_def assms(2) set_defs split: option.splits)
  have nodes: "pPrev ?h = (pPrev h)(ap := last_opt (L l))"
      "pNext ?h = (if L l = [] then (pNext h)(ap := None) else (pNext h)(last (L l) := Some ap, ap := None))"
    using ok(4) [of l] by (auto simp: AddTail_def assms(2) set_defs last_opt_def split: option.splits)
  have seg: "seg ?h None (L l) (Some ap)"
  proof (cases "L l = []")
    case False
    then have split: "L l = butlast (L l) @ [last (L l)]" by simp
    then have "last (L l) \<notin> set (butlast (L l))" using ok(1) [of l] by (metis distinct_append disjoint_insert(1) list.set(2) Int_insert_right insert_not_empty)
    moreover have "last (L l) \<noteq> ap" using fresh [of l] last_in_set [OF False] by metis
    ultimately show ?thesis using False fresh
      by (intro seg_new_next [OF ok(2) ok(1)]) (auto simp: nodes dest: in_set_butlastD)
  qed simp
  show ?thesis
  proof (rule links_ok_update [OF assms(1), of "{l}"])
    fix k x assume "k \<notin> {l}" "x \<in> set (L k)"
    moreover from this have "L l \<noteq> [] \<Longrightarrow> x \<noteq> last (L l)"
      using links_ok_disjoint [OF assms(1), of x k l] by auto
    ultimately show "pNext ?h x = pNext h x \<and> pPrev ?h x = pPrev h x" using fresh by (auto simp: nodes)
  next
    fix k assume "k \<in> {l}"
    then show "distinct ((L(l := L l @ [ap])) k) \<and> seg ?h None ((L(l := L l @ [ap])) k) None
        \<and> l_head ?h k = hd_opt ((L(l := L l @ [ap])) k) \<and> l_tail ?h k = last_opt ((L(l := L l @ [ap])) k)"
      using ok(1,3) seg fresh
      by (auto simp: heads seg_append nodes hd_opt_def split: list.splits)
  qed (use ok(5) fresh in \<open>auto simp: link heads\<close>)
qed

text \<open>Removing a node joins the two halves of its list.\<close>

lemma RemoveFromLink_unlinked: "pLink h ap = None \<Longrightarrow> RemoveFromLink ap h = Inr h"
  by (simp add: RemoveFromLink_def)

lemma RemoveFromLink_result:
  assumes "links_ok L h" and "L l = us @ ap # vs"
  shows "RemoveFromLink ap h = Inr \<lparr>
    pNext = (if us = [] then pNext h else (pNext h)(last us := hd_opt vs))(ap := None),
    pPrev = (if vs = [] then pPrev h else (pPrev h)(hd vs := last_opt us))(ap := None),
    pLink = (pLink h)(ap := None),
    l_head = (if us = [] then (l_head h)(l := hd_opt vs) else l_head h),
    l_tail = (if vs = [] then (l_tail h)(l := last_opt us) else l_tail h)\<rparr>"
proof -
  note ok = links_okD [OF assms(1)]
  have link: "pLink h ap = Some l" using ok(5) assms(2) by simp
  have d: "distinct (us @ ap # vs)" using ok(1) [of l] assms(2) by simp
  have seg: "pPrev h ap = last_opt us" "pNext h ap = hd_opt vs"
    using ok(2) [of l] assms(2) by (auto simp: seg_append last_opt_def)
  have ends: "l_head h l = (if us = [] then Some ap else Some (hd us))"
      "l_tail h l = (if vs = [] then Some ap else Some (last vs))"
    using ok(3,4) [of l] assms(2) by (cases us; simp add: last_opt_def)+
  have ne: "us \<noteq> [] \<Longrightarrow> hd us \<noteq> ap \<and> last us \<noteq> ap" "vs \<noteq> [] \<Longrightarrow> hd vs \<noteq> ap \<and> last vs \<noteq> ap"
    using d by (auto dest: hd_in_set last_in_set)
  have "us \<noteq> [] \<Longrightarrow> vs \<noteq> [] \<Longrightarrow> last us \<noteq> hd vs"
    using d by (auto dest: hd_in_set last_in_set)
  with link seg ends ne show ?thesis
    by (cases us rule: rev_cases; cases vs)
      (auto simp: RemoveFromLink_def set_defs Let_def last_opt_def fun_eq_iff)
qed

lemma RemoveFromLink_ok:
  assumes "links_ok L h"
  shows "res_ok (RemoveFromLink ap h) (links_ok (\<lambda>k. filter (\<lambda>y. y \<noteq> ap) (L k)))"
proof (cases "pLink h ap")
  case None
  then have "ap \<notin> set (L k)" for k using links_okD(5) [OF assms] by (metis option.distinct(1))
  then have "filter (\<lambda>y. y \<noteq> ap) (L k) = L k" for k by (auto simp: filter_id_conv)
  with None assms show ?thesis by (simp add: RemoveFromLink_unlinked)
next
  case (Some l)
  note ok = links_okD [OF assms]
  from Some ok(5) obtain us vs where split: "L l = us @ ap # vs" by (metis split_list)
  have d: "distinct (us @ ap # vs)" using ok(1) [of l] split by simp
  have fl: "filter (\<lambda>y. y \<noteq> ap) (L l) = us @ vs"
  proof -
    have "filter (\<lambda>y. y \<noteq> ap) us = us" "filter (\<lambda>y. y \<noteq> ap) vs = vs"
      using d by (auto simp: filter_id_conv)
    then show ?thesis by (simp add: split)
  qed
  have fk: "filter (\<lambda>y. y \<noteq> ap) (L k) = L k" if "k \<noteq> l" for k
    using links_ok_disjoint [OF assms, of ap k l] that split by (auto simp: filter_id_conv)
  obtain h' where h': "RemoveFromLink ap h = Inr h'"
    "pNext h' = (if us = [] then pNext h else (pNext h)(last us := hd_opt vs))(ap := None)"
    "pPrev h' = (if vs = [] then pPrev h else (pPrev h)(hd vs := last_opt us))(ap := None)"
    "pLink h' = (pLink h)(ap := None)"
    "l_head h' = (if us = [] then (l_head h)(l := hd_opt vs) else l_head h)"
    "l_tail h' = (if vs = [] then (l_tail h)(l := last_opt us) else l_tail h)"
    by (rule that [OF RemoveFromLink_result [OF assms split]]) simp_all
  have segs: "seg h None us (Some ap)" "seg h (Some ap) vs None"
    using ok(2) [of l] split by (auto simp: seg_append split: if_splits)
  have out: "us \<noteq> [] \<Longrightarrow> last us \<notin> set vs \<and> last us \<noteq> ap \<and> last us \<notin> set (butlast us)"
    "vs \<noteq> [] \<Longrightarrow> hd vs \<notin> set us \<and> hd vs \<noteq> ap \<and> hd vs \<notin> set (tl vs)" "ap \<notin> set us" "ap \<notin> set vs"
    using d by (cases us rule: rev_cases; cases vs; auto)+
  have "seg h' None us (hd_opt vs)"
  proof (rule seg_new_next [OF segs(1)])
    show "distinct us" using d by simp
    show "pPrev h' x = pPrev h x" if "x \<in> set us" for x using that out by (cases vs) (auto simp: h')
    show "pNext h' x = pNext h x" if "x \<in> set (butlast us)" for x
      using that out in_set_butlastD [OF that] by (cases "us = []") (auto simp: h')
    show "pNext h' (last us) = hd_opt vs" if "us \<noteq> []" using that out by (simp add: h')
  qed
  moreover have "seg h' (last_opt us) vs None"
  proof (rule seg_new_prev [OF segs(2)])
    show "pNext h' x = pNext h x" if "x \<in> set vs" for x using that out by (cases "us = []") (auto simp: h')
    show "pPrev h' x = pPrev h x" if "x \<in> set (tl vs)" for x
      using that out by (cases vs) (auto simp: h')
    show "pPrev h' (hd vs) = last_opt us" if "vs \<noteq> []" using that out by (simp add: h')
  qed
  ultimately have seg: "seg h' None (us @ vs) None"
    by (cases vs; cases "us = []") (auto simp: seg_append last_opt_def)
  have ends: "distinct (us @ vs) \<and> seg h' None (us @ vs) None \<and> l_head h' l = hd_opt (us @ vs)
      \<and> l_tail h' l = last_opt (us @ vs)"
    using seg d ok(3,4) [of l] split by (cases us; cases vs) (simp_all add: h' last_opt_def)
  have "links_ok (\<lambda>k. filter (\<lambda>y. y \<noteq> ap) (L k)) h'"
  proof (rule links_ok_update [OF assms, of "{l}"])
    fix k x assume "k \<notin> {l}" "x \<in> set (L k)"
    then have "x \<notin> set (us @ ap # vs)" using links_ok_disjoint [OF assms, of x k l] by (metis split singletonI)
    then show "pNext h' x = pNext h x \<and> pPrev h' x = pPrev h x"
      by (cases us rule: rev_cases; cases vs) (simp_all add: h')
  next
    fix k assume "k \<in> {l}"
    then show "distinct (filter (\<lambda>y. y \<noteq> ap) (L k)) \<and> seg h' None (filter (\<lambda>y. y \<noteq> ap) (L k)) None
      \<and> l_head h' k = hd_opt (filter (\<lambda>y. y \<noteq> ap) (L k)) \<and> l_tail h' k = last_opt (filter (\<lambda>y. y \<noteq> ap) (L k))"
      using ends by (simp add: fl)
  next
    fix k assume "k \<notin> {l}"
    then show "filter (\<lambda>y. y \<noteq> ap) (L k) = L k \<and> l_head h' k = l_head h k \<and> l_tail h' k = l_tail h k"
      using fk by (simp add: h')
  next
    fix x k show "(pLink h' x = Some k) = (x \<in> set (filter (\<lambda>y. y \<noteq> ap) (L k)))"
      using ok(5) [of x k] by (simp add: h')
  qed
  with h'(1) show ?thesis by simp
qed

lemma PopHead_ok:
  assumes "links_ok L h"
  shows "links_ok (L(l := tl (L l))) (PopHead l h)"
proof (cases "L l")
  case Nil
  then have "L(l := tl (L l)) = L" by auto
  with Nil links_okD(3) [OF assms, of l] assms show ?thesis by (simp add: PopHead_def)
next
  case (Cons ap vs)
  note ok = links_okD [OF assms]
  let ?h = "PopHead l h"
  have d: "distinct (ap # vs)" using ok(1) [of l] Cons by simp
  have seg: "pPrev h ap = None" "pNext h ap = hd_opt vs" "seg h (Some ap) vs None"
    using ok(2) [of l] Cons by (auto split: if_splits)
  have ends: "l_head h l = Some ap" "l_tail h l = Some (if vs = [] then ap else last vs)"
    using ok(3,4) [of l] Cons by (simp_all add: last_opt_def)
  have "?h = h\<lparr>pNext := (pNext h)(ap := None),
    pPrev := (if vs = [] then (pPrev h)(ap := None) else (pPrev h)(ap := None, hd vs := None)),
    pLink := (pLink h)(ap := None), l_head := (l_head h)(l := hd_opt vs),
    l_tail := (if vs = [] then (l_tail h)(l := None) else l_tail h)\<rparr>"
  proof (cases vs)
    case Nil
    with seg ends show ?thesis by (simp add: PopHead_def set_defs Let_def)
  next
    case (Cons v ws)
    then have "last vs \<noteq> ap" using d last_in_set [of vs] by (metis distinct.simps(2) list.distinct(1))
    with Cons seg ends show ?thesis by (simp add: PopHead_def set_defs Let_def)
  qed
  then have h': "pNext ?h = (pNext h)(ap := None)"
    "pPrev ?h = (if vs = [] then (pPrev h)(ap := None) else (pPrev h)(ap := None, hd vs := None))"
    "pLink ?h = (pLink h)(ap := None)" "l_head ?h = (l_head h)(l := hd_opt vs)"
    "l_tail ?h = (if vs = [] then (l_tail h)(l := None) else l_tail h)"
    by simp_all
  have "seg ?h None vs None"
  proof (cases vs)
    case (Cons v ws)
    with d show ?thesis by (intro seg_new_prev [OF seg(3)]) (auto simp: h')
  qed simp
  with d have "distinct (tl (L l)) \<and> seg ?h None (tl (L l)) None \<and> l_head ?h l = hd_opt (tl (L l))
      \<and> l_tail ?h l = last_opt (tl (L l))"
    using ends by (cases "vs = []") (simp_all add: Cons h' last_opt_def)
  moreover have "x \<notin> set (ap # vs)" if "k \<noteq> l" "x \<in> set (L k)" for k x
    using links_ok_disjoint [OF assms, of x k l] that Cons by auto
  moreover have "pLink ?h x = Some k \<longleftrightarrow> x \<in> set ((L(l := tl (L l))) k)" for x k
    using ok(5) [of x k] links_ok_disjoint [OF assms, of ap k l] d Cons
    by (cases "x = ap"; cases "k = l") (auto simp: h')
  moreover have "pNext ?h x = pNext h x \<and> pPrev ?h x = pPrev h x" if "x \<notin> set (ap # vs)" for x
    using that by (cases vs) (auto simp: h')
  moreover have "l_head ?h k = l_head h k \<and> l_tail ?h k = l_tail h k" if "k \<noteq> l" for k
    using that by (simp add: h')
  ultimately show ?thesis
    by (intro links_ok_update [OF assms, of "{l}"]) (simp_all del: set_simps list.set)
qed

lemma relink_ok:
  "seg h p xs None \<Longrightarrow> distinct xs \<Longrightarrow>
   relink l (hd_opt xs) h = Some (h\<lparr>pLink := (\<lambda>x. if x \<in> set xs then Some l else pLink h x)\<rparr>)"
proof (induction xs arbitrary: p h)
  case Nil
  then show ?case by (simp add: relink.simps)
next
  case (Cons x xs)
  have "seg (set_link x (Some l) h) (Some x) xs None"
    using Cons.prems by (subst seg_cong [of xs _ h]) (auto simp: set_link_def)
  moreover have "pNext h x = hd_opt xs" using Cons.prems by (auto split: if_splits)
  ultimately show ?case
    using Cons.IH [of "set_link x (Some l) h" "Some x"] Cons.prems
    by (subst relink.simps) (auto simp: set_link_def fun_eq_iff)
qed

lemma Join_ok:
  assumes "links_ok L h" and "l \<noteq> m"
  shows "res_ok (Join l m h) (links_ok (L(l := L l @ L m, m := [])))"
proof (cases "L m")
  case Nil
  then have "L(l := L l @ L m, m := []) = L" by auto
  with Nil links_okD(3) [OF assms(1), of m] assms(1) show ?thesis by (simp add: Join_def)
next
  case (Cons y ys)
  note ok = links_okD [OF assms(1)]
  let ?xs = "L l" and ?ys = "y # ys"
  let ?lk = "\<lambda>x. if x \<in> set ?ys then Some l else pLink h x"
  have rl: "relink l (Some y) h = Some (h\<lparr>pLink := ?lk\<rparr>)"
    using relink_ok [OF ok(2) [of m] ok(1), of l] Cons by simp
  have ends: "l_head h m = Some y" "l_tail h m = Some (last ?ys)" "l_tail h l = last_opt ?xs"
      "l_head h l = hd_opt ?xs"
    using ok(3,4) Cons by (simp_all add: last_opt_def)
  define h' where "h' = h\<lparr>
    pNext := (if ?xs = [] then pNext h else (pNext h)(last ?xs := Some y)),
    pPrev := (if ?xs = [] then pPrev h else (pPrev h)(y := Some (last ?xs))),
    pLink := ?lk, l_head := (if ?xs = [] then (l_head h)(l := Some y, m := None) else (l_head h)(m := None)),
    l_tail := (l_tail h)(l := Some (last ?ys), m := None)\<rparr>"
  have join: "Join l m h = Inr h'"
    using ends rl assms(2)
    by (cases "?xs = []") (simp_all add: h'_def Join_def set_defs Let_def last_opt_def fun_upd_twist)
  have dis: "x \<notin> set ?ys" if "x \<in> set ?xs" for x
    using links_ok_disjoint [OF assms(1), of x l m] that Cons assms(2) by auto
  have d: "distinct ?xs" "distinct ?ys" using ok(1) [of l] ok(1) [of m] Cons by simp_all
  have out: "?xs \<noteq> [] \<Longrightarrow> last ?xs \<noteq> y \<and> last ?xs \<notin> set ys"
    using dis [of "last ?xs"] by auto
  have lb: "?xs \<noteq> [] \<Longrightarrow> last ?xs \<notin> set (butlast ?xs)"
    using d(1) by (cases ?xs rule: rev_cases) auto
  have "seg h' None ?xs (Some y)"
  proof (rule seg_new_next [OF ok(2) d(1)])
    show "pPrev h' x = pPrev h x" if "x \<in> set ?xs" for x using dis [OF that] by (auto simp: h'_def)
    show "pNext h' x = pNext h x" if "x \<in> set (butlast ?xs)" for x
      using that lb by (cases "?xs = []") (auto simp: h'_def)
    show "pNext h' (last ?xs) = Some y" if "?xs \<noteq> []" using that by (simp add: h'_def)
  qed
  moreover have "seg h' (last_opt ?xs) ?ys None"
  proof (rule seg_new_prev [OF ok(2) [of m, unfolded Cons]])
    show "pNext h' x = pNext h x" if "x \<in> set ?ys" for x using that out by (auto simp: h'_def)
    show "pPrev h' x = pPrev h x" if "x \<in> set (tl ?ys)" for x using that d(2) by (auto simp: h'_def)
    show "pPrev h' (hd ?ys) = last_opt ?xs"
      using ok(2) [of m] Cons by (cases "?xs = []") (simp_all add: h'_def last_opt_def)
  qed
  ultimately have "seg h' None (?xs @ ?ys) None" by (cases "?xs = []") (simp_all add: seg_append last_opt_def)
  moreover have "distinct (?xs @ ?ys)" using d dis by auto
  moreover have "x \<notin> set ?xs" "x \<notin> set ?ys" if "k \<noteq> l" "k \<noteq> m" "x \<in> set (L k)" for k x
    using links_ok_disjoint [OF assms(1), of x k] that Cons by metis+
  moreover have "pLink h' x = Some k \<longleftrightarrow> x \<in> set ((L(l := L l @ L m, m := [])) k)" for x k
    using ok(5) [of x k] links_ok_disjoint [OF assms(1), of x k m] Cons assms(2)
    by (cases "x \<in> set ?ys"; cases "k = l"; cases "k = m") (auto simp: h'_def)
  moreover have "l_head h' l = hd_opt (?xs @ ?ys)" "l_tail h' l = last_opt (?xs @ ?ys)"
      "l_head h' m = None" "l_tail h' m = None"
    using ends assms(2) by (cases ?xs; simp add: h'_def last_opt_def)+
  moreover have "pNext h' x = pNext h x \<and> pPrev h' x = pPrev h x" if "x \<notin> set ?xs" "x \<notin> set ?ys" for x
    using that by (cases ?xs rule: rev_cases) (auto simp: h'_def)
  moreover have "l_head h' k = l_head h k \<and> l_tail h' k = l_tail h k" if "k \<noteq> l" "k \<noteq> m" for k
    using that by (simp add: h'_def)
  ultimately have "links_ok (L(l := L l @ L m, m := [])) h'"
    using assms(2)
    by (intro links_ok_update [OF assms(1), of "{l, m}"]) (auto simp: Cons simp del: list.set)
  with join show ?thesis by simp
qed

section \<open>The interface of the lists\<close>

text \<open>
  What the timer wheel, the condition variables and the event loop use of the lists: a heap shows a
  family of lists, and each operation changes that family. The lemmas of the locale are the
  compositions these clients need.
\<close>

locale intrusive_lists =
  fixes lists :: "(nat \<Rightarrow> nat list) \<Rightarrow> 'h \<Rightarrow> bool"
    and link_of :: "'h \<Rightarrow> nat \<Rightarrow> nat option"
    and add_tail :: "nat \<Rightarrow> nat \<Rightarrow> 'h \<Rightarrow> 'h"
    and unlink :: "nat \<Rightarrow> 'h \<Rightarrow> 'h res"
    and pop :: "nat \<Rightarrow> 'h \<Rightarrow> 'h"
    and join :: "nat \<Rightarrow> nat \<Rightarrow> 'h \<Rightarrow> 'h res"
  assumes link_of: "lists L h \<Longrightarrow> link_of h x = Some l \<longleftrightarrow> x \<in> set (L l)"
    and distinct: "lists L h \<Longrightarrow> distinct (L l)"
    and add_tail: "lists L h \<Longrightarrow> link_of h x = None \<Longrightarrow> lists (L(l := L l @ [x])) (add_tail l x h)"
    and add_tail_linked: "link_of h x \<noteq> None \<Longrightarrow> add_tail l x h = h"
    and unlink: "lists L h \<Longrightarrow> res_ok (unlink x h) (lists (\<lambda>k. filter (\<lambda>y. y \<noteq> x) (L k)))"
    and pop: "lists L h \<Longrightarrow> lists (L(l := tl (L l))) (pop l h)"
    and join: "lists L h \<Longrightarrow> l \<noteq> m \<Longrightarrow> res_ok (join l m h) (lists (L(l := L l @ L m, m := [])))"
begin

lemma unlinked_iff: "lists L h \<Longrightarrow> link_of h x = None \<longleftrightarrow> (\<forall>l. x \<notin> set (L l))"
  using link_of [of L h x] by (cases "link_of h x") auto

lemma disjoint: "lists L h \<Longrightarrow> x \<in> set (L l) \<Longrightarrow> x \<in> set (L m) \<Longrightarrow> l = m"
  using link_of [of L h x l] link_of [of L h x m] by simp

text \<open>Unlink a node from wherever it is and append it to \<open>l\<close>.\<close>

lemma move:
  assumes "lists L h"
  shows "res_ok (bind_res (unlink x h) (\<lambda>h'. Inr (add_tail l x h')))
    (lists ((\<lambda>k. filter (\<lambda>y. y \<noteq> x) (L k))(l := filter (\<lambda>y. y \<noteq> x) (L l) @ [x])))"
proof (rule res_ok_bind [OF unlink [OF assms, of x]])
  fix h' assume h': "lists (\<lambda>k. filter (\<lambda>y. y \<noteq> x) (L k)) h'"
  then have "link_of h' x = None" by (simp add: unlinked_iff [OF h'])
  from add_tail [OF h' this, of l]
  show "res_ok (Inr (add_tail l x h'))
      (lists ((\<lambda>k. filter (\<lambda>y. y \<noteq> x) (L k))(l := filter (\<lambda>y. y \<noteq> x) (L l) @ [x])))" by simp
qed

text \<open>Pop the head of \<open>l\<close> and append it to \<open>m\<close>.\<close>

lemma pop_add:
  assumes "lists L h" and "L l = x # xs" and "l \<noteq> m"
  shows "lists (L(l := xs, m := L m @ [x])) (add_tail m x (pop l h))"
proof -
  have p: "lists (L(l := xs)) (pop l h)" using pop [OF assms(1), of l] assms(2) by simp
  have "x \<notin> set xs" using distinct [OF assms(1), of l] assms(2) by simp
  moreover have "x \<notin> set (L k)" if "k \<noteq> l" for k
    using disjoint [OF assms(1), of x k l] assms(2) that by auto
  ultimately have "link_of (pop l h) x = None" by (simp add: unlinked_iff [OF p])
  from add_tail [OF p this, of m] assms(3) show ?thesis by (simp add: fun_upd_twist)
qed

lemma join_all:
  assumes "lists L h" and "distinct ms" and "l \<notin> set ms"
  shows "res_ok (run_all (\<lambda>h m. join l m h) h ms)
    (lists (\<lambda>k. if k = l then L l @ concat (map L ms) else if k \<in> set ms then [] else L k))"
  using assms
proof (induction ms arbitrary: L h)
  case Nil
  then have "(\<lambda>k. if k = l then L l @ concat (map L []) else if k \<in> set [] then [] else L k) = L" by auto
  with Nil show ?case by simp
next
  case (Cons m ms)
  let ?L = "L(l := L l @ L m, m := [])"
  have "res_ok (join l m h) (lists ?L)" using Cons.prems by (intro join) auto
  then show ?case unfolding run_all.simps
  proof (rule res_ok_bind)
    fix h' assume "lists ?L h'"
    from Cons.IH [OF this] Cons.prems
    have "res_ok (run_all (\<lambda>h m. join l m h) h' ms)
      (lists (\<lambda>k. if k = l then ?L l @ concat (map ?L ms) else if k \<in> set ms then [] else ?L k))" by simp
    moreover have "map ?L ms = map L ms" using Cons.prems by (intro map_cong) auto
    then have "(\<lambda>k. if k = l then ?L l @ concat (map ?L ms) else if k \<in> set ms then [] else ?L k) =
        (\<lambda>k. if k = l then L l @ concat (map L (m # ms)) else if k \<in> set (m # ms) then [] else L k)"
      using Cons.prems by (auto simp: fun_eq_iff)
    ultimately show "res_ok (run_all (\<lambda>h m. join l m h) h' ms)
      (lists (\<lambda>k. if k = l then L l @ concat (map L (m # ms)) else if k \<in> set (m # ms) then [] else L k))"
      by simp
  qed
qed

end

interpretation lnk: intrusive_lists links_ok pLink AddTail RemoveFromLink PopHead Join
  by unfold_locales
    (simp_all add: links_okD AddTail_ok AddTail_linked RemoveFromLink_ok PopHead_ok Join_ok)

section \<open>Any sequence of operations\<close>

datatype link_op = Op_add nat nat | Op_remove nat | Op_pop nat | Op_join nat nat

fun link_step :: "lheap \<Rightarrow> link_op \<Rightarrow> lheap res" where
  "link_step h (Op_add l x) = Inr (AddTail l x h)"
| "link_step h (Op_remove x) = RemoveFromLink x h"
| "link_step h (Op_pop l) = Inr (PopHead l h)"
| "link_step h (Op_join l m) = Join l m h"

text \<open>The specification: a family of lists, in which a node is in at most one list.\<close>

fun list_step :: "(nat \<Rightarrow> nat list) \<Rightarrow> link_op \<Rightarrow> nat \<Rightarrow> nat list" where
  "list_step L (Op_add l x) = (if \<exists>k. x \<in> set (L k) then L else L(l := L l @ [x]))"
| "list_step L (Op_remove x) = (\<lambda>k. filter (\<lambda>y. y \<noteq> x) (L k))"
| "list_step L (Op_pop l) = L(l := tl (L l))"
| "list_step L (Op_join l m) = L(l := L l @ L m, m := [])"

fun op_ok :: "link_op \<Rightarrow> bool" where
  "op_ok (Op_join l m) \<longleftrightarrow> l \<noteq> m"
| "op_ok _ \<longleftrightarrow> True"

lemma link_step_refines:
  assumes "links_ok L h" and "op_ok a"
  shows "res_ok (link_step h a) (links_ok (list_step L a))"
proof (cases a)
  case (Op_add l x)
  show ?thesis
  proof (cases "pLink h x")
    case None
    with assms(1) Op_add show ?thesis by (simp add: AddTail_ok lnk.unlinked_iff [OF assms(1)])
  next
    case (Some k)
    then have "x \<in> set (L k)" using links_okD(5) [OF assms(1)] by simp
    with Some assms(1) Op_add show ?thesis by (auto simp: AddTail_linked)
  qed
qed (use assms in \<open>auto simp: PopHead_ok RemoveFromLink_ok Join_ok simp del: fun_upd_apply\<close>)

lemma link_run_refines:
  assumes "links_ok L h" and "list_all op_ok ops"
  shows "res_ok (run_all link_step h ops) (links_ok (foldl list_step L ops))"
  using assms
proof (induction ops arbitrary: L h)
  case (Cons a ops)
  then have "res_ok (link_step h a) (links_ok (list_step L a))" by (intro link_step_refines) simp_all
  then show ?case using Cons by (auto intro: res_ok_bind)
qed simp

text \<open>
  C17. Starting from empty lists, every sequence of \<open>AddTail\<close>, \<open>RemoveFromLink\<close>, \<open>PopHead\<close>
  and \<open>Join\<close> (of two different lists) ends without a failed assertion, a null dereference or an
  endless loop, and the pointers of the heap then represent the lists that the same operations give
  on plain lists: every chain is acyclic, consistent in both directions, ends at its head and tail
  pointers, and each node's \<open>pLink\<close> names the one list it is in.\<close>

theorem links_refine_lists:
  assumes "list_all op_ok ops"
  shows "res_ok (run_all link_step empty_lheap ops) (links_ok (foldl list_step (\<lambda>_. []) ops))"
  by (rule link_run_refines [OF links_ok_empty assms])

lemma links_refine_lists_witness:
  "res_ok (run_all link_step empty_lheap
      [Op_add 0 5, Op_add 0 7, Op_add 1 9, Op_join 0 1, Op_remove 7, Op_pop 0])
    (\<lambda>h. l_head h 0 = Some 9 \<and> l_tail h 0 = Some 9 \<and> pLink h 9 = Some 0 \<and> l_head h 1 = None)"
proof (rule res_ok_mono [OF links_refine_lists])
  let ?ops = "[Op_add 0 5, Op_add 0 7, Op_add 1 9, Op_join 0 1, Op_remove 7, Op_pop 0]"
  have lists: "foldl list_step (\<lambda>_. []) ?ops 0 = [9]" "foldl list_step (\<lambda>_. []) ?ops 1 = []" by simp_all
  fix h assume "links_ok (foldl list_step (\<lambda>_. []) ?ops) h"
  note ok = links_okD [OF this]
  show "l_head h 0 = Some 9 \<and> l_tail h 0 = Some 9 \<and> pLink h 9 = Some 0 \<and> l_head h 1 = None"
    using ok(3,4) [of 0] ok(3) [of 1] ok(5) [of 9 0] by (simp only: lists) (simp add: last_opt_def)
qed simp

end
