(* ===== verification/Co_Timer.thy ===== *)
theory Co_Timer
  imports Co_List "HOL-Library.Signed_Division"
begin

text \<open>
  The timer wheel of libco (\<open>stTimeout_t\<close> in \<^verbatim>\<open>cocgi/libco/co_routine.cpp\<close>): an array of
  intrusive lists, one per millisecond, used as a ring. \<open>pItems\<close> is the address of its first list
  header, so \<open>pItems + i\<close> is the header of slot \<open>i\<close>. Times are \<open>unsigned long long\<close>
  milliseconds; the number of elapsed slots is truncated to \<open>int\<close> as the code does. The
  invariant of the wheel is that an item is never in a slot later than its expiry time.
\<close>

section \<open>Operations\<close>

record stTimeout_t =
  pItems :: nat
  iItemSize :: int
  ullStart :: "64 word"
  llStartIdx :: int

definition AllocTimeout :: "nat \<Rightarrow> int \<Rightarrow> 64 word \<Rightarrow> stTimeout_t" where
  "AllocTimeout base iSize now = \<lparr>pItems = base, iItemSize = iSize, ullStart = now, llStartIdx = 0\<rparr>"

text \<open>The first statement of \<open>AddTimeout\<close> and of \<open>TakeAllTimeout\<close>.\<close>

definition start_timeout :: "stTimeout_t \<Rightarrow> 64 word \<Rightarrow> stTimeout_t" where
  "start_timeout t allNow = (if ullStart t = 0 then t\<lparr>ullStart := allNow, llStartIdx := 0\<rparr> else t)"

text \<open>The error returns are the line numbers of the \<open>return\<close> statements.\<close>

definition AddTimeout ::
    "stTimeout_t \<Rightarrow> nat \<Rightarrow> 64 word \<Rightarrow> 64 word \<Rightarrow> lheap \<Rightarrow> int \<times> stTimeout_t \<times> lheap" where
  "AddTimeout apTimeout apItem ullExpireTime allNow h =
     (let t = start_timeout apTimeout allNow in
      if allNow < ullStart t then (390, t, h)
      else if ullExpireTime < allNow then (397, t, h)
      else
        let diff = ullExpireTime - ullStart t;
            diff = (if diff \<ge> word_of_int (iItemSize t) then word_of_int (iItemSize t - 1) else diff);
            slot = (word_of_int (llStartIdx t) + diff) mod word_of_int (iItemSize t)
        in (0, t, AddTail (pItems t + unat slot) apItem h))"

definition take_slot :: "stTimeout_t \<Rightarrow> nat \<Rightarrow> lheap \<Rightarrow> nat \<Rightarrow> lheap res" where
  "take_slot t apResult h i =
     (let idx = (llStartIdx t + int i) smod iItemSize t
      in if idx < 0 then Inl Out_of_bounds else Join apResult (pItems t + nat idx) h)"

definition elapsed :: "stTimeout_t \<Rightarrow> 64 word \<Rightarrow> int" where
  "elapsed t allNow = sint (ucast (allNow - ullStart t + 1) :: 32 word)"

definition TakeAllTimeout :: "stTimeout_t \<Rightarrow> 64 word \<Rightarrow> nat \<Rightarrow> lheap \<Rightarrow> (stTimeout_t \<times> lheap) res" where
  "TakeAllTimeout apTimeout allNow apResult h =
     (let t = start_timeout apTimeout allNow in
      if allNow < ullStart t then Inr (t, h)
      else
        let cnt = elapsed t allNow;
            cnt = (if cnt > iItemSize t then iItemSize t else cnt)
        in if cnt < 0 then Inr (t, h)
           else bind_res (run_all (take_slot t apResult) h [0..<nat cnt])
             (\<lambda>h'. Inr (t\<lparr>ullStart := allNow, llStartIdx := llStartIdx t + cnt - 1\<rparr>, h')))"

section \<open>The invariant of the wheel\<close>

text \<open>The slot that is \<open>d\<close> milliseconds after the start.\<close>

definition slot_at :: "stTimeout_t \<Rightarrow> nat \<Rightarrow> nat" where
  "slot_at t d = pItems t + nat ((llStartIdx t + int d) mod iItemSize t)"

definition slots :: "stTimeout_t \<Rightarrow> nat set" where
  "slots t = {pItems t..<pItems t + nat (iItemSize t)}"

definition wheel_items :: "stTimeout_t \<Rightarrow> (nat \<Rightarrow> nat list) \<Rightarrow> nat set" where
  "wheel_items t L = (\<Union>k\<in>slots t. set (L k))"

definition wheel_shape :: "stTimeout_t \<Rightarrow> bool" where
  "wheel_shape t \<longleftrightarrow> 0 < iItemSize t \<and> iItemSize t < 2 ^ 31 \<and> 0 < ullStart t \<and>
     0 \<le> llStartIdx t \<and> llStartIdx t \<le> uint (ullStart t)"

definition wheel_ok :: "(nat \<Rightarrow> 64 word) \<Rightarrow> stTimeout_t \<Rightarrow> (nat \<Rightarrow> nat list) \<Rightarrow> bool" where
  "wheel_ok ex t L \<longleftrightarrow> wheel_shape t \<and>
     (\<forall>d < nat (iItemSize t). \<forall>x \<in> set (L (slot_at t d)). unat (ullStart t) + d \<le> unat (ex x))"

lemma wheel_shapeD:
  assumes "wheel_shape t"
  shows "0 < iItemSize t" "iItemSize t < 2 ^ 31" "0 < ullStart t" "0 \<le> llStartIdx t"
    "llStartIdx t \<le> uint (ullStart t)" "start_timeout t now = t"
  using assms by (auto simp: wheel_shape_def start_timeout_def)

lemma slot_at_in_slots: "wheel_shape t \<Longrightarrow> slot_at t d \<in> slots t"
  by (simp add: slot_at_def slots_def wheel_shape_def nat_less_iff)

lemma slot_at_inj:
  assumes "wheel_shape t" "slot_at t d = slot_at t d'" "d < nat (iItemSize t)" "d' < nat (iItemSize t)"
  shows "d = d'"
proof -
  have pos: "0 < iItemSize t" using assms(1) by (simp add: wheel_shape_def)
  then have "(llStartIdx t + int d) mod iItemSize t = (llStartIdx t + int d') mod iItemSize t"
    using assms(2) by (simp add: slot_at_def eq_nat_nat_iff)
  then have "int d mod iItemSize t = int d' mod iItemSize t" by (simp add: mod_add_cong mod_diff_cong mod_eq_dvd_iff)
  with assms(3,4) pos show ?thesis by simp
qed

lemma slots_covered:
  assumes "wheel_shape t" "k \<in> slots t"
  obtains d where "d < nat (iItemSize t)" "k = slot_at t d"
proof -
  have pos: "0 < iItemSize t" using assms(1) by (simp add: wheel_shape_def)
  let ?d = "nat ((int k - int (pItems t) - llStartIdx t) mod iItemSize t)"
  have "?d < nat (iItemSize t)" using pos by (simp add: nat_less_iff)
  moreover have "slot_at t ?d = k"
  proof -
    have "(llStartIdx t + int ?d) mod iItemSize t = (int k - int (pItems t)) mod iItemSize t"
      using pos by (simp add: mod_simps)
    also have "\<dots> = int k - int (pItems t)"
      using assms(2) pos by (intro mod_pos_pos_trivial) (auto simp: slots_def)
    finally show ?thesis using assms(2) by (auto simp: slot_at_def slots_def)
  qed
  ultimately show ?thesis by (metis that)
qed

section \<open>Adding an item\<close>

lemma wheel_slot_word:
  fixes diff :: "64 word"
  assumes "wheel_shape t" and "uint (ullStart t) + uint diff < 2 ^ 64"
  shows "pItems t + unat ((word_of_int (llStartIdx t) + diff) mod word_of_int (iItemSize t)) =
    slot_at t (unat diff)"
proof -
  note sh = wheel_shapeD [OF assms(1)]
  have "llStartIdx t < 2 ^ 64" using sh(5) uint_lt2p [of "ullStart t"] by simp
  then have a: "uint (word_of_int (llStartIdx t) :: 64 word) = llStartIdx t"
    using sh(4) by (simp add: uint_word_of_int_eq take_bit_int_eq_self)
  have b: "uint (word_of_int (iItemSize t) :: 64 word) = iItemSize t"
    using sh(1,2) by (simp add: uint_word_of_int_eq take_bit_int_eq_self)
  have "uint (word_of_int (llStartIdx t) + diff) = llStartIdx t + uint diff"
    using a sh(5) assms(2) uint_add_lem [of "word_of_int (llStartIdx t)" diff] by simp
  then have "unat ((word_of_int (llStartIdx t) + diff) mod word_of_int (iItemSize t)) =
      nat ((llStartIdx t + uint diff) mod iItemSize t)"
    by (simp only: unat_eq_nat_uint uint_mod b)
  then show ?thesis by (simp only: slot_at_def of_nat_unat)
qed

text \<open>How far ahead of the start an item goes.\<close>

definition ahead :: "stTimeout_t \<Rightarrow> 64 word \<Rightarrow> nat" where
  "ahead t e = min (unat e - unat (ullStart t)) (nat (iItemSize t) - 1)"

lemma AddTimeout_result:
  assumes "wheel_shape t" and "ullStart t \<le> now" and "now \<le> e"
  shows "AddTimeout t x e now h = (0, t, AddTail (slot_at t (ahead t e)) x h)"
proof -
  note sh = wheel_shapeD [OF assms(1)]
  have le: "ullStart t \<le> e" using assms(2,3) by simp
  let ?diff = "e - ullStart t"
  let ?d = "if ?diff \<ge> word_of_int (iItemSize t) then word_of_int (iItemSize t - 1) else ?diff"
  have diff: "unat ?diff = unat e - unat (ullStart t)" using le by (simp add: unat_sub)
  have size: "unat (word_of_int (iItemSize t) :: 64 word) = nat (iItemSize t)"
      "unat (word_of_int (iItemSize t - 1) :: 64 word) = nat (iItemSize t) - 1"
    using sh(1,2) take_bit_int_eq_self [of "iItemSize t" 64] take_bit_int_eq_self [of "iItemSize t - 1" 64]
    by (simp_all only: unat_eq_nat_uint uint_word_of_int_eq) (simp_all add: nat_diff_distrib)
  have d: "unat ?d = ahead t e"
    using sh(1) size diff by (auto simp: ahead_def word_le_nat_alt)
  have "unat (ullStart t) + unat ?d \<le> unat e" using le unfolding d by (simp add: ahead_def word_le_nat_alt)
  then have "int (unat (ullStart t)) + int (unat ?d) \<le> int (unat e)" by linarith
  then have "uint (ullStart t) + uint ?d < 2 ^ 64"
    unfolding of_nat_unat using uint_lt2p [of e] by simp
  from wheel_slot_word [OF assms(1) this] d assms(2,3) sh(6)
  show ?thesis by (simp add: AddTimeout_def Let_def linorder_not_less del: of_int_add of_int_diff)
qed

lemma AddTimeout_errors:
  assumes "wheel_shape t"
  shows "now < ullStart t \<Longrightarrow> AddTimeout t x e now h = (390, t, h)"
    and "ullStart t \<le> now \<Longrightarrow> e < now \<Longrightarrow> AddTimeout t x e now h = (397, t, h)"
  using wheel_shapeD(6) [OF assms] by (auto simp: AddTimeout_def Let_def)

lemma wheel_ok_add:
  assumes "wheel_ok ex t L" and "ullStart t \<le> ex x"
  shows "wheel_ok ex t (L(slot_at t (ahead t (ex x)) := L (slot_at t (ahead t (ex x))) @ [x]))"
proof -
  have sh: "wheel_shape t" using assms(1) by (simp add: wheel_ok_def)
  then have a: "ahead t (ex x) < nat (iItemSize t)" using wheel_shapeD(1) [OF sh] by (simp add: ahead_def)
  have "unat (ullStart t) + ahead t (ex x) \<le> unat (ex x)"
    using assms(2) by (simp add: ahead_def word_le_nat_alt)
  then show ?thesis
    using assms(1) slot_at_inj [OF sh _ _ a] unfolding wheel_ok_def by (auto simp: sh)
qed

lemma wheel_items_add:
  "wheel_shape t \<Longrightarrow> wheel_items t (L(slot_at t d := L (slot_at t d) @ [x])) = insert x (wheel_items t L)"
  using slot_at_in_slots [of t d] by (auto simp: wheel_items_def split: if_splits)

section \<open>Taking the due items\<close>

lemma take_slot_Join: "wheel_shape t \<Longrightarrow> take_slot t l h i = Join l (slot_at t i) h"
  using wheel_shapeD [of t] pos_mod_sign [of "iItemSize t" "llStartIdx t + int i"]
  by (simp add: take_slot_def slot_at_def Let_def smod_mod_positive not_less del: pos_mod_sign)

lemma elapsed_eq:
  assumes "ullStart t \<le> now" and "unat now - unat (ullStart t) < 2 ^ 31 - 1"
  shows "elapsed t now = int (unat now - unat (ullStart t)) + 1"
proof -
  let ?n = "unat now - unat (ullStart t) + 1"
  have "unat (now - ullStart t) = ?n - 1" using assms(1) by (simp add: unat_sub)
  then have n: "unat (now - ullStart t + 1) = ?n" using assms(2) by (subst unat_add_lem [THEN iffD1]) simp_all
  then have u: "uint (now - ullStart t + 1) = int ?n" by (simp only: uint_nat)
  have "elapsed t now = signed_take_bit 31 (take_bit 32 (uint (now - ullStart t + 1)))"
    by (simp add: elapsed_def sint_uint unsigned_ucast_eq)
  also have "\<dots> = int ?n" using assms(2) unfolding u
    by (simp add: signed_take_bit_int_eq_self take_bit_int_eq_self)
  finally show ?thesis by simp
qed

text \<open>The number of slots that are due, the items in them in order, and the lists afterwards.\<close>

definition due_slots :: "stTimeout_t \<Rightarrow> 64 word \<Rightarrow> nat" where
  "due_slots t now = min (unat now - unat (ullStart t) + 1) (nat (iItemSize t))"

definition taken :: "stTimeout_t \<Rightarrow> 64 word \<Rightarrow> (nat \<Rightarrow> nat list) \<Rightarrow> nat list" where
  "taken t now L = concat (map (\<lambda>i. L (slot_at t i)) [0..<due_slots t now])"

definition after_take :: "stTimeout_t \<Rightarrow> 64 word \<Rightarrow> nat \<Rightarrow> (nat \<Rightarrow> nat list) \<Rightarrow> nat \<Rightarrow> nat list" where
  "after_take t now r L k =
     (if k = r then L r @ taken t now L
      else if k \<in> slot_at t ` {..<due_slots t now} then [] else L k)"

definition advanced :: "stTimeout_t \<Rightarrow> 64 word \<Rightarrow> stTimeout_t" where
  "advanced t now = t\<lparr>ullStart := now, llStartIdx := llStartIdx t + int (due_slots t now) - 1\<rparr>"

lemma due_slots_bounds: "wheel_shape t \<Longrightarrow> 1 \<le> due_slots t now \<and> due_slots t now \<le> nat (iItemSize t)"
  by (auto simp: due_slots_def wheel_shape_def)

lemma slots_advanced [simp]: "slots (advanced t now) = slots t"
  by (simp add: slots_def advanced_def)

lemma TakeAllTimeout_early: "wheel_shape t \<Longrightarrow> now < ullStart t \<Longrightarrow> TakeAllTimeout t now r h = Inr (t, h)"
  by (simp add: TakeAllTimeout_def wheel_shapeD(6))

lemma TakeAllTimeout_ok:
  assumes "links_ok L h" "wheel_shape t" "ullStart t \<le> now"
    and "unat now - unat (ullStart t) < 2 ^ 31 - 1" "r \<notin> slots t"
  shows "\<exists>h'. TakeAllTimeout t now r h = Inr (advanced t now, h') \<and> links_ok (after_take t now r L) h'"
proof -
  note sh = wheel_shapeD [OF assms(2)]
  define n where "n = due_slots t now"
  have n: "n \<le> nat (iItemSize t)" using due_slots_bounds [OF assms(2)] by (simp add: n_def)
  have "(if int m + 1 > s then s else int m + 1) = int (min (m + 1) (nat s))" if "0 < s" for m s
    using that by auto
  from this [OF sh(1)]
  have cnt: "(if elapsed t now > iItemSize t then iItemSize t else elapsed t now) = int n"
    by (simp only: elapsed_eq [OF assms(3,4)] n_def due_slots_def)
  have inj: "inj_on (slot_at t) {0..<n}"
    using slot_at_inj [OF assms(2)] n by (auto simp: inj_on_def)
  have "res_ok (run_all (\<lambda>h m. Join r m h) h (map (slot_at t) [0..<n]))
    (links_ok (\<lambda>k. if k = r then L r @ concat (map L (map (slot_at t) [0..<n]))
      else if k \<in> set (map (slot_at t) [0..<n]) then [] else L k))"
  proof (rule lnk.join_all [OF assms(1)])
    show "distinct (map (slot_at t) [0..<n])" using inj by (simp add: distinct_map)
    show "r \<notin> set (map (slot_at t) [0..<n])" using slot_at_in_slots [OF assms(2)] assms(5) by auto
  qed
  moreover have "(\<lambda>k. if k = r then L r @ concat (map L (map (slot_at t) [0..<n]))
      else if k \<in> set (map (slot_at t) [0..<n]) then [] else L k) = after_take t now r L"
    by (auto simp: fun_eq_iff after_take_def taken_def n_def atLeast0LessThan comp_def)
  moreover have "run_all (take_slot t r) h ns = run_all (\<lambda>h m. Join r m h) h (map (slot_at t) ns)" for h ns
    using assms(2) by (induction ns arbitrary: h) (simp_all add: take_slot_Join)
  ultimately have "res_ok (run_all (take_slot t r) h [0..<n]) (links_ok (after_take t now r L))" by simp
  then obtain h' where h': "run_all (take_slot t r) h [0..<n] = Inr h'" "links_ok (after_take t now r L) h'" ..
  have "TakeAllTimeout t now r h = Inr (advanced t now, h')"
    using cnt h'(1) assms(3) sh(6)
    by (simp add: TakeAllTimeout_def Let_def advanced_def n_def [symmetric] linorder_not_less)
  with h'(2) show ?thesis by blast
qed

lemma advanced_shape:
  assumes "wheel_shape t" "ullStart t \<le> now"
  shows "wheel_shape (advanced t now)"
proof -
  note sh = wheel_shapeD [OF assms(1)]
  have "int (due_slots t now) - 1 \<le> int (unat now) - int (unat (ullStart t))"
  proof -
    have "due_slots t now \<le> unat now - unat (ullStart t) + 1" by (simp add: due_slots_def)
    moreover have "unat (ullStart t) \<le> unat now" using assms(2) by (simp add: word_le_nat_alt)
    ultimately show ?thesis by linarith
  qed
  then have "llStartIdx t + int (due_slots t now) - 1 \<le> uint now"
    using sh(5) unfolding of_nat_unat by linarith
  moreover have "0 < now" using sh(3) assms(2) by (rule less_le_trans)
  moreover have "1 \<le> int (due_slots t now)" using due_slots_bounds [OF assms(1), of now] by simp
  ultimately show ?thesis using sh by (simp add: wheel_shape_def advanced_def)
qed

lemma slot_at_advanced:
  assumes "wheel_shape t"
  shows "slot_at (advanced t now) d = slot_at t (due_slots t now - 1 + d)"
  using due_slots_bounds [OF assms, of now]
  by (simp add: slot_at_def advanced_def of_nat_diff algebra_simps)

lemma slot_at_wrap: "wheel_shape t \<Longrightarrow> slot_at t (nat (iItemSize t) + d) = slot_at t d"
  using wheel_shapeD(1) [of t] by (simp add: slot_at_def) (metis add.left_commute mod_add_self1)

lemma after_take_wheel_ok:
  assumes "wheel_ok ex t L" "ullStart t \<le> now" "r \<notin> slots t"
  shows "wheel_ok ex (advanced t now) (after_take t now r L)"
proof -
  let ?n = "due_slots t now" and ?s = "nat (iItemSize t)"
  have sh: "wheel_shape t" using assms(1) by (simp add: wheel_ok_def)
  note nb = due_slots_bounds [OF sh, of now]
  have "unat now + d \<le> unat (ex x)"
    if d: "d < ?s" and x: "x \<in> set (after_take t now r L (slot_at (advanced t now) d))" for d x
  proof -
    let ?k = "slot_at t (?n - 1 + d)"
    have ne: "?k \<noteq> r" using slot_at_in_slots [OF sh] assms(3) by metis
    have xk: "x \<in> set (L ?k)" and out: "?k \<notin> slot_at t ` {..<?n}"
      using x ne by (auto simp: slot_at_advanced [OF sh] after_take_def split: if_splits)
    have lt: "?n - 1 + d < ?s"
    proof (rule ccontr)
      assume "\<not> ?thesis"
      then have "?n - 1 + d = ?s + (?n - 1 + d - ?s)" by simp
      then have "?k = slot_at t (?n - 1 + d - ?s)" by (metis slot_at_wrap [OF sh])
      then have "?k \<in> slot_at t ` {..<?n}" using d nb by (intro image_eqI [of _ _ "?n - 1 + d - ?s"]) auto
      with out show False by simp
    qed
    have "?n \<le> ?n - 1 + d" using out nb by (auto simp: not_less [symmetric])
    with lt have "?n \<noteq> ?s" by linarith
    then have n: "?n = unat now - unat (ullStart t) + 1" unfolding due_slots_def by linarith
    have "unat (ullStart t) + (?n - 1 + d) \<le> unat (ex x)"
      using assms(1) lt xk by (auto simp: wheel_ok_def)
    then show ?thesis using n assms(2) by (simp add: word_le_nat_alt)
  qed
  then show ?thesis
    using advanced_shape [OF sh assms(2)] by (auto simp: wheel_ok_def advanced_def)
qed

lemma due_taken:
  assumes "wheel_ok ex t L" "x \<in> wheel_items t L" "ex x \<le> now"
  shows "x \<in> set (taken t now L)"
proof -
  have sh: "wheel_shape t" using assms(1) by (simp add: wheel_ok_def)
  from assms(2) obtain k where "k \<in> slots t" "x \<in> set (L k)" by (auto simp: wheel_items_def)
  with slots_covered [OF sh] obtain d where d: "d < nat (iItemSize t)" "x \<in> set (L (slot_at t d))" by metis
  then have "unat (ullStart t) + d \<le> unat now"
    using assms(1,3) by (fastforce simp: wheel_ok_def word_le_nat_alt)
  with d show ?thesis by (auto simp: taken_def due_slots_def)
qed

lemma taken_from_wheel: "wheel_shape t \<Longrightarrow> set (taken t now L) \<subseteq> wheel_items t L"
  using slot_at_in_slots [of t] by (auto simp: taken_def wheel_items_def)

lemma wheel_items_after_take:
  assumes "wheel_shape t" "links_ok L h" "r \<notin> slots t"
  shows "wheel_items t (after_take t now r L) = wheel_items t L - set (taken t now L)"
proof (intro set_eqI iffI)
  fix x assume "x \<in> wheel_items t (after_take t now r L)"
  then obtain k where k: "k \<in> slots t" "x \<in> set (L k)" "k \<notin> slot_at t ` {..<due_slots t now}"
    using assms(3) by (auto simp: wheel_items_def after_take_def split: if_splits)
  moreover have "x \<notin> set (taken t now L)"
  proof
    assume "x \<in> set (taken t now L)"
    then obtain i where i: "i < due_slots t now" "x \<in> set (L (slot_at t i))" by (auto simp: taken_def)
    from lnk.disjoint [OF assms(2) k(2) i(2)] i(1) k(3) show False by blast
  qed
  ultimately show "x \<in> wheel_items t L - set (taken t now L)" by (auto simp: wheel_items_def)
next
  fix x assume "x \<in> wheel_items t L - set (taken t now L)"
  then obtain k where "k \<in> slots t" "x \<in> set (L k)" "x \<notin> set (taken t now L)" by (auto simp: wheel_items_def)
  with assms(3) show "x \<in> wheel_items t (after_take t now r L)"
    by (auto simp: wheel_items_def after_take_def taken_def intro!: bexI [of _ k])
qed

section \<open>A clock that jumps\<close>

text \<open>
  \<open>cnt\<close> is an \<open>int\<close>: when more than \<open>2\<^sup>31 - 2\<close> milliseconds pass between two calls (the clock
  is the wall clock, so setting it forward is enough), the count is negative and nothing is taken.
\<close>

lemma TakeAllTimeout_stalls:
  assumes "wheel_shape t" and "now = ullStart t + of_nat m" and "unat (ullStart t) + m < 2 ^ 64"
    and "2 ^ 31 - 1 \<le> m" and "m < 2 ^ 32 - 1"
  shows "TakeAllTimeout t now r h = Inr (t, h)"
proof -
  note sh = wheel_shapeD [OF assms(1)]
  have u: "unat (of_nat m :: 64 word) = m" using assms(5) by (simp add: unsigned_of_nat take_bit_nat_eq_self)
  then have "unat now = unat (ullStart t) + m"
    using assms(2,3) unat_add_lem [of "ullStart t" "of_nat m"] by simp
  then have nl: "\<not> now < ullStart t" by (simp add: word_less_nat_alt)
  have "now - ullStart t + 1 = of_nat (m + 1)" using assms(2) by simp
  then have "elapsed t now = signed_take_bit 31 (take_bit 32 (uint (of_nat (m + 1) :: 64 word)))"
    by (simp only: elapsed_def sint_uint unsigned_ucast_eq) simp
  moreover have "uint (of_nat (m + 1) :: 64 word) = int (m + 1)"
    using assms(5) by (simp only: unsigned_of_nat) (simp add: take_bit_nat_eq_self)
  ultimately have "elapsed t now = signed_take_bit 31 (take_bit 32 (int (m + 1)))"
    by (simp only:)
  moreover have "take_bit 32 (int (m + 1)) = int (m + 1)" using assms(5) by (simp add: take_bit_int_eq_self)
  moreover have "signed_take_bit 31 (int (m + 1)) < 0"
  proof -
    have "(m + 1) div 2 ^ 31 = 1" using assms(4,5) by (intro div_nat_eqI) simp_all
    then have "int (m + 1) div 2 ^ 31 = 1" using zdiv_int [of "m + 1" "2 ^ 31"] by simp
    then have "odd (int (m + 1) div 2 ^ 31)" by simp
    then show ?thesis by (simp add: bit_iff_odd)
  qed
  ultimately have "elapsed t now < 0" by simp
  then show ?thesis using sh(1,6) nl by (simp add: TakeAllTimeout_def Let_def)
qed

end
