(* ===== verification/Co_Epoll.thy ===== *)
theory Co_Epoll
  imports Co_Timer
begin

text \<open>
  The event loop of libco and what waits in it (\<^verbatim>\<open>cocgi/libco/co_routine.cpp\<close>): the poll
  objects, the condition variables and a turn of \<open>co_eventloop\<close>. An item is a number; the lists
  it can be in are those of the wheel, the active list and the list of expired items. Resuming a
  coroutine is a function of the whole state, since the coroutine runs until it waits again.
\<close>

section \<open>Poll and epoll events\<close>

definition POLLIN :: "16 word" where "POLLIN = 0x1"
definition POLLOUT :: "16 word" where "POLLOUT = 0x4"
definition POLLERR :: "16 word" where "POLLERR = 0x8"
definition POLLHUP :: "16 word" where "POLLHUP = 0x10"
definition POLLRDNORM :: "16 word" where "POLLRDNORM = 0x40"
definition POLLWRNORM :: "16 word" where "POLLWRNORM = 0x100"

definition EPOLLIN :: "32 word" where "EPOLLIN = 0x1"
definition EPOLLOUT :: "32 word" where "EPOLLOUT = 0x4"
definition EPOLLERR :: "32 word" where "EPOLLERR = 0x8"
definition EPOLLHUP :: "32 word" where "EPOLLHUP = 0x10"
definition EPOLLRDNORM :: "32 word" where "EPOLLRDNORM = 0x40"
definition EPOLLWRNORM :: "32 word" where "EPOLLWRNORM = 0x100"

lemmas poll_flags = POLLIN_def POLLOUT_def POLLERR_def POLLHUP_def POLLRDNORM_def POLLWRNORM_def
  EPOLLIN_def EPOLLOUT_def EPOLLERR_def EPOLLHUP_def EPOLLRDNORM_def EPOLLWRNORM_def

definition PollEvent2Epoll :: "16 word \<Rightarrow> 32 word" where
  "PollEvent2Epoll events =
     (let e = 0;
          e = (if events AND POLLIN \<noteq> 0 then e OR EPOLLIN else e);
          e = (if events AND POLLOUT \<noteq> 0 then e OR EPOLLOUT else e);
          e = (if events AND POLLHUP \<noteq> 0 then e OR EPOLLHUP else e);
          e = (if events AND POLLERR \<noteq> 0 then e OR EPOLLERR else e);
          e = (if events AND POLLRDNORM \<noteq> 0 then e OR EPOLLRDNORM else e);
          e = (if events AND POLLWRNORM \<noteq> 0 then e OR EPOLLWRNORM else e)
      in e)"

definition EpollEvent2Poll :: "32 word \<Rightarrow> 16 word" where
  "EpollEvent2Poll events =
     (let e = 0;
          e = (if events AND EPOLLIN \<noteq> 0 then e OR POLLIN else e);
          e = (if events AND EPOLLOUT \<noteq> 0 then e OR POLLOUT else e);
          e = (if events AND EPOLLHUP \<noteq> 0 then e OR POLLHUP else e);
          e = (if events AND EPOLLERR \<noteq> 0 then e OR POLLERR else e);
          e = (if events AND EPOLLRDNORM \<noteq> 0 then e OR POLLRDNORM else e);
          e = (if events AND EPOLLWRNORM \<noteq> 0 then e OR POLLWRNORM else e)
      in e)"

section \<open>The state of the loop\<close>

text \<open>
  The parts of a \<open>stTimeoutItem_t\<close> besides its links. \<open>ti_poll\<close> is set for the items whose
  \<open>pfnPrepare\<close> is \<open>OnPollPreparePfn\<close>: the poll object an item reports to and its index there.
  Every \<open>pfnProcess\<close> of the file resumes the coroutine \<open>pArg\<close>. \<open>ce_epoll\<close> is the
  interest list of the epoll descriptor: the item and the events a descriptor is registered with.
\<close>

record titem =
  ullExpireTime :: "64 word"
  bTimeout :: bool
  has_process :: bool
  pArg :: nat
  ti_poll :: "(nat \<times> nat) option"

record stPoll_t =
  fds_revents :: "16 word list"
  iAllEventDetach :: bool
  iRaiseCnt :: int

record stCoEpoll_t =
  ce_heap :: lheap
  ce_item :: "nat \<Rightarrow> titem"
  ce_poll :: "nat \<Rightarrow> stPoll_t"
  pTimeout :: stTimeout_t
  pstTimeoutList :: nat
  pstActiveList :: nat
  ce_epoll :: "int \<rightharpoonup> nat \<times> 32 word"

type_synonym resumer = "nat \<Rightarrow> stCoEpoll_t \<Rightarrow> stCoEpoll_t res"

abbreviation expiry :: "stCoEpoll_t \<Rightarrow> nat \<Rightarrow> 64 word" where
  "expiry ctx x \<equiv> ullExpireTime (ce_item ctx x)"

definition AllocEpoll :: "lheap \<Rightarrow> (nat \<Rightarrow> titem) \<Rightarrow> (nat \<Rightarrow> stPoll_t) \<Rightarrow> nat \<Rightarrow> 64 word \<Rightarrow> stCoEpoll_t" where
  "AllocEpoll h items polls base now =
     \<lparr>ce_heap = h, ce_item = items, ce_poll = polls, pTimeout = AllocTimeout base 60000 now,
      pstTimeoutList = base + 60000, pstActiveList = base + 60001, ce_epoll = Map.empty\<rparr>"

section \<open>A turn of the event loop\<close>

definition OnPollPreparePfn :: "nat \<Rightarrow> nat \<Rightarrow> 32 word \<Rightarrow> nat \<Rightarrow> stCoEpoll_t \<Rightarrow> stCoEpoll_t res" where
  "OnPollPreparePfn p i events active ctx =
     (let pl = ce_poll ctx p;
          pl = pl\<lparr>fds_revents := (fds_revents pl)[i := EpollEvent2Poll events], iRaiseCnt := iRaiseCnt pl + 1\<rparr>
      in if iAllEventDetach pl then Inr (ctx\<lparr>ce_poll := (ce_poll ctx)(p := pl)\<rparr>)
         else bind_res (RemoveFromLink p (ce_heap ctx)) (\<lambda>h.
           Inr (ctx\<lparr>ce_poll := (ce_poll ctx)(p := pl\<lparr>iAllEventDetach := True\<rparr>),
                    ce_heap := AddTail active p h\<rparr>)))"

definition prepare_event :: "stCoEpoll_t \<Rightarrow> nat \<times> 32 word \<Rightarrow> stCoEpoll_t res" where
  "prepare_event ctx ev =
     (case ti_poll (ce_item ctx (fst ev)) of
        Some (p, i) \<Rightarrow> OnPollPreparePfn p i (snd ev) (pstActiveList ctx) ctx
      | None \<Rightarrow> Inr (ctx\<lparr>ce_heap := AddTail (pstActiveList ctx) (fst ev) (ce_heap ctx)\<rparr>))"

text \<open>The loop that marks the expired items.\<close>

partial_function (option) mark_timeout ::
    "lheap \<Rightarrow> nat option \<Rightarrow> (nat \<Rightarrow> titem) \<Rightarrow> (nat \<Rightarrow> titem) option" where
  [code]: "mark_timeout h cur items =
     (case cur of
        None \<Rightarrow> Some items
      | Some lp \<Rightarrow> mark_timeout h (pNext h lp) (items(lp := (items lp)\<lparr>bTimeout := True\<rparr>)))"

definition process_item :: "resumer \<Rightarrow> nat \<Rightarrow> stCoEpoll_t \<Rightarrow> stCoEpoll_t res" where
  "process_item resume lp ctx = (if has_process (ce_item ctx lp) then resume (pArg (ce_item ctx lp)) ctx else Inr ctx)"

text \<open>
  One round of the loop over the active list. The first component of the result is the item that
  was processed; an item that is not due yet goes back into the wheel instead.
\<close>

definition active_step :: "resumer \<Rightarrow> 64 word \<Rightarrow> nat \<Rightarrow> stCoEpoll_t \<Rightarrow> (nat list \<times> stCoEpoll_t) res" where
  "active_step resume now lp ctx0 =
     (let ctx = ctx0\<lparr>ce_heap := PopHead (pstActiveList ctx0) (ce_heap ctx0)\<rparr>;
          it = ce_item ctx lp;
          process = (\<lambda>ctx. bind_res (process_item resume lp ctx) (\<lambda>ctx'. Inr ([lp], ctx')))
      in if bTimeout it \<and> now < ullExpireTime it then
           (case AddTimeout (pTimeout ctx) lp (ullExpireTime it) now (ce_heap ctx) of (ret, t, h) \<Rightarrow>
              let ctx = ctx\<lparr>pTimeout := t, ce_heap := h\<rparr>
              in if ret = 0 then Inr ([], ctx\<lparr>ce_item := (ce_item ctx)(lp := it\<lparr>bTimeout := False\<rparr>)\<rparr>)
                 else process ctx)
         else process ctx)"

partial_function (option) run_active ::
    "resumer \<Rightarrow> 64 word \<Rightarrow> nat list \<Rightarrow> stCoEpoll_t \<Rightarrow> (nat list \<times> stCoEpoll_t) res option" where
  [code]: "run_active resume now fired ctx =
     (case l_head (ce_heap ctx) (pstActiveList ctx) of
        None \<Rightarrow> Some (Inr (fired, ctx))
      | Some lp \<Rightarrow>
          (case active_step resume now lp ctx of
             Inl e \<Rightarrow> Some (Inl e)
           | Inr r \<Rightarrow> run_active resume now (fired @ fst r) (snd r)))"

text \<open>
  A turn: the ready events, the expired items and then the active list. \<open>now\<close> is the clock after
  the wait. The \<open>memset\<close> of the list of expired items is the first step.
\<close>

definition eventloop_turn ::
    "resumer \<Rightarrow> (nat \<times> 32 word) list \<Rightarrow> 64 word \<Rightarrow> stCoEpoll_t \<Rightarrow> (nat list \<times> stCoEpoll_t) res" where
  "eventloop_turn resume events now ctx0 =
     bind_res (run_all prepare_event
         (ctx0\<lparr>ce_heap := set_head (pstTimeoutList ctx0) None (set_tail (pstTimeoutList ctx0) None (ce_heap ctx0))\<rparr>)
         events) (\<lambda>ctx1.
     bind_res (TakeAllTimeout (pTimeout ctx1) now (pstTimeoutList ctx1) (ce_heap ctx1)) (\<lambda>(t, h).
     (case mark_timeout h (l_head h (pstTimeoutList ctx1)) (ce_item ctx1) of
        None \<Rightarrow> Inl No_return
      | Some items \<Rightarrow>
          bind_res (Join (pstActiveList ctx1) (pstTimeoutList ctx1) h) (\<lambda>h'.
          (case run_active resume now [] (ctx1\<lparr>pTimeout := t, ce_heap := h', ce_item := items\<rparr>) of
             None \<Rightarrow> Inl No_return
           | Some r \<Rightarrow> r)))))"

text \<open>
  The loop over given turns: the ready events, the clock, and what the callback \<open>pfn\<close> returns, if
  there is one. The result says whether the callback ended the loop.
\<close>

fun co_eventloop ::
    "resumer \<Rightarrow> ((nat \<times> 32 word) list \<times> 64 word \<times> int option) list \<Rightarrow> stCoEpoll_t \<Rightarrow>
     (bool \<times> nat list \<times> stCoEpoll_t) res" where
  "co_eventloop resume [] ctx = Inr (False, [], ctx)"
| "co_eventloop resume ((events, now, pfn) # turns) ctx =
     bind_res (eventloop_turn resume events now ctx) (\<lambda>(fired, ctx').
       if pfn = Some (-1) then Inr (True, fired, ctx')
       else bind_res (co_eventloop resume turns ctx') (\<lambda>(ended, fired', ctx''). Inr (ended, fired @ fired', ctx'')))"

section \<open>Events keep their meaning\<close>

lemma and_flag: "(w :: 'a::len word) AND 2 ^ k = (if bit w k then 2 ^ k else 0)"
  by (rule bit_word_eqI) (auto simp: bit_and_iff bit_exp_iff)

lemma poll_flag_bits:
  "e AND POLLIN = (if bit e 0 then POLLIN else 0)" "e AND POLLOUT = (if bit e 2 then POLLOUT else 0)"
  "e AND POLLERR = (if bit e 3 then POLLERR else 0)" "e AND POLLHUP = (if bit e 4 then POLLHUP else 0)"
  "e AND POLLRDNORM = (if bit e 6 then POLLRDNORM else 0)" "e AND POLLWRNORM = (if bit e 8 then POLLWRNORM else 0)"
  using and_flag [of e 0] and_flag [of e 2] and_flag [of e 3] and_flag [of e 4] and_flag [of e 6] and_flag [of e 8]
  by (simp_all add: poll_flags)

lemma epoll_events_roundtrip:
  "EpollEvent2Poll (PollEvent2Epoll e) =
     e AND (POLLIN OR POLLOUT OR POLLERR OR POLLHUP OR POLLRDNORM OR POLLWRNORM)"
  unfolding bit.conj_disj_distrib poll_flag_bits PollEvent2Epoll_def
  by (simp add: poll_flags EpollEvent2Poll_def Let_def)

section \<open>The invariant of the loop\<close>

definition ctx_ok :: "(nat \<Rightarrow> nat list) \<Rightarrow> stCoEpoll_t \<Rightarrow> bool" where
  "ctx_ok L ctx \<longleftrightarrow> links_ok L (ce_heap ctx) \<and> wheel_ok (expiry ctx) (pTimeout ctx) L \<and>
     pstActiveList ctx \<notin> slots (pTimeout ctx) \<and> pstTimeoutList ctx \<notin> slots (pTimeout ctx) \<and>
     pstActiveList ctx \<noteq> pstTimeoutList ctx \<and> L (pstTimeoutList ctx) = []"

abbreviation waiting :: "stCoEpoll_t \<Rightarrow> (nat \<Rightarrow> nat list) \<Rightarrow> nat set" where
  "waiting ctx L \<equiv> wheel_items (pTimeout ctx) L"

abbreviation active :: "stCoEpoll_t \<Rightarrow> (nat \<Rightarrow> nat list) \<Rightarrow> nat list" where
  "active ctx L \<equiv> L (pstActiveList ctx)"

lemma ctx_okD:
  assumes "ctx_ok L ctx"
  shows "links_ok L (ce_heap ctx)" "wheel_ok (expiry ctx) (pTimeout ctx) L" "wheel_shape (pTimeout ctx)"
    "pstActiveList ctx \<notin> slots (pTimeout ctx)" "pstTimeoutList ctx \<notin> slots (pTimeout ctx)"
    "pstActiveList ctx \<noteq> pstTimeoutList ctx" "L (pstTimeoutList ctx) = []"
  using assms by (simp_all add: ctx_ok_def wheel_ok_def)

lemma wheel_ok_mono:
  assumes "wheel_ok ex t L" and "\<And>k. k \<in> slots t \<Longrightarrow> set (L' k) \<subseteq> set (L k)"
  shows "wheel_ok ex t L'"
proof -
  have sh: "wheel_shape t" using assms(1) by (simp add: wheel_ok_def)
  have "x \<in> set (L (slot_at t d))" if "x \<in> set (L' (slot_at t d))" for x d
    using that assms(2) [OF slot_at_in_slots [OF sh]] by blast
  then show ?thesis using assms(1) by (auto simp: wheel_ok_def)
qed

lemma wheel_items_cong:
  "slots t' = slots t \<Longrightarrow> (\<And>k. k \<in> slots t \<Longrightarrow> L' k = L k) \<Longrightarrow> wheel_items t' L' = wheel_items t L"
  by (simp add: wheel_items_def)

definition marked :: "nat list \<Rightarrow> (nat \<Rightarrow> titem) \<Rightarrow> nat \<Rightarrow> titem" where
  "marked xs items x = (if x \<in> set xs then (items x)\<lparr>bTimeout := True\<rparr> else items x)"

lemma mark_timeout_ok:
  "seg h p xs None \<Longrightarrow> distinct xs \<Longrightarrow>
   mark_timeout h (hd_opt xs) items = Some (marked xs items)"
proof (induction xs arbitrary: p items)
  case Nil
  then show ?case by (simp add: mark_timeout.simps marked_def fun_eq_iff)
next
  case (Cons x xs)
  then have "pNext h x = hd_opt xs" "seg h (Some x) xs None" by (auto split: if_splits)
  with Cons show ?case by (subst mark_timeout.simps) (auto simp: marked_def fun_eq_iff)
qed

text \<open>
  What the loop relies on of a resumed coroutine: it registers new waits in the wheel and keeps the
  items that other coroutines wait on.
\<close>

definition resume_ok :: "resumer \<Rightarrow> bool" where
  "resume_ok resume \<longleftrightarrow> (\<forall>c L ctx. ctx_ok L ctx \<longrightarrow> res_ok (resume c ctx) (\<lambda>ctx'.
     pTimeout ctx' = pTimeout ctx \<and> pstActiveList ctx' = pstActiveList ctx \<and>
     (\<exists>L'. ctx_ok L' ctx' \<and> active ctx L' = active ctx L \<and> waiting ctx L \<subseteq> waiting ctx L') \<and>
     (\<forall>x \<in> set (active ctx L). ce_item ctx' x = ce_item ctx x)))"

definition fires :: "64 word \<Rightarrow> titem \<Rightarrow> bool" where
  "fires now it \<longleftrightarrow> \<not> (bTimeout it \<and> now < ullExpireTime it)"

lemma active_step_fires:
  assumes "ctx_ok L ctx" "active ctx L = x # xs" "resume_ok resume" "fires now (ce_item ctx x)"
  shows "res_ok (active_step resume now x ctx) (\<lambda>(fired, ctx'). fired = [x] \<and> pTimeout ctx' = pTimeout ctx \<and>
    pstActiveList ctx' = pstActiveList ctx \<and> (\<forall>y \<in> set xs. ce_item ctx' y = ce_item ctx y) \<and>
    (\<exists>L'. ctx_ok L' ctx' \<and> active ctx L' = xs \<and> waiting ctx L \<subseteq> waiting ctx L'))"
proof -
  note ok = ctx_okD [OF assms(1)]
  let ?a = "pstActiveList ctx"
  let ?c = "ctx\<lparr>ce_heap := PopHead ?a (ce_heap ctx)\<rparr>" and ?L = "L(?a := xs)"
  have "wheel_ok (expiry ctx) (pTimeout ctx) ?L" using ok(4) by (intro wheel_ok_mono [OF ok(2)]) auto
  then have popped: "ctx_ok ?L ?c"
    using ok assms(2) lnk.pop [OF ok(1), of ?a] by (simp add: ctx_ok_def)
  have w: "waiting ctx ?L = waiting ctx L" using ok(4) by (intro wheel_items_cong) auto
  have step: "active_step resume now x ctx = bind_res (process_item resume x ?c) (\<lambda>c'. Inr ([x], c'))"
    using assms(4) by (auto simp: active_step_def Let_def fires_def)
  show ?thesis
  proof (cases "has_process (ce_item ctx x)")
    case False
    then show ?thesis using popped w by (auto simp: step process_item_def)
  next
    case proc: True
    have "res_ok (resume (pArg (ce_item ctx x)) ?c) (\<lambda>ctx'. pTimeout ctx' = pTimeout ctx \<and> pstActiveList ctx' = ?a \<and>
      (\<exists>L'. ctx_ok L' ctx' \<and> L' ?a = xs \<and> waiting ctx L \<subseteq> waiting ctx L') \<and>
      (\<forall>y \<in> set xs. ce_item ctx' y = ce_item ctx y))"
      using assms(3) [unfolded resume_ok_def, rule_format, OF popped, of "pArg (ce_item ctx x)"] w by simp
    then show ?thesis using proc by (auto simp: step process_item_def elim!: res_okE)
  qed
qed

lemma active_step_postpones:
  assumes "ctx_ok L ctx" "active ctx L = x # xs" "ullStart (pTimeout ctx) \<le> now" "\<not> fires now (ce_item ctx x)"
  shows "res_ok (active_step resume now x ctx) (\<lambda>(fired, ctx'). fired = [] \<and> pTimeout ctx' = pTimeout ctx \<and>
    pstActiveList ctx' = pstActiveList ctx \<and> (\<forall>y \<in> set xs. ce_item ctx' y = ce_item ctx y) \<and>
    (\<exists>L'. ctx_ok L' ctx' \<and> active ctx L' = xs \<and> insert x (waiting ctx L) \<subseteq> waiting ctx L'))"
proof -
  note ok = ctx_okD [OF assms(1)]
  let ?a = "pstActiveList ctx" and ?t = "pTimeout ctx"
  let ?s = "slot_at ?t (ahead ?t (expiry ctx x))"
  let ?L = "L(?a := xs, ?s := L ?s @ [x])"
  define c' where "c' = ctx\<lparr>ce_heap := AddTail ?s x (PopHead ?a (ce_heap ctx)),
    ce_item := (ce_item ctx)(x := (ce_item ctx x)\<lparr>bTimeout := False\<rparr>)\<rparr>"
  have x: "x \<notin> set xs" using lnk.distinct [OF ok(1), of ?a] assms(2) by simp
  have now: "now \<le> expiry ctx x" using assms(4) by (auto simp: fires_def)
  have ne: "?a \<noteq> ?s" "pstTimeoutList ctx \<noteq> ?s" using ok(4,5) slot_at_in_slots [OF ok(3)] by metis+
  have "links_ok ?L (ce_heap c')"
    using lnk.pop_add [OF ok(1) assms(2) ne(1)] by (simp add: c'_def)
  moreover have "wheel_ok (expiry ctx) ?t ?L"
  proof (rule wheel_ok_mono)
    show "wheel_ok (expiry ctx) ?t (L(?s := L ?s @ [x]))"
      using wheel_ok_add [OF ok(2), of x] assms(3) now by simp
  qed (use ok(4) in auto)
  moreover have "expiry c' = expiry ctx" by (auto simp: c'_def)
  ultimately have "ctx_ok ?L c'" using ok ne by (simp add: ctx_ok_def) (simp add: c'_def)
  moreover have "active_step resume now x ctx = Inr ([], c')"
    using assms(4)
    by (simp add: active_step_def Let_def fires_def AddTimeout_result [OF ok(3) assms(3) now] c'_def)
  moreover have "insert x (waiting ctx L) \<subseteq> waiting ctx ?L"
  proof -
    have "waiting ctx ?L = waiting ctx (L(?s := L ?s @ [x]))" using ok(4) by (intro wheel_items_cong) auto
    then show ?thesis by (simp add: wheel_items_add [OF ok(3)])
  qed
  moreover have "?L ?a = xs" using ne by simp
  moreover have "pTimeout c' = ?t" "pstActiveList c' = ?a" "\<forall>y \<in> set xs. ce_item c' y = ce_item ctx y"
    using x by (auto simp: c'_def)
  ultimately show ?thesis by (auto simp del: fun_upd_apply)
qed

lemma active_step_ok:
  assumes "ctx_ok L ctx" "active ctx L = x # xs" "ullStart (pTimeout ctx) \<le> now" "resume_ok resume"
  shows "res_ok (active_step resume now x ctx) (\<lambda>(fired, ctx').
    fired = (if fires now (ce_item ctx x) then [x] else []) \<and> pTimeout ctx' = pTimeout ctx \<and>
    pstActiveList ctx' = pstActiveList ctx \<and> (\<forall>y \<in> set xs. ce_item ctx' y = ce_item ctx y) \<and>
    (\<exists>L'. ctx_ok L' ctx' \<and> active ctx L' = xs \<and>
       (if fires now (ce_item ctx x) then {} else {x}) \<union> waiting ctx L \<subseteq> waiting ctx L'))"
  using active_step_fires [OF assms(1,2,4), of now] active_step_postpones [OF assms(1-3), of resume]
  by (cases "fires now (ce_item ctx x)") simp_all

lemma run_active_ok:
  assumes "ctx_ok L ctx" "active ctx L = xs" "ullStart (pTimeout ctx) \<le> now" "resume_ok resume"
  shows "\<exists>ctx' L'. run_active resume now fired ctx = Some (Inr (fired @ filter (\<lambda>x. fires now (ce_item ctx x)) xs, ctx'))
    \<and> ctx_ok L' ctx' \<and> active ctx' L' = [] \<and> pTimeout ctx' = pTimeout ctx
    \<and> {x \<in> set xs. \<not> fires now (ce_item ctx x)} \<union> waiting ctx L \<subseteq> waiting ctx L'"
  using assms
proof (induction xs arbitrary: L ctx fired)
  case Nil
  then show ?case
    using ctx_okD(1) [OF Nil.prems(1)] by (subst run_active.simps) (auto simp: links_okD)
next
  case (Cons x xs)
  from active_step_ok [OF Cons.prems]
  obtain ctx' L' where step: "active_step resume now x ctx = Inr (if fires now (ce_item ctx x) then [x] else [], ctx')"
    and t: "pTimeout ctx' = pTimeout ctx" and a: "pstActiveList ctx' = pstActiveList ctx"
    and items: "\<forall>y \<in> set xs. ce_item ctx' y = ce_item ctx y"
    and L': "ctx_ok L' ctx'" "active ctx L' = xs"
    and w: "(if fires now (ce_item ctx x) then {} else {x}) \<union> waiting ctx L \<subseteq> waiting ctx L'" by auto
  have hd: "l_head (ce_heap ctx) (pstActiveList ctx) = Some x"
    using links_okD(3) [OF ctx_okD(1) [OF Cons.prems(1)]] Cons.prems(2) by simp
  have fl: "filter (\<lambda>x. fires now (ce_item ctx' x)) xs = filter (\<lambda>x. fires now (ce_item ctx x)) xs"
    using items by (intro filter_cong) auto
  from Cons.IH [of L' ctx' "fired @ (if fires now (ce_item ctx x) then [x] else [])"] L' t a Cons.prems(3,4)
  obtain ctx'' L'' where rest: "run_active resume now (fired @ (if fires now (ce_item ctx x) then [x] else [])) ctx' =
      Some (Inr ((fired @ (if fires now (ce_item ctx x) then [x] else [])) @ filter (\<lambda>x. fires now (ce_item ctx' x)) xs, ctx''))"
    and L'': "ctx_ok L'' ctx''" "active ctx'' L'' = []" "pTimeout ctx'' = pTimeout ctx"
    and w': "{x \<in> set xs. \<not> fires now (ce_item ctx' x)} \<union> waiting ctx L' \<subseteq> waiting ctx L''" by auto
  have "{y \<in> set (x # xs). \<not> fires now (ce_item ctx y)} \<union> waiting ctx L \<subseteq> waiting ctx L''"
    using w w' items by (auto split: if_splits)
  moreover have "run_active resume now fired ctx =
      Some (Inr (fired @ filter (\<lambda>x. fires now (ce_item ctx x)) (x # xs), ctx''))"
    using rest hd step fl by (subst run_active.simps) auto
  ultimately show ?case using L'' by blast
qed

section \<open>A whole turn\<close>

text \<open>
  What the loop over the ready events does: the object of each event becomes active, and every other
  item stays where it is.
\<close>

definition event_target :: "(nat \<Rightarrow> titem) \<Rightarrow> nat \<times> 32 word \<Rightarrow> nat" where
  "event_target items ev = (case ti_poll (items (fst ev)) of Some (p, i) \<Rightarrow> p | None \<Rightarrow> fst ev)"

definition prepared ::
    "stCoEpoll_t \<Rightarrow> (nat \<Rightarrow> nat list) \<Rightarrow> (nat \<times> 32 word) list \<Rightarrow> stCoEpoll_t \<Rightarrow> (nat \<Rightarrow> nat list) \<Rightarrow> bool" where
  "prepared ctx L evs ctx' L' \<longleftrightarrow> ce_item ctx' = ce_item ctx \<and> pTimeout ctx' = pTimeout ctx \<and>
     pstActiveList ctx' = pstActiveList ctx \<and> pstTimeoutList ctx' = pstTimeoutList ctx \<and> ctx_ok L' ctx' \<and>
     set (active ctx L) \<subseteq> set (active ctx L') \<and> waiting ctx L \<subseteq> waiting ctx L' \<union> set (active ctx L') \<and>
     set (active ctx L') \<subseteq> set (active ctx L) \<union> event_target (ce_item ctx) ` set evs \<and>
     (\<forall>p. iAllEventDetach (ce_poll ctx p) \<longrightarrow> iAllEventDetach (ce_poll ctx' p)) \<and>
     (\<forall>p. iAllEventDetach (ce_poll ctx' p) \<longrightarrow> iAllEventDetach (ce_poll ctx p) \<or> p \<in> set (active ctx L')) \<and>
     (\<forall>ev \<in> set evs. \<forall>p i. ti_poll (ce_item ctx (fst ev)) = Some (p, i) \<longrightarrow> iAllEventDetach (ce_poll ctx' p))"

lemma prepared_Nil: "ctx_ok L ctx \<Longrightarrow> prepared ctx L [] ctx L"
  by (simp add: prepared_def)

lemma prepared_Cons:
  assumes "prepared ctx L [ev] ctx1 L1" and "prepared ctx1 L1 evs ctx2 L2"
  shows "prepared ctx L (ev # evs) ctx2 L2"
  using assms unfolding prepared_def by simp blast

lemma prepare_unlinked:
  assumes "ctx_ok L ctx" "pLink (ce_heap ctx) x = None"
  shows "ctx_ok (L(pstActiveList ctx := active ctx L @ [x]))
    (ctx\<lparr>ce_heap := AddTail (pstActiveList ctx) x (ce_heap ctx)\<rparr>)"
proof -
  note ok = ctx_okD [OF assms(1)]
  have "wheel_ok (expiry ctx) (pTimeout ctx) (L(pstActiveList ctx := active ctx L @ [x]))"
    using ok(4) by (intro wheel_ok_mono [OF ok(2)]) auto
  then show ?thesis using ok lnk.add_tail [OF ok(1) assms(2), of "pstActiveList ctx"] by (simp add: ctx_ok_def)
qed

lemma prepare_poll:
  assumes "ctx_ok L ctx" "\<not> iAllEventDetach (ce_poll ctx p)"
    and poll: "ti_poll (ce_item ctx (fst ev)) = Some (p, i)"
  shows "res_ok (prepare_event ctx ev) (\<lambda>ctx'. \<exists>L'. prepared ctx L [ev] ctx' L')"
proof -
  note ok = ctx_okD [OF assms(1)]
  let ?a = "pstActiveList ctx" and ?pl = "ce_poll ctx p"
  let ?L = "(\<lambda>k. filter (\<lambda>y. y \<noteq> p) (L k))(?a := filter (\<lambda>y. y \<noteq> p) (L ?a) @ [p])"
  from lnk.move [OF ok(1), of p ?a] obtain h' where
    h': "RemoveFromLink p (ce_heap ctx) = Inr h'" "links_ok ?L (AddTail ?a p h')"
    by (auto simp: res_ok_def res_simps)
  define ctx' where "ctx' = ctx\<lparr>ce_poll := (ce_poll ctx)(p := ?pl\<lparr>fds_revents :=
      (fds_revents ?pl)[i := EpollEvent2Poll (snd ev)], iRaiseCnt := iRaiseCnt ?pl + 1, iAllEventDetach := True\<rparr>),
    ce_heap := AddTail ?a p h'\<rparr>"
  have "wheel_ok (expiry ctx) (pTimeout ctx) ?L" using ok(4) by (intro wheel_ok_mono [OF ok(2)]) auto
  then have "ctx_ok ?L ctx'" using h'(2) ok by (simp add: ctx_ok_def ctx'_def)
  moreover have "waiting ctx L \<subseteq> waiting ctx ?L \<union> set (?L ?a)" using ok(4) by (auto simp: wheel_items_def)
  ultimately have "prepared ctx L [ev] ctx' ?L"
    using poll by (auto simp: prepared_def ctx'_def event_target_def)
  moreover have "prepare_event ctx ev = Inr ctx'"
    using assms(2) poll h'(1) by (simp add: prepare_event_def OnPollPreparePfn_def Let_def ctx'_def)
  ultimately show ?thesis by auto
qed

lemma prepare_event_ok:
  assumes "ctx_ok L ctx"
  shows "res_ok (prepare_event ctx ev) (\<lambda>ctx'. \<exists>L'. prepared ctx L [ev] ctx' L')"
proof (cases "ti_poll (ce_item ctx (fst ev))")
  case None
  show ?thesis
  proof (cases "pLink (ce_heap ctx) (fst ev)")
    case unlinked: None
    let ?L = "L(pstActiveList ctx := active ctx L @ [fst ev])"
    have "waiting ctx ?L = waiting ctx L" using ctx_okD(4) [OF assms] by (intro wheel_items_cong) auto
    with prepare_unlinked [OF assms unlinked] None
    have "prepared ctx L [ev] (ctx\<lparr>ce_heap := AddTail (pstActiveList ctx) (fst ev) (ce_heap ctx)\<rparr>) ?L"
      by (auto simp: prepared_def event_target_def)
    with None show ?thesis by (auto simp: prepare_event_def)
  next
    case (Some l)
    with None assms have "prepare_event ctx ev = Inr ctx" "prepared ctx L [ev] ctx L"
      by (auto simp: prepare_event_def AddTail_linked prepared_def)
    then show ?thesis by auto
  qed
next
  case (Some pi)
  then obtain p i where pi: "ti_poll (ce_item ctx (fst ev)) = Some (p, i)" by (cases pi) simp
  show ?thesis
  proof (cases "iAllEventDetach (ce_poll ctx p)")
    case True
    with pi assms show ?thesis
      by (auto simp: prepare_event_def OnPollPreparePfn_def Let_def prepared_def ctx_ok_def)
  qed (rule prepare_poll [OF assms _ pi])
qed

lemma prepare_events_ok:
  assumes "ctx_ok L ctx"
  shows "res_ok (run_all prepare_event ctx evs) (\<lambda>ctx'. \<exists>L'. prepared ctx L evs ctx' L')"
  using assms
proof (induction evs arbitrary: L ctx)
  case Nil
  then show ?case using prepared_Nil by auto
next
  case (Cons ev evs)
  show ?case unfolding run_all.simps
  proof (rule res_ok_bind [OF prepare_event_ok [OF Cons.prems, of ev]], elim exE)
    fix ctx1 L1 assume 1: "prepared ctx L [ev] ctx1 L1"
    then have "ctx_ok L1 ctx1" by (simp add: prepared_def)
    from Cons.IH [OF this] show "res_ok (run_all prepare_event ctx1 evs) (\<lambda>ctx'. \<exists>L'. prepared ctx L (ev # evs) ctx' L')"
      by (rule res_ok_mono) (use prepared_Cons [OF 1] in blast)
  qed
qed

lemma clear_timeout_list:
  assumes "ctx_ok L ctx"
  shows "ctx\<lparr>ce_heap := set_head (pstTimeoutList ctx) None (set_tail (pstTimeoutList ctx) None (ce_heap ctx))\<rparr> = ctx"
  using links_okD(3,4) [OF ctx_okD(1) [OF assms], of "pstTimeoutList ctx"] ctx_okD(7) [OF assms]
  by (simp add: set_defs fun_upd_idem)

text \<open>The state in which the loop over the active list starts.\<close>

lemma expired_to_active:
  assumes "ctx_ok L ctx" "ullStart (pTimeout ctx) \<le> now" "unat now - unat (ullStart (pTimeout ctx)) < 2 ^ 31 - 1"
  defines "due \<equiv> taken (pTimeout ctx) now L"
  shows "\<exists>h1 h2 L2.
    TakeAllTimeout (pTimeout ctx) now (pstTimeoutList ctx) (ce_heap ctx) = Inr (advanced (pTimeout ctx) now, h1) \<and>
    mark_timeout h1 (l_head h1 (pstTimeoutList ctx)) (ce_item ctx) = Some (marked due (ce_item ctx)) \<and>
    Join (pstActiveList ctx) (pstTimeoutList ctx) h1 = Inr h2 \<and>
    ctx_ok L2 (ctx\<lparr>pTimeout := advanced (pTimeout ctx) now, ce_heap := h2, ce_item := marked due (ce_item ctx)\<rparr>) \<and>
    active ctx L2 = active ctx L @ due \<and> waiting ctx L - set due \<subseteq> wheel_items (advanced (pTimeout ctx) now) L2"
proof -
  note ok = ctx_okD [OF assms(1)]
  let ?t = "pTimeout ctx" and ?a = "pstActiveList ctx" and ?l = "pstTimeoutList ctx"
  let ?L1 = "after_take ?t now ?l L"
  let ?L2 = "?L1(?a := ?L1 ?a @ ?L1 ?l, ?l := [])"
  let ?items = "marked due (ce_item ctx)"
  from TakeAllTimeout_ok [OF ok(1,3) assms(2,3) ok(5)] obtain h1 where
    take: "TakeAllTimeout ?t now ?l (ce_heap ctx) = Inr (advanced ?t now, h1)" "links_ok ?L1 h1" by blast
  have lists: "?L1 ?l = due" "?L1 ?a = L ?a"
    using ok(4,6,7) slot_at_in_slots [OF ok(3)] by (auto simp: after_take_def due_def)
  have mark: "mark_timeout h1 (l_head h1 ?l) (ce_item ctx) = Some ?items"
    using mark_timeout_ok [OF links_okD(2) [OF take(2)] links_okD(1) [OF take(2)], of ?l] links_okD(3) [OF take(2), of ?l]
    by (simp add: lists)
  from lnk.join [OF take(2) ok(6)] obtain h2 where join: "Join ?a ?l h1 = Inr h2" "links_ok ?L2 h2" by auto
  have "wheel_ok (expiry ctx) (advanced ?t now) ?L2"
    using ok(4) by (intro wheel_ok_mono [OF after_take_wheel_ok [OF ok(2) assms(2) ok(5)]]) auto
  moreover have "(\<lambda>x. ullExpireTime (?items x)) = expiry ctx" by (auto simp: marked_def)
  ultimately have "ctx_ok ?L2 (ctx\<lparr>pTimeout := advanced ?t now, ce_heap := h2, ce_item := ?items\<rparr>)"
    using join(2) ok(4-6) unfolding ctx_ok_def by simp
  moreover have "waiting ctx L - set due \<subseteq> wheel_items (advanced ?t now) ?L2"
  proof -
    have "wheel_items (advanced ?t now) ?L2 = waiting ctx ?L1" using ok(4,5) by (intro wheel_items_cong) auto
    then show ?thesis using wheel_items_after_take [OF ok(3,1,5), of now] by (simp add: due_def)
  qed
  ultimately show ?thesis
    using take(1) mark join(1) lists ok(6) by (intro exI [of _ h1] exI [of _ h2] exI [of _ ?L2]) simp
qed

lemma eventloop_turn_result:
  assumes "ctx_ok L ctx" "resume_ok resume" "ullStart (pTimeout ctx) \<le> now"
    and "unat now - unat (ullStart (pTimeout ctx)) < 2 ^ 31 - 1"
  obtains ctx1 L1 ctx' L' where "prepared ctx L events ctx1 L1" "ctx_ok L' ctx'" "active ctx' L' = []"
    and "eventloop_turn resume events now ctx = Inr
      (filter (\<lambda>x. fires now (ce_item ctx x)) (active ctx L1) @
       filter (\<lambda>x. expiry ctx x \<le> now) (taken (pTimeout ctx) now L1), ctx')"
    and "{x \<in> waiting ctx L1. x \<notin> set (taken (pTimeout ctx) now L1) \<or> now < expiry ctx x} \<subseteq> waiting ctx' L'"
proof -
  from prepare_events_ok [OF assms(1), of events] obtain ctx1 L1
    where run: "run_all prepare_event ctx events = Inr ctx1" and prep: "prepared ctx L events ctx1 L1" by auto
  then have same: "ce_item ctx1 = ce_item ctx" "pTimeout ctx1 = pTimeout ctx"
      "pstActiveList ctx1 = pstActiveList ctx" "ctx_ok L1 ctx1" by (simp_all add: prepared_def)
  note ok = ctx_okD [OF same(4)]
  let ?due = "taken (pTimeout ctx) now L1" and ?t = "advanced (pTimeout ctx) now"
  let ?items = "marked ?due (ce_item ctx)"
  from expired_to_active [OF same(4), of now, unfolded same(1-3), OF assms(3,4)] obtain h1 h2 L2 where
    take: "TakeAllTimeout (pTimeout ctx) now (pstTimeoutList ctx1) (ce_heap ctx1) = Inr (?t, h1)"
      "mark_timeout h1 (l_head h1 (pstTimeoutList ctx1)) (ce_item ctx) = Some ?items"
      "Join (pstActiveList ctx) (pstTimeoutList ctx1) h1 = Inr h2"
    and L2: "ctx_ok L2 (ctx1\<lparr>pTimeout := ?t, ce_heap := h2, ce_item := ?items\<rparr>)"
      "active ctx L2 = active ctx L1 @ ?due" "waiting ctx L1 - set ?due \<subseteq> wheel_items ?t L2"
    by blast
  define ctx2 where "ctx2 = ctx1\<lparr>pTimeout := ?t, ce_heap := h2, ce_item := ?items\<rparr>"
  have ctx2: "ctx_ok L2 ctx2" "active ctx2 L2 = active ctx L1 @ ?due" "ullStart (pTimeout ctx2) \<le> now"
    using L2 by (simp_all add: ctx2_def same advanced_def)
  from run_active_ok [OF ctx2 assms(2), of "[]"] obtain ctx' L' where
    act: "run_active resume now [] ctx2 = Some (Inr (filter (\<lambda>x. fires now (?items x)) (active ctx L1 @ ?due), ctx'))"
    and L': "ctx_ok L' ctx'" "active ctx' L' = []" "pTimeout ctx' = ?t"
      "{x \<in> set (active ctx L1 @ ?due). \<not> fires now (?items x)} \<union> wheel_items ?t L2 \<subseteq> wheel_items ?t L'"
    by (auto simp: ctx2_def)
  have dis: "x \<notin> set ?due" if "x \<in> set (active ctx L1)" for x
  proof
    assume "x \<in> set ?due"
    then obtain k where "k \<in> slots (pTimeout ctx)" "x \<in> set (L1 k)"
      using taken_from_wheel [OF ok(3), of now L1] by (auto simp: same wheel_items_def)
    with that lnk.disjoint [OF ok(1), of x k "pstActiveList ctx"] ok(4) show False by (auto simp: same)
  qed
  have "filter (\<lambda>x. fires now (?items x)) (active ctx L1 @ ?due) =
      filter (\<lambda>x. fires now (ce_item ctx x)) (active ctx L1) @ filter (\<lambda>x. expiry ctx x \<le> now) ?due"
    unfolding filter_append
    by (intro arg_cong2 [of _ _ _ _ append] filter_cong refl) (auto simp: marked_def fires_def not_less dest: dis)
  with act have "eventloop_turn resume events now ctx = Inr
      (filter (\<lambda>x. fires now (ce_item ctx x)) (active ctx L1) @ filter (\<lambda>x. expiry ctx x \<le> now) ?due, ctx')"
    by (simp add: eventloop_turn_def clear_timeout_list [OF assms(1)] run same take ctx2_def)
  moreover have "{x \<in> waiting ctx L1. x \<notin> set ?due \<or> now < expiry ctx x} \<subseteq> waiting ctx' L'"
  proof
    fix x assume x: "x \<in> {x \<in> waiting ctx L1. x \<notin> set ?due \<or> now < expiry ctx x}"
    have "\<not> fires now (?items x)" if "x \<in> set ?due" using x that by (simp add: fires_def marked_def)
    with x L2(3) L'(4) show "x \<in> waiting ctx' L'" unfolding L'(3) by (cases "x \<in> set ?due") auto
  qed
  ultimately show ?thesis by (rule that [OF prep L'(1,2)])
qed


text \<open>A loop with one poll object, item 1, in the slot of its expiry time.\<close>

definition one_item :: titem where
  "one_item = \<lparr>ullExpireTime = 1005, bTimeout = False, has_process = True, pArg = 0, ti_poll = None\<rparr>"

definition one_wait :: stCoEpoll_t where
  "one_wait =
     (let ctx = AllocEpoll empty_lheap (\<lambda>_. one_item)
                  (\<lambda>_. \<lparr>fds_revents = [], iAllEventDetach = False, iRaiseCnt = 0\<rparr>) 0 1000
      in ctx\<lparr>ce_heap := AddTail 5 1 (ce_heap ctx)\<rparr>)"

lemma one_wait_ok: "ctx_ok ((\<lambda>_. [])(5 := [1])) one_wait"
proof -
  let ?L = "(\<lambda>_. [])(5 := [1]) :: nat \<Rightarrow> nat list"
  have "links_ok ?L (AddTail 5 1 empty_lheap)"
    using AddTail_ok [OF links_ok_empty, of 1 5] by (simp add: empty_lheap_def)
  moreover have "wheel_ok (\<lambda>_. 1005) (AllocTimeout 0 60000 1000) ?L"
    by (auto simp: wheel_ok_def wheel_shape_def AllocTimeout_def slot_at_def word_less_nat_alt nat_eq_iff)
  ultimately show ?thesis
    by (simp add: ctx_ok_def one_wait_def one_item_def AllocEpoll_def Let_def slots_def AllocTimeout_def)
qed

lemma resume_ok_return: "resume_ok (\<lambda>c ctx. Inr ctx)"
  by (auto simp: resume_ok_def)


end
