(* ===== verification/Co_Wait.thy ===== *)
theory Co_Wait
  imports Co_Epoll
begin

text \<open>
  The two ways a coroutine of libco waits (\<^verbatim>\<open>cocgi/libco/co_routine.cpp\<close>): \<open>co_poll_inner\<close>
  for descriptors and a timeout, and the condition variables. Each of the two waiting calls is split
  at its yield into the part before it and the part after it, since other coroutines run in between.
\<close>

section \<open>Poll\<close>

definition EPERM :: nat where "EPERM = 1"
definition EEXIST :: nat where "EEXIST = 17"
definition INT_MAX :: int where "INT_MAX = 2 ^ 31 - 1"

text \<open>
  \<open>co_epoll_ctl\<close> with \<open>EPOLL_CTL_ADD\<close>: \<open>err\<close> gives the descriptors the kernel rejects and
  why; a descriptor that is registered already is rejected with \<open>EEXIST\<close>.
\<close>

definition epoll_add ::
    "(int \<Rightarrow> nat option) \<Rightarrow> int \<Rightarrow> nat \<Rightarrow> 32 word \<Rightarrow> stCoEpoll_t \<Rightarrow> nat option \<times> stCoEpoll_t" where
  "epoll_add err fd it ev ctx =
     (case err fd of
        Some e \<Rightarrow> (Some e, ctx)
      | None \<Rightarrow> if ce_epoll ctx fd \<noteq> None then (Some EEXIST, ctx)
                else (None, ctx\<lparr>ce_epoll := (ce_epoll ctx)(fd \<mapsto> (it, ev))\<rparr>))"

definition epoll_del :: "int \<Rightarrow> stCoEpoll_t \<Rightarrow> stCoEpoll_t" where
  "epoll_del fd ctx = ctx\<lparr>ce_epoll := (ce_epoll ctx)(fd := None)\<rparr>"

text \<open>
  The loop that registers the descriptors, with the poll object \<open>p\<close> and its items from address
  \<open>base\<close> on; \<^term>\<open>None\<close> when the call falls back on the system's \<open>poll\<close>.
\<close>

fun poll_register ::
    "(int \<Rightarrow> nat option) \<Rightarrow> bool \<Rightarrow> nat \<Rightarrow> nat \<Rightarrow> nat \<Rightarrow> (int \<times> 16 word) list \<Rightarrow> stCoEpoll_t \<Rightarrow> stCoEpoll_t option" where
  "poll_register err fallback p base i [] ctx = Some ctx"
| "poll_register err fallback p base i ((fd, events) # fds) ctx =
     (let ctx = ctx\<lparr>ce_item := (ce_item ctx)(base + i :=
                  \<lparr>ullExpireTime = 0, bTimeout = False, has_process = False, pArg = 0, ti_poll = Some (p, i)\<rparr>)\<rparr>
      in if fd > -1 then
           (case epoll_add err fd (base + i) (PollEvent2Epoll events) ctx of (e, ctx') \<Rightarrow>
              if e = Some EPERM \<and> fallback then None else poll_register err fallback p base (i + 1) fds ctx')
         else poll_register err fallback p base (i + 1) fds ctx)"

text \<open>
  The three ways the first part of \<open>co_poll_inner\<close> ends: it calls \<open>pollfunc\<close> with a timeout,
  it gives up with \<open>EINVAL\<close>, or it yields.
\<close>

datatype poll_start = Poll_sys int | Poll_invalid stCoEpoll_t | Poll_wait stCoEpoll_t

definition co_poll_inner_start ::
    "(int \<Rightarrow> nat option) \<Rightarrow> bool \<Rightarrow> nat \<Rightarrow> nat \<Rightarrow> nat \<Rightarrow> (int \<times> 16 word) list \<Rightarrow> int \<Rightarrow> 64 word \<Rightarrow>
     stCoEpoll_t \<Rightarrow> poll_start res" where
  "co_poll_inner_start err pollfunc self p base fds timeout now ctx0 =
     (if timeout = 0 then if pollfunc then Inr (Poll_sys timeout) else Inl Null_deref
      else
        let timeout = (if timeout < 0 then INT_MAX else timeout);
            ctx = ctx0\<lparr>ce_poll := (ce_poll ctx0)(p :=
                     \<lparr>fds_revents = replicate (length fds) 0, iAllEventDetach = False, iRaiseCnt = 0\<rparr>),
                   ce_item := (ce_item ctx0)(p :=
                     \<lparr>ullExpireTime = 0, bTimeout = False, has_process = True, pArg = self, ti_poll = None\<rparr>)\<rparr>
        in case poll_register err (length fds = 1 \<and> pollfunc) p base 0 fds ctx of
             None \<Rightarrow> Inr (Poll_sys timeout)
           | Some ctx \<Rightarrow>
               let expire = now + word_of_int timeout;
                   ctx = ctx\<lparr>ce_item := (ce_item ctx)(p := (ce_item ctx p)\<lparr>ullExpireTime := expire\<rparr>)\<rparr>
               in case AddTimeout (pTimeout ctx) p expire now (ce_heap ctx) of (ret, t, h) \<Rightarrow>
                    let ctx = ctx\<lparr>pTimeout := t, ce_heap := h\<rparr>
                    in Inr (if ret \<noteq> 0 then Poll_invalid ctx else Poll_wait ctx))"

text \<open>The part after the yield: the return value, the \<open>revents\<close> of the caller's array and the state.\<close>

definition co_poll_inner_finish ::
    "bool \<Rightarrow> nat \<Rightarrow> (int \<times> 16 word) list \<Rightarrow> stCoEpoll_t \<Rightarrow> (int \<times> 16 word list \<times> stCoEpoll_t) res" where
  "co_poll_inner_finish invalid p fds ctx =
     bind_res (RemoveFromLink p (ce_heap ctx)) (\<lambda>h.
       Inr (if invalid then -1 else iRaiseCnt (ce_poll ctx p), fds_revents (ce_poll ctx p),
            fold (\<lambda>(fd, _) c. if fd > -1 then epoll_del fd c else c) fds (ctx\<lparr>ce_heap := h\<rparr>)))"

section \<open>Condition variables\<close>

text \<open>
  A \<open>stCoCondItem_t\<close> has two sets of links: its own, in the list of the condition variable (the
  first heap), and those of its member \<open>timeout\<close>, an item of the event loop; one number names both.
\<close>

type_synonym cond_state = "lheap \<times> stCoEpoll_t"

definition co_cond_pop :: "nat \<Rightarrow> lheap \<Rightarrow> nat option \<times> lheap" where
  "co_cond_pop link ch = (case l_head ch link of None \<Rightarrow> (None, ch) | Some p \<Rightarrow> (Some p, PopHead link ch))"

text \<open>The two statements \<open>RemoveFromLink\<close> and \<open>AddTail\<close> of a wake-up.\<close>

definition wake :: "nat \<Rightarrow> stCoEpoll_t \<Rightarrow> stCoEpoll_t res" where
  "wake sp ctx =
     bind_res (RemoveFromLink sp (ce_heap ctx)) (\<lambda>h. Inr (ctx\<lparr>ce_heap := AddTail (pstActiveList ctx) sp h\<rparr>))"

definition co_cond_signal :: "nat \<Rightarrow> cond_state \<Rightarrow> cond_state res" where
  "co_cond_signal si st =
     (case co_cond_pop si (fst st) of
        (None, ch) \<Rightarrow> Inr (ch, snd st)
      | (Some sp, ch) \<Rightarrow> bind_res (wake sp (snd st)) (\<lambda>ctx. Inr (ch, ctx)))"

partial_function (option) co_cond_broadcast :: "nat \<Rightarrow> cond_state \<Rightarrow> cond_state res option" where
  [code]: "co_cond_broadcast si st =
     (case co_cond_pop si (fst st) of
        (None, ch) \<Rightarrow> Some (Inr (ch, snd st))
      | (Some sp, ch) \<Rightarrow>
          (case wake sp (snd st) of
             Inl e \<Rightarrow> Some (Inl e)
           | Inr ctx \<Rightarrow> co_cond_broadcast si (ch, ctx)))"

text \<open>\<open>Inl\<close>: the code \<open>AddTimeout\<close> returned; \<open>Inr\<close>: the state in which the coroutine yields.\<close>

definition co_cond_timedwait_start ::
    "nat \<Rightarrow> int \<Rightarrow> nat \<Rightarrow> nat \<Rightarrow> 64 word \<Rightarrow> cond_state \<Rightarrow> (int \<times> cond_state) + cond_state" where
  "co_cond_timedwait_start link ms self psi now st =
     (let ch = fst st; ctx = snd st;
          it = \<lparr>ullExpireTime = 0, bTimeout = False, has_process = True, pArg = self, ti_poll = None\<rparr>
      in if ms > 0 then
           let expire = now + word_of_int ms;
               ctx = ctx\<lparr>ce_item := (ce_item ctx)(psi := it\<lparr>ullExpireTime := expire\<rparr>)\<rparr>
           in case AddTimeout (pTimeout ctx) psi expire now (ce_heap ctx) of (ret, t, h) \<Rightarrow>
                let ctx = ctx\<lparr>pTimeout := t, ce_heap := h\<rparr>
                in if ret \<noteq> 0 then Inl (ret, ch, ctx) else Inr (AddTail link psi ch, ctx)
         else Inr (AddTail link psi ch, ctx\<lparr>ce_item := (ce_item ctx)(psi := it)\<rparr>))"

definition co_cond_timedwait_finish :: "nat \<Rightarrow> cond_state \<Rightarrow> cond_state res" where
  "co_cond_timedwait_finish psi st = bind_res (RemoveFromLink psi (fst st)) (\<lambda>ch. Inr (ch, snd st))"

section \<open>Waking up\<close>

definition move_to :: "nat \<Rightarrow> nat \<Rightarrow> (nat \<Rightarrow> nat list) \<Rightarrow> nat \<Rightarrow> nat list" where
  "move_to a p L = (\<lambda>k. filter (\<lambda>y. y \<noteq> p) (L k))(a := filter (\<lambda>y. y \<noteq> p) (L a) @ [p])"

lemma wake_ok:
  assumes "ctx_ok L ctx"
  shows "\<exists>h'. wake sp ctx = Inr (ctx\<lparr>ce_heap := h'\<rparr>) \<and>
    ctx_ok (move_to (pstActiveList ctx) sp L) (ctx\<lparr>ce_heap := h'\<rparr>)"
proof -
  note ok = ctx_okD [OF assms]
  let ?a = "pstActiveList ctx" and ?L = "move_to (pstActiveList ctx) sp L"
  from lnk.move [OF ok(1), of sp ?a] obtain h' where
    h': "RemoveFromLink sp (ce_heap ctx) = Inr h'" "links_ok ?L (AddTail ?a sp h')"
    by (auto simp: res_ok_def res_simps move_to_def)
  have "wheel_ok (expiry ctx) (pTimeout ctx) ?L"
    using ok(4) by (intro wheel_ok_mono [OF ok(2)]) (auto simp: move_to_def)
  then have "ctx_ok ?L (ctx\<lparr>ce_heap := AddTail ?a sp h'\<rparr>)"
    using ok h'(2) by (simp add: ctx_ok_def move_to_def)
  with h'(1) show ?thesis by (auto simp: wake_def)
qed

lemma waiting_move_to: "a \<notin> slots t \<Longrightarrow> wheel_items t (move_to a p L) = wheel_items t L - {p}"
  by (auto simp: wheel_items_def move_to_def split: if_splits)

lemma co_cond_pop_ok:
  assumes "links_ok C ch"
  shows "co_cond_pop si ch = (hd_opt (C si), if C si = [] then ch else PopHead si ch)"
  using links_okD(3) [OF assms, of si] by (cases "C si") (simp_all add: co_cond_pop_def)

text \<open>
  \<open>co_cond_signal\<close> wakes exactly the coroutine that has waited longest: that waiter leaves the
  condition variable and the timer wheel and goes to the end of the active list, the other waiters
  keep their order, and nothing happens when there is none.\<close>

lemma co_cond_signal_wakes_oldest:
  assumes "links_ok C ch" and "ctx_ok L ctx"
  shows "res_ok (co_cond_signal si (ch, ctx)) (\<lambda>(ch', ctx'). \<exists>L'.
    links_ok (C(si := tl (C si))) ch' \<and> ctx_ok L' ctx' \<and>
    (case C si of
       [] \<Rightarrow> active ctx' L' = active ctx L \<and> waiting ctx' L' = waiting ctx L
     | w # _ \<Rightarrow> active ctx' L' = filter (\<lambda>x. x \<noteq> w) (active ctx L) @ [w] \<and>
                waiting ctx' L' = waiting ctx L - {w}))"
proof (cases "C si")
  case Nil
  then have "C(si := tl (C si)) = C" by auto
  with Nil assms show ?thesis by (auto simp: co_cond_signal_def co_cond_pop_ok [OF assms(1)])
next
  case (Cons w ws)
  from wake_ok [OF assms(2), of w] obtain h' where
    h': "wake w ctx = Inr (ctx\<lparr>ce_heap := h'\<rparr>)" "ctx_ok (move_to (pstActiveList ctx) w L) (ctx\<lparr>ce_heap := h'\<rparr>)"
    by blast
  have "waiting ctx (move_to (pstActiveList ctx) w L) = waiting ctx L - {w}"
    by (rule waiting_move_to [OF ctx_okD(4) [OF assms(2)]])
  moreover have "co_cond_signal si (ch, ctx) = Inr (PopHead si ch, ctx\<lparr>ce_heap := h'\<rparr>)"
    using h'(1) by (simp add: co_cond_signal_def co_cond_pop_ok [OF assms(1)] Cons)
  moreover have "active ctx (move_to (pstActiveList ctx) w L) = filter (\<lambda>x. x \<noteq> w) (active ctx L) @ [w]"
    by (simp add: move_to_def)
  ultimately show ?thesis
    using h'(2) lnk.pop [OF assms(1), of si] by (simp add: Cons del: fun_upd_apply) blast
qed

lemma broadcast_ok:
  "links_ok C ch \<Longrightarrow> ctx_ok L ctx \<Longrightarrow> C si = ws \<Longrightarrow>
   \<exists>ch' h' L'. co_cond_broadcast si (ch, ctx) = Some (Inr (ch', ctx\<lparr>ce_heap := h'\<rparr>)) \<and>
     links_ok (C(si := [])) ch' \<and> ctx_ok L' (ctx\<lparr>ce_heap := h'\<rparr>) \<and>
     active ctx L' = filter (\<lambda>x. x \<notin> set ws) (active ctx L) @ ws \<and> waiting ctx L' = waiting ctx L - set ws"
proof (induction ws arbitrary: C ch L ctx)
  case Nil
  then have "C(si := []) = C" by auto
  with Nil show ?case
    by (subst co_cond_broadcast.simps)
      (auto simp: co_cond_pop_ok [OF Nil.prems(1)] intro!: exI [of _ ch] exI [of _ "ce_heap ctx"] exI [of _ L])
next
  case (Cons w ws)
  let ?a = "pstActiveList ctx" and ?L = "move_to (pstActiveList ctx) w L"
  from wake_ok [OF Cons.prems(2), of w] obtain h1 where
    h1: "wake w ctx = Inr (ctx\<lparr>ce_heap := h1\<rparr>)" "ctx_ok ?L (ctx\<lparr>ce_heap := h1\<rparr>)" by blast
  have ch1: "links_ok (C(si := ws)) (PopHead si ch)"
    using lnk.pop [OF Cons.prems(1), of si] Cons.prems(3) by simp
  have w: "w \<notin> set ws" using lnk.distinct [OF Cons.prems(1), of si] Cons.prems(3) by simp
  from Cons.IH [OF ch1 h1(2), unfolded fun_upd_upd, OF fun_upd_same] obtain ch' h' L' where
    rest: "co_cond_broadcast si (PopHead si ch, ctx\<lparr>ce_heap := h1\<rparr>) = Some (Inr (ch', ctx\<lparr>ce_heap := h'\<rparr>))"
    and L': "links_ok (C(si := [])) ch'" "ctx_ok L' (ctx\<lparr>ce_heap := h'\<rparr>)"
      "active ctx L' = filter (\<lambda>x. x \<notin> set ws) (active ctx ?L) @ ws" "waiting ctx L' = waiting ctx ?L - set ws"
    by (simp del: fun_upd_apply) blast
  have "co_cond_broadcast si (ch, ctx) = Some (Inr (ch', ctx\<lparr>ce_heap := h'\<rparr>))"
    using rest h1(1) Cons.prems(3) by (subst co_cond_broadcast.simps) (simp add: co_cond_pop_ok [OF Cons.prems(1)])
  moreover have "active ctx L' = filter (\<lambda>x. x \<notin> set (w # ws)) (active ctx L) @ w # ws"
    using w by (auto simp: L'(3) move_to_def intro: filter_cong)
  moreover have "waiting ctx L' = waiting ctx L - set (w # ws)"
    using waiting_move_to [OF ctx_okD(4) [OF Cons.prems(2)], of w L] L'(4) by auto
  ultimately show ?case using L'(1,2) by blast
qed

text \<open>
  C19. \<open>co_cond_broadcast\<close> ends and wakes every waiter: the condition variable is empty afterwards,
  the waiters are at the end of the active list in the order in which they began to wait, none of
  them is left in the timer wheel, and nothing else moves.\<close>

theorem co_cond_broadcast_wakes_all:
  assumes "links_ok C ch" and "ctx_ok L ctx"
  shows "\<exists>ch' ctx' L'. co_cond_broadcast si (ch, ctx) = Some (Inr (ch', ctx')) \<and>
    links_ok (C(si := [])) ch' \<and> ctx_ok L' ctx' \<and>
    active ctx' L' = filter (\<lambda>x. x \<notin> set (C si)) (active ctx L) @ C si \<and>
    waiting ctx' L' = waiting ctx L - set (C si)"
  using broadcast_ok [OF assms refl, of si] by fastforce

definition two_waiters :: lheap where
  "two_waiters = AddTail 0 2 (AddTail 0 1 empty_lheap)"

lemma two_waiters_ok: "links_ok ((\<lambda>_. [])(0 := [1, 2])) two_waiters"
  using link_run_refines [OF links_ok_empty, of "[Op_add 0 1, Op_add 0 2]"]
  by (simp add: two_waiters_def)

lemma co_cond_signal_wakes_oldest_witness:
  "res_ok (co_cond_signal 0 (two_waiters, one_wait)) (\<lambda>(ch', ctx'). l_head ch' 0 = Some 2)"
proof (rule res_ok_mono [OF co_cond_signal_wakes_oldest [OF two_waiters_ok one_wait_ok, of 0]], clarify)
  fix ch' assume "links_ok (((\<lambda>_. [])(0 := [1, 2]))(0 := tl (((\<lambda>_. [])(0 := [1, 2])) 0))) ch'"
  from links_okD(3) [OF this, of 0] show "l_head ch' 0 = Some 2" by simp
qed

lemma co_cond_broadcast_wakes_all_witness:
  "\<exists>ch' ctx'. co_cond_broadcast 0 (two_waiters, one_wait) = Some (Inr (ch', ctx')) \<and> l_head ch' 0 = None"
proof -
  from co_cond_broadcast_wakes_all [OF two_waiters_ok one_wait_ok, of 0] obtain ch' ctx'
    where run: "co_cond_broadcast 0 (two_waiters, one_wait) = Some (Inr (ch', ctx'))"
      and ok: "links_ok (((\<lambda>_. [])(0 := [1, 2]))(0 := [])) ch'" by blast
  from links_okD(3) [OF ok, of 0] run show ?thesis by auto
qed

section \<open>Poll objects\<close>

lemma ctx_ok_fresh_items:
  assumes "ctx_ok L ctx" and "\<And>k x. x \<in> set (L k) \<Longrightarrow> expiry ctx' x = expiry ctx x"
    and "ce_heap ctx' = ce_heap ctx" "pTimeout ctx' = pTimeout ctx"
      "pstActiveList ctx' = pstActiveList ctx" "pstTimeoutList ctx' = pstTimeoutList ctx"
  shows "ctx_ok L ctx'"
proof -
  note ok = ctx_okD [OF assms(1)]
  have "wheel_ok (expiry ctx') (pTimeout ctx') L"
    using ok(2) assms(2) unfolding wheel_ok_def assms(4) by fastforce
  then show ?thesis using ok assms(3-6) by (simp add: ctx_ok_def)
qed

lemma ctx_ok_add:
  assumes "ctx_ok L ctx" "pLink (ce_heap ctx) x = None" "ullStart (pTimeout ctx) \<le> expiry ctx x"
  defines "s \<equiv> slot_at (pTimeout ctx) (ahead (pTimeout ctx) (expiry ctx x))"
  shows "ctx_ok (L(s := L s @ [x])) (ctx\<lparr>ce_heap := AddTail s x (ce_heap ctx)\<rparr>)"
proof -
  note ok = ctx_okD [OF assms(1)]
  have "pstTimeoutList ctx \<noteq> s" using ok(5) slot_at_in_slots [OF ok(3)] by (metis s_def)
  with ok lnk.add_tail [OF ok(1) assms(2), of s] wheel_ok_add [OF ok(2) assms(3)]
  show ?thesis by (simp add: ctx_ok_def s_def)
qed

lemma epoll_add_frame:
  "epoll_add err fd it ev ctx = (e, ctx') \<Longrightarrow>
   \<exists>m. ctx' = ctx\<lparr>ce_epoll := m\<rparr> \<and> (\<forall>fd'. m fd' = ce_epoll ctx fd' \<or> fd' = fd \<and> m fd' = Some (it, ev))"
  by (intro exI [of _ "ce_epoll ctx'"]) (auto simp: epoll_add_def split: option.splits if_splits)

text \<open>
  The loop over the descriptors changes the items of the call and the registrations of its
  descriptors, and nothing else.
\<close>

definition registered ::
    "nat \<Rightarrow> nat \<Rightarrow> (int \<times> 16 word) list \<Rightarrow> stCoEpoll_t \<Rightarrow> stCoEpoll_t \<Rightarrow> bool" where
  "registered lo n fds ctx ctx' \<longleftrightarrow>
     ce_heap ctx' = ce_heap ctx \<and> pTimeout ctx' = pTimeout ctx \<and> ce_poll ctx' = ce_poll ctx \<and>
     pstActiveList ctx' = pstActiveList ctx \<and> pstTimeoutList ctx' = pstTimeoutList ctx \<and>
     (\<forall>x. x \<notin> {lo..<lo + n} \<longrightarrow> ce_item ctx' x = ce_item ctx x) \<and>
     (\<forall>fd. ce_epoll ctx' fd = ce_epoll ctx fd \<or> fd > -1 \<and> fd \<in> fst ` set fds)"

lemma registered_trans:
  assumes "registered lo m fds ctx ctx1" and "registered (lo + m) n fds' ctx1 ctx2"
  shows "registered lo (m + n) (fds @ fds') ctx ctx2"
proof -
  have "ce_item ctx2 x = ce_item ctx x" if "x \<notin> {lo..<lo + (m + n)}" for x
    using assms that unfolding registered_def by (metis add.assoc atLeastLessThan_iff leD le_add1 linorder_le_less_linear order_trans)
  moreover have "ce_epoll ctx2 fd = ce_epoll ctx fd \<or> fd > -1 \<and> fd \<in> fst ` set (fds @ fds')" for fd
    using assms unfolding registered_def by (metis Un_iff image_Un set_append)
  ultimately show ?thesis using assms unfolding registered_def by simp
qed

lemma poll_register_frame:
  "poll_register err fb p base i fds ctx = Some ctx' \<Longrightarrow> registered (base + i) (length fds) fds ctx ctx'"
proof (induction err fb p base i fds ctx arbitrary: ctx' rule: poll_register.induct)
  case (1 err fb p base i ctx)
  then show ?case by (simp add: registered_def)
next
  case (2 err fb p base i fd events fds ctx)
  define ctx1 where "ctx1 = ctx\<lparr>ce_item := (ce_item ctx)(base + i :=
    \<lparr>ullExpireTime = 0, bTimeout = False, has_process = False, pArg = 0, ti_poll = Some (p, i)\<rparr>)\<rparr>"
  have 1: "registered (base + i) 1 [] ctx ctx1" by (simp add: registered_def ctx1_def)
  show ?case
  proof (cases "fd > -1")
    case True
    obtain e ctx2 where add: "epoll_add err fd (base + i) (PollEvent2Epoll events) ctx1 = (e, ctx2)" by fastforce
    from epoll_add_frame [OF this] True have 3: "registered (base + i) 1 [(fd, events)] ctx ctx2"
      by (auto simp: registered_def ctx1_def)
    from 2(3) True add have rest: "poll_register err fb p base (i + 1) fds ctx2 = Some ctx'" "\<not> (e = Some EPERM \<and> fb)"
      by (auto simp: ctx1_def Let_def split: if_splits)
    from 2(1) [OF ctx1_def True add [symmetric] rest(2,1)]
    have "registered (base + (i + 1)) (length fds) fds ctx2 ctx'" .
    from registered_trans [OF 3, of "length fds" fds ctx'] this show ?thesis by simp
  next
    case False
    with 2(3) have "poll_register err fb p base (i + 1) fds ctx1 = Some ctx'" by (simp add: ctx1_def Let_def)
    from 2(2) [OF ctx1_def False this] have "registered (base + (i + 1)) (length fds) fds ctx1 ctx'" .
    from registered_trans [OF 1, of "length fds" fds ctx'] this
    show ?thesis unfolding registered_def by (simp add: image_iff) blast
  qed
qed

lemma poll_start_epoll:
  assumes "co_poll_inner_start err pollfunc self p base fds timeout now ctx0 = Inr (Poll_wait ctx1)"
  shows "ce_epoll ctx1 fd = ce_epoll ctx0 fd \<or> fd > -1 \<and> fd \<in> fst ` set fds"
proof -
  obtain fb ctxA ctxB where "poll_register err fb p base 0 fds ctxA = Some ctxB"
    and "ce_epoll ctxA = ce_epoll ctx0" "ce_epoll ctx1 = ce_epoll ctxB"
    using assms
    by (auto simp: co_poll_inner_start_def Let_def split: if_splits option.splits prod.splits)
  with poll_register_frame show ?thesis unfolding registered_def by metis
qed

lemma fold_epoll_del:
  "fold (\<lambda>(fd, _) c. if fd > -1 then epoll_del fd c else c) fds ctx =
   ctx\<lparr>ce_epoll := \<lambda>fd. if fd > -1 \<and> fd \<in> fst ` set fds then None else ce_epoll ctx fd\<rparr>"
  by (induction fds arbitrary: ctx) (auto simp: epoll_del_def fun_eq_iff intro!: stCoEpoll_t.equality)


lemma poll_register_total:
  "\<forall>fd. err fd \<noteq> Some EPERM \<Longrightarrow> \<exists>ctx'. poll_register err fb p base i fds ctx = Some ctx'"
  by (induction fds arbitrary: i ctx)
    (auto simp: epoll_add_def EPERM_def EEXIST_def Let_def split: option.splits if_splits)

lemma co_poll_registers:
  assumes "ctx_ok L ctx" and "timeout \<noteq> 0" and "timeout \<le> INT_MAX" and "ullStart (pTimeout ctx) \<le> now"
    and "unat now + 2 ^ 31 \<le> 2 ^ 64"
    and "\<forall>k. set (L k) \<inter> insert p {base..<base + length fds} = {}" and "p \<notin> {base..<base + length fds}"
    and "\<forall>fd. err fd \<noteq> Some EPERM"
  shows "\<exists>ctx' L'. co_poll_inner_start err pollfunc self p base fds timeout now ctx = Inr (Poll_wait ctx') \<and>
    ctx_ok L' ctx' \<and> waiting ctx' L' = insert p (waiting ctx L) \<and> active ctx' L' = active ctx L \<and>
    unat (expiry ctx' p) = unat now + nat (if timeout < 0 then INT_MAX else timeout) \<and>
    pArg (ce_item ctx' p) = self \<and> iRaiseCnt (ce_poll ctx' p) = 0"
proof -
  note ok = ctx_okD [OF assms(1)]
  let ?to = "if timeout < 0 then INT_MAX else timeout"
  let ?e = "now + word_of_int ?to"
  have to: "0 < ?to" "?to < 2 ^ 31" using assms(2,3) by (auto simp: INT_MAX_def)
  have e: "unat ?e = unat now + nat ?to"
  proof -
    have "unat (word_of_int ?to :: 64 word) = nat ?to"
      using to by (simp only: unat_eq_nat_uint uint_word_of_int_eq) (simp add: take_bit_int_eq_self)
    moreover have "nat ?to < 2 ^ 31" using to by (simp only: nat_less_iff) simp
    then have "unat now + nat ?to < 2 ^ 64" using assms(5) by (simp del: nat_less_iff)
    ultimately show ?thesis using unat_add_lem [of now "word_of_int ?to"] by simp
  qed
  define ctxA where "ctxA = ctx\<lparr>ce_poll := (ce_poll ctx)(p :=
      \<lparr>fds_revents = replicate (length fds) 0, iAllEventDetach = False, iRaiseCnt = 0\<rparr>),
    ce_item := (ce_item ctx)(p :=
      \<lparr>ullExpireTime = 0, bTimeout = False, has_process = True, pArg = self, ti_poll = None\<rparr>)\<rparr>"
  obtain ctxB where B: "poll_register err (length fds = 1 \<and> pollfunc) p base 0 fds ctxA = Some ctxB"
    using poll_register_total [OF assms(8)] by blast
  note fr = poll_register_frame [OF B, unfolded registered_def, simplified]
  define ctxC where "ctxC = ctxB\<lparr>ce_item := (ce_item ctxB)(p := (ce_item ctxB p)\<lparr>ullExpireTime := ?e\<rparr>)\<rparr>"
  have C: "ce_heap ctxC = ce_heap ctx" "pTimeout ctxC = pTimeout ctx"
      "pstActiveList ctxC = pstActiveList ctx" "pstTimeoutList ctxC = pstTimeoutList ctx"
    using fr by (simp_all add: ctxC_def ctxA_def)
  have items: "expiry ctxC x = expiry ctx x" if "x \<in> set (L k)" for x k
    using fr assms(6,7) that by (fastforce simp: ctxC_def ctxA_def)
  have itp: "expiry ctxC p = ?e" "pArg (ce_item ctxC p) = self" "iRaiseCnt (ce_poll ctxC p) = 0"
    using fr assms(7) by (auto simp: ctxC_def ctxA_def)
  have okC: "ctx_ok L ctxC" by (rule ctx_ok_fresh_items [OF assms(1) items C])
  have free: "pLink (ce_heap ctx) p = None" using assms(6) by (auto simp: lnk.unlinked_iff [OF ok(1)])
  have le: "now \<le> ?e" using e by (simp add: word_le_nat_alt)
  let ?s = "slot_at (pTimeout ctx) (ahead (pTimeout ctx) ?e)"
  define ctxD where "ctxD = ctxC\<lparr>ce_heap := AddTail ?s p (ce_heap ctx)\<rparr>"
  have "co_poll_inner_start err pollfunc self p base fds timeout now ctx =
      (case AddTimeout (pTimeout ctxC) p ?e now (ce_heap ctxC) of (ret, t, h) \<Rightarrow>
         Inr (if ret \<noteq> 0 then Poll_invalid (ctxC\<lparr>pTimeout := t, ce_heap := h\<rparr>)
              else Poll_wait (ctxC\<lparr>pTimeout := t, ce_heap := h\<rparr>)))"
    unfolding ctxC_def using assms(2) B
    by (simp add: co_poll_inner_start_def Let_def ctxA_def [symmetric] split del: if_split)
  moreover have "ctxC\<lparr>pTimeout := pTimeout ctx, ce_heap := h\<rparr> = ctxC\<lparr>ce_heap := h\<rparr>" for h using C(2) by simp
  ultimately have "co_poll_inner_start err pollfunc self p base fds timeout now ctx = Inr (Poll_wait ctxD)"
    by (simp add: C AddTimeout_result [OF ok(3) assms(4) le] ctxD_def split del: if_split)
  moreover have "ctx_ok (L(?s := L ?s @ [p])) ctxD"
    using ctx_ok_add [OF okC, of p, unfolded itp C, OF free order_trans [OF assms(4) le]] by (simp only: ctxD_def)
  moreover have "wheel_items (pTimeout ctx) (L(?s := L ?s @ [p])) = insert p (waiting ctx L)"
    by (rule wheel_items_add [OF ok(3)])
  moreover have "?s \<noteq> pstActiveList ctx" using ok(4) slot_at_in_slots [OF ok(3)] by metis
  ultimately show ?thesis
    using C e itp by (intro exI [of _ ctxD] exI [of _ "L(?s := L ?s @ [p])"]) (simp add: ctxD_def)
qed

text \<open>
  C18. \<open>co_poll_inner\<close> with a timeout other than zero registers its coroutine in the timer wheel
  before it yields: the poll object waits there with the expiry time \<open>now + timeout\<close> (for a
  negative timeout, \<open>INT_MAX\<close> milliseconds), the invariant of the event loop is kept and no other
  item moves, whatever \<open>epoll_ctl\<close> says about the descriptors (other than \<open>EPERM\<close>).\<close>

theorem co_poll_registers_timeout:
  assumes "ctx_ok L ctx" and "timeout \<noteq> 0" and "timeout \<le> INT_MAX" and "ullStart (pTimeout ctx) \<le> now"
    and "unat now + 2 ^ 31 \<le> 2 ^ 64"
    and "\<forall>k. set (L k) \<inter> insert p {base..<base + length fds} = {}" and "p \<notin> {base..<base + length fds}"
    and "\<forall>fd. err fd \<noteq> Some EPERM"
  shows "\<exists>ctx' L'. co_poll_inner_start err pollfunc self p base fds timeout now ctx = Inr (Poll_wait ctx') \<and>
    ctx_ok L' ctx' \<and> waiting ctx' L' = insert p (waiting ctx L) \<and> active ctx' L' = active ctx L \<and>
    unat (expiry ctx' p) = unat now + nat (if timeout < 0 then INT_MAX else timeout) \<and>
    pArg (ce_item ctx' p) = self"
  using co_poll_registers [OF assms] by blast

text \<open>A call that polls descriptor 7 for five milliseconds, in an idle event loop.\<close>

definition idle_loop :: stCoEpoll_t where
  "idle_loop = AllocEpoll empty_lheap (\<lambda>_. one_item)
     (\<lambda>_. \<lparr>fds_revents = [], iAllEventDetach = False, iRaiseCnt = 0\<rparr>) 0 1000"

lemma idle_loop_ok: "ctx_ok (\<lambda>_. []) idle_loop"
  by (simp add: ctx_ok_def idle_loop_def AllocEpoll_def links_ok_empty wheel_ok_def wheel_shape_def
      AllocTimeout_def slots_def word_less_nat_alt)

lemma co_poll_registers_timeout_witness:
  "\<exists>ctx'. co_poll_inner_start (\<lambda>_. None) True 3 1 10 [(7, POLLIN)] 5 1000 idle_loop = Inr (Poll_wait ctx') \<and>
     unat (expiry ctx' 1) = 1005"
  using co_poll_registers_timeout [OF idle_loop_ok, of 5 1000 1 10 "[(7, POLLIN)]" "\<lambda>_. None" True 3]
  by (auto simp: idle_loop_def AllocEpoll_def AllocTimeout_def INT_MAX_def)


text \<open>
  Two coroutines that poll the same descriptor: the registration of the second fails with
  \<open>EEXIST\<close>, which the code ignores, and when the second returns it deletes the registration of
  the first, which then only wakes up at its timeout.
\<close>

lemma second_poll_deletes_first:
  assumes "ce_epoll ctx fd = Some (it, ev)" "fd > -1" "err fd = None"
    and "co_poll_inner_finish invalid p [(fd, events)] ctx = Inr (ret, revents, ctx')"
  shows "epoll_add err fd it' ev' ctx = (Some EEXIST, ctx)" and "ce_epoll ctx' fd = None"
  using assms by (auto simp: epoll_add_def co_poll_inner_finish_def epoll_del_def res_simps)

text \<open>\<open>co_poll\<close> passes a null \<open>pollfunc\<close>, which a timeout of zero calls.\<close>

lemma co_poll_zero_faults: "co_poll_inner_start err False self p base fds 0 now ctx = Inl Null_deref"
  by (simp add: co_poll_inner_start_def)

end
