(* ===== verification/Co_Routine.thy ===== *)
theory Co_Routine
  imports Prelude
begin

text \<open>
  Coroutines of libco (\<^verbatim>\<open>cocgi/libco/co_routine.cpp\<close> and \<^verbatim>\<open>coctx.cpp\<close>): creation and stack
  sizes, the stacks that several coroutines share, the call stack of \<open>co_resume\<close> and
  \<open>co_yield_env\<close>, and the copying of shared stacks in \<open>co_swap\<close>. The register switch of
  \<open>coctx_swap\<close> is not modelled: \<open>co_swap\<close> is split there into the part the coroutine that
  leaves executes and the part the coroutine that is resumed executes.
\<close>

section \<open>Stack sizes and contexts\<close>

definition default_stack_size :: "32 word" where "default_stack_size = 131072"
definition max_stack_size :: "32 word" where "max_stack_size = 8388608"

text \<open>The adjustment of \<open>at.stack_size\<close> (an \<open>int\<close>) at the head of \<open>co_create_env\<close>.\<close>

definition adjust_stack_size :: "32 word \<Rightarrow> 32 word" where
  "adjust_stack_size n =
     (let n = (if sint n \<le> 0 then default_stack_size
               else if sint n > sint max_stack_size then max_stack_size else n)
      in if n AND 0xFFF \<noteq> 0 then (n AND NOT 0xFFF) + 0x1000 else n)"

text \<open>The registers \<open>coctx_make\<close> sets on x86-64; the others are zero.\<close>

record coctx_t =
  kRSP :: "64 word"
  kRETAddr :: "64 word"
  kRDI :: "64 word"
  kRSI :: "64 word"

definition coctx_make :: "64 word \<Rightarrow> 64 word \<Rightarrow> 64 word \<Rightarrow> 64 word \<Rightarrow> 64 word \<Rightarrow> coctx_t" where
  "coctx_make ss_sp ss_size pfn s s1 =
     (let sp = (ss_sp + ss_size) AND (- 16)
      in \<lparr>kRSP = sp - 8, kRETAddr = pfn, kRDI = s, kRSI = s1\<rparr>)"

section \<open>Coroutines and their stacks\<close>

text \<open>\<open>stack_bp\<close> is the end of \<open>stack_buffer\<close>, and \<open>stack_sp\<close> an offset into it.\<close>

record stStackMem_t =
  occupy_co :: "nat option"
  stack_buffer :: bytes

record stShareStack_t =
  alloc_idx :: "32 word"
  ss_stack_size :: "32 word"
  stack_array :: "nat list"

definition co_get_stackmem :: "stShareStack_t \<Rightarrow> (nat \<times> stShareStack_t) res" where
  "co_get_stackmem share_stack =
     (if stack_array share_stack = [] then Inl Out_of_bounds
      else Inr (stack_array share_stack ! unat (alloc_idx share_stack mod of_nat (length (stack_array share_stack))),
                share_stack\<lparr>alloc_idx := alloc_idx share_stack + 1\<rparr>))"

text \<open>\<open>co_alloc_sharestack\<close>: \<open>count\<close> stacks from address \<open>base\<close> on.\<close>

definition co_alloc_sharestack :: "nat \<Rightarrow> 32 word \<Rightarrow> nat \<Rightarrow> stShareStack_t" where
  "co_alloc_sharestack count stack_size base =
     \<lparr>alloc_idx = 0, ss_stack_size = stack_size, stack_array = [base..<base + count]\<rparr>"

record stCoRoutine_t =
  cStart :: bool
  cEnd :: bool
  cIsMain :: bool
  cEnableSysHook :: bool
  cIsShareStack :: bool
  stack_mem :: nat
  stack_sp :: nat
  save_size :: nat
  save_buffer :: "bytes option"
  aSpec :: "nat \<Rightarrow> nat"

record stCoRoutineEnv_t =
  pCallStack :: "nat list"
  iCallStackSize :: nat
  pending_co :: "nat option"
  env_occupy_co :: "nat option"
  co :: "nat \<Rightarrow> stCoRoutine_t option"
  smem :: "nat \<Rightarrow> stStackMem_t"

text \<open>A coroutine that has been freed, or never allocated, is \<^term>\<open>None\<close>.\<close>

definition get_co :: "stCoRoutineEnv_t \<Rightarrow> nat \<Rightarrow> (stCoRoutine_t \<Rightarrow> 'a res) \<Rightarrow> 'a res" where
  "get_co env c k = (case co env c of None \<Rightarrow> Inl Use_after_free | Some r \<Rightarrow> k r)"

definition set_co :: "nat \<Rightarrow> stCoRoutine_t \<Rightarrow> stCoRoutineEnv_t \<Rightarrow> stCoRoutineEnv_t" where
  "set_co c r env = env\<lparr>co := (co env)(c \<mapsto> r)\<rparr>"

definition set_mem :: "nat \<Rightarrow> stStackMem_t \<Rightarrow> stCoRoutineEnv_t \<Rightarrow> stCoRoutineEnv_t" where
  "set_mem m s env = env\<lparr>smem := (smem env)(m := s)\<rparr>"

definition co_alloc_stackmem :: "32 word \<Rightarrow> bytes \<Rightarrow> stStackMem_t" where
  "co_alloc_stackmem stack_size garbage =
     \<lparr>occupy_co = None, stack_buffer = vec_resize (unat stack_size) garbage\<rparr>"

text \<open>
  \<open>co_create_env\<close> for a fresh address \<open>c\<close>: on a stack of its own at address \<open>m\<close> (whose
  contents are what \<open>malloc\<close> returned), or on the next stack of a share-stack pool.
\<close>

definition new_co :: "bool \<Rightarrow> nat \<Rightarrow> stCoRoutine_t" where
  "new_co share m = \<lparr>cStart = False, cEnd = False, cIsMain = False, cEnableSysHook = False,
     cIsShareStack = share, stack_mem = m, stack_sp = 0, save_size = 0, save_buffer = None, aSpec = (\<lambda>_. 0)\<rparr>"

definition co_create_env_own :: "32 word \<Rightarrow> nat \<Rightarrow> nat \<Rightarrow> bytes \<Rightarrow> stCoRoutineEnv_t \<Rightarrow> stCoRoutineEnv_t" where
  "co_create_env_own stack_size c m garbage env =
     set_co c (new_co False m) (set_mem m (co_alloc_stackmem (adjust_stack_size stack_size) garbage) env)"

definition co_create_env_share ::
    "stShareStack_t \<Rightarrow> nat \<Rightarrow> stCoRoutineEnv_t \<Rightarrow> (stShareStack_t \<times> stCoRoutineEnv_t) res" where
  "co_create_env_share share_stack c env =
     bind_res (co_get_stackmem share_stack) (\<lambda>(m, ss). Inr (ss, set_co c (new_co True m) env))"

definition co_init_curr_thread_env :: "nat \<Rightarrow> nat \<Rightarrow> bytes \<Rightarrow> stCoRoutineEnv_t" where
  "co_init_curr_thread_env self m garbage =
     (let env = \<lparr>pCallStack = replicate 128 0, iCallStackSize = 0, pending_co = None, env_occupy_co = None,
                 co = Map.empty, smem = (\<lambda>_. co_alloc_stackmem 0 [])\<rparr>;
          env = co_create_env_own default_stack_size self m garbage env;
          env = set_co self ((new_co False m)\<lparr>cIsMain := True\<rparr>) env
      in env\<lparr>pCallStack := (pCallStack env)[0 := self], iCallStackSize := 1\<rparr>)"

definition co_free :: "nat \<Rightarrow> stCoRoutineEnv_t \<Rightarrow> stCoRoutineEnv_t" where
  "co_free c env = env\<lparr>co := (co env)(c := None)\<rparr>"

section \<open>Switching\<close>

definition GetCurrCo :: "stCoRoutineEnv_t \<Rightarrow> nat" where
  "GetCurrCo env = pCallStack env ! (iCallStackSize env - 1)"

definition save_stack_buffer :: "nat \<Rightarrow> stCoRoutineEnv_t \<Rightarrow> stCoRoutineEnv_t res" where
  "save_stack_buffer occ env =
     get_co env occ (\<lambda>r.
       let live = drop (stack_sp r) (stack_buffer (smem env (stack_mem r)))
       in Inr (set_co occ (r\<lparr>save_buffer := Some live, save_size := length live\<rparr>) env))"

text \<open>\<open>co_swap\<close> up to the register switch; \<open>sp\<close> is the address of its local variable.\<close>

definition co_swap_leave :: "nat \<Rightarrow> nat \<Rightarrow> nat \<Rightarrow> stCoRoutineEnv_t \<Rightarrow> stCoRoutineEnv_t res" where
  "co_swap_leave cur sp pending env0 =
     get_co env0 cur (\<lambda>rc.
       let env = set_co cur (rc\<lparr>stack_sp := sp\<rparr>) env0 in
       get_co env pending (\<lambda>rp.
         if \<not> cIsShareStack rp then Inr (env\<lparr>pending_co := None, env_occupy_co := None\<rparr>)
         else
           let m = stack_mem rp;
               occ = occupy_co (smem env m);
               env = set_mem m ((smem env m)\<lparr>occupy_co := Some pending\<rparr>)
                       (env\<lparr>pending_co := Some pending, env_occupy_co := occ\<rparr>)
           in case occ of
                None \<Rightarrow> Inr env
              | Some o' \<Rightarrow> if o' \<noteq> pending then save_stack_buffer o' env else Inr env))"

text \<open>The rest of \<open>co_swap\<close>, which a coroutine that left through \<open>co_swap\<close> executes.\<close>

definition co_swap_enter :: "stCoRoutineEnv_t \<Rightarrow> stCoRoutineEnv_t res" where
  "co_swap_enter env =
     (case (env_occupy_co env, pending_co env) of
        (Some o', Some p) \<Rightarrow>
          if o' = p then Inr env
          else get_co env p (\<lambda>r.
            (case save_buffer r of
               Some b \<Rightarrow>
                 if save_size r > 0 then
                   let s = smem env (stack_mem r)
                   in Inr (set_mem (stack_mem r) (s\<lparr>stack_buffer := blit (stack_buffer s) (stack_sp r) (take (save_size r) b)\<rparr>) env)
                 else Inr env
             | None \<Rightarrow> Inr env))
      | _ \<Rightarrow> Inr env)"

definition co_resume :: "nat \<Rightarrow> nat \<Rightarrow> stCoRoutineEnv_t \<Rightarrow> stCoRoutineEnv_t res" where
  "co_resume c sp env0 =
     get_co env0 c (\<lambda>r.
       if iCallStackSize env0 = 0 \<or> iCallStackSize env0 \<ge> 128 then Inl Out_of_bounds
       else
         let cur = GetCurrCo env0;
             env = set_co c (r\<lparr>cStart := True\<rparr>) env0;
             env = env\<lparr>pCallStack := (pCallStack env)[iCallStackSize env := c], iCallStackSize := iCallStackSize env + 1\<rparr>
         in bind_res (co_swap_leave cur sp c env) (\<lambda>env. if cStart r then co_swap_enter env else Inr env))"

definition co_yield_env :: "nat \<Rightarrow> stCoRoutineEnv_t \<Rightarrow> stCoRoutineEnv_t res" where
  "co_yield_env sp env =
     (if iCallStackSize env < 2 then Inl Out_of_bounds
      else
        let last = pCallStack env ! (iCallStackSize env - 2);
            cur = pCallStack env ! (iCallStackSize env - 1)
        in bind_res (co_swap_leave cur sp last (env\<lparr>iCallStackSize := iCallStackSize env - 1\<rparr>)) co_swap_enter)"

text \<open>The end of a coroutine's function in \<open>CoRoutineFunc\<close>.\<close>

definition CoRoutineFunc_end :: "nat \<Rightarrow> stCoRoutineEnv_t \<Rightarrow> stCoRoutineEnv_t res" where
  "CoRoutineFunc_end sp env =
     get_co env (GetCurrCo env) (\<lambda>r. co_yield_env sp (set_co (GetCurrCo env) (r\<lparr>cEnd := True\<rparr>) env))"

section \<open>Coroutine-specific data and the hook switch\<close>

text \<open>The thread's own values (\<open>pthread_getspecific\<close>) are a separate store.\<close>

definition co_getspecific :: "stCoRoutineEnv_t \<Rightarrow> (nat \<Rightarrow> nat) \<Rightarrow> nat \<Rightarrow> nat res" where
  "co_getspecific env thread key =
     get_co env (GetCurrCo env) (\<lambda>r.
       if cIsMain r then Inr (thread key) else if key < 1024 then Inr (aSpec r key) else Inl Out_of_bounds)"

definition co_setspecific ::
    "stCoRoutineEnv_t \<Rightarrow> (nat \<Rightarrow> nat) \<Rightarrow> nat \<Rightarrow> nat \<Rightarrow> (stCoRoutineEnv_t \<times> (nat \<Rightarrow> nat)) res" where
  "co_setspecific env thread key value =
     get_co env (GetCurrCo env) (\<lambda>r.
       if cIsMain r then Inr (env, thread(key := value))
       else if key < 1024 then Inr (set_co (GetCurrCo env) (r\<lparr>aSpec := (aSpec r)(key := value)\<rparr>) env, thread)
       else Inl Out_of_bounds)"

definition co_enable_hook_sys :: "stCoRoutineEnv_t \<Rightarrow> stCoRoutineEnv_t res" where
  "co_enable_hook_sys env =
     get_co env (GetCurrCo env) (\<lambda>r. Inr (set_co (GetCurrCo env) (r\<lparr>cEnableSysHook := True\<rparr>) env))"

definition co_disable_hook_sys :: "stCoRoutineEnv_t \<Rightarrow> stCoRoutineEnv_t res" where
  "co_disable_hook_sys env =
     get_co env (GetCurrCo env) (\<lambda>r. Inr (set_co (GetCurrCo env) (r\<lparr>cEnableSysHook := False\<rparr>) env))"

definition co_is_enable_sys_hook :: "stCoRoutineEnv_t \<Rightarrow> bool res" where
  "co_is_enable_sys_hook env = get_co env (GetCurrCo env) (\<lambda>r. Inr (cEnableSysHook r))"

section \<open>Stack sizes\<close>

lemma and_low_bits: "unat (n AND 0xFFF :: 32 word) = unat n mod 4096"
proof -
  have "n AND 0xFFF = take_bit 12 n" by (simp add: take_bit_eq_mask mask_numeral)
  then show ?thesis by (simp only: unsigned_take_bit_eq) (simp add: take_bit_eq_mod)
qed

lemma and_split: "(x AND m) + (x AND NOT m) = (x :: 'a::len word)"
  by (subst disjunctive_add) (auto simp: bit_and_iff bit_not_iff bit.conj_disj_distrib [symmetric])

lemma and_high_bits: "unat (n AND NOT 0xFFF :: 32 word) = unat n - unat n mod 4096"
proof -
  have "n AND NOT 0xFFF = n - (n AND 0xFFF)" by (metis add_diff_cancel_left' and_split)
  moreover have "(n AND 0xFFF) \<le> n" by (simp add: word_le_nat_alt and_low_bits)
  ultimately show ?thesis by (simp add: unat_sub and_low_bits)
qed

lemma round_up_page:
  assumes "unat (n :: 32 word) \<le> 8388608"
  shows "unat (if n AND 0xFFF \<noteq> 0 then (n AND NOT 0xFFF) + 0x1000 else n) = (unat n + 4095) div 4096 * 4096"
proof (cases "unat n mod 4096 = 0")
  case True
  then have "n AND 0xFFF = 0" using and_low_bits [of n] by (simp add: unat_eq_0)
  moreover have "(unat n + 4095) div 4096 * 4096 = unat n" 
  proof -
    obtain q where "unat n = 4096 * q" using True by (auto simp: mod_eq_0_iff_dvd)
    then show ?thesis by simp
  qed
  ultimately show ?thesis by simp
next
  case False
  then have ne: "n AND 0xFFF \<noteq> 0" using and_low_bits [of n] by auto
  have "unat ((n AND NOT 0xFFF) + 0x1000) = unat n - unat n mod 4096 + 4096"
  proof -
    have "unat (n AND NOT 0xFFF) + unat (0x1000 :: 32 word) < 2 ^ LENGTH(32)"
      using assms and_high_bits [of n] by simp
    from this [THEN unat_add_lem [THEN iffD1]] show ?thesis using and_high_bits [of n] by simp
  qed
  moreover have "(q * 4096 + r + 4095) div 4096 * 4096 = q * 4096 + 4096" if "0 < r" "r < 4096" for q r :: nat
  proof -
    have "(q * 4096 + r + 4095) div 4096 = q + 1" using that by (intro div_nat_eqI) simp_all
    then show ?thesis by simp
  qed
  from this [of "unat n mod 4096" "unat n div 4096"]
  have "(unat n + 4095) div 4096 * 4096 = unat n div 4096 * 4096 + 4096" using False by simp
  ultimately show ?thesis using ne by (simp add: minus_mod_eq_div_mult)
qed

text \<open>
  C23. Every stack size \<open>co_create_env\<close> computes from the \<open>int\<close> the caller asks for is a positive
  multiple of the 4096-byte page and at most 8 MiB; a size between 1 byte and 8 MiB is rounded up to
  the next page and never down, and any other size (zero or negative) becomes 128 KiB or is cut to
  8 MiB.\<close>

theorem stack_size_bounds:
  "4096 dvd unat (adjust_stack_size n) \<and> 0 < unat (adjust_stack_size n) \<and> unat (adjust_stack_size n) \<le> 8388608 \<and>
   (if sint n \<le> 0 then unat (adjust_stack_size n) = 131072
    else if sint n > 8388608 then unat (adjust_stack_size n) = 8388608
    else unat n \<le> unat (adjust_stack_size n) \<and> unat (adjust_stack_size n) < unat n + 4096)"
proof -
  define k where "k = (if sint n \<le> 0 then default_stack_size else if sint n > sint max_stack_size then max_stack_size else n)"
  have max: "sint max_stack_size = 8388608" by (simp add: max_stack_size_def)
  have mid: "int (unat n) = sint n" if "0 < sint n"
    using that sint_less [of n] by (simp only: of_nat_unat uint_sint) (simp add: take_bit_int_eq_self)
  have k: "unat k = (if sint n \<le> 0 then 131072 else if sint n > 8388608 then 8388608 else unat n)"
    unfolding k_def max by (simp add: default_stack_size_def max_stack_size_def)
  have kb: "unat k \<le> 8388608" and kp: "0 < unat k"
    using k mid by (cases "sint n \<le> 0"; cases "sint n > 8388608"; simp del: of_nat_unat)+
  have r: "unat (adjust_stack_size n) = (unat k + 4095) div 4096 * 4096"
    using round_up_page [OF kb] by (simp only: adjust_stack_size_def Let_def k_def)
  have "unat k \<le> (unat k + 4095) div 4096 * 4096" "(unat k + 4095) div 4096 * 4096 < unat k + 4096"
    using mod_less_divisor [of 4096 "unat k + 4095"] div_mult_mod_eq [of "unat k + 4095" 4096] by linarith+
  moreover have "(unat k + 4095) div 4096 * 4096 \<le> 8388608"
  proof -
    have "(unat k + 4095) div 4096 \<le> (8388608 + 4095) div 4096" using kb by (intro div_le_mono) simp
    then show ?thesis by simp
  qed
  ultimately show ?thesis unfolding r using k kp by auto
qed

section \<open>Contexts and share stacks\<close>

text \<open>A new context enters its function with the stack pointer the x86-64 ABI asks for.\<close>

lemma coctx_make_aligned: "(kRSP (coctx_make ss_sp ss_size pfn s s1) + 8) AND 15 = 0"
  by (rule bit_word_eqI) (auto simp: coctx_make_def Let_def bit_and_iff bit_simps)

fun take_stackmems :: "nat \<Rightarrow> stShareStack_t \<Rightarrow> (nat list \<times> stShareStack_t) res" where
  "take_stackmems 0 ss = Inr ([], ss)"
| "take_stackmems (Suc n) ss =
     bind_res (co_get_stackmem ss) (\<lambda>(m, ss'). bind_res (take_stackmems n ss') (\<lambda>(ms, ss''). Inr (m # ms, ss'')))"

lemma co_get_stackmem_round_robin:
  assumes "stack_array ss \<noteq> []" "length (stack_array ss) < 2 ^ 31" "unat (alloc_idx ss) + n < 2 ^ 32"
  shows "take_stackmems n ss = Inr
    (map (\<lambda>i. stack_array ss ! ((unat (alloc_idx ss) + i) mod length (stack_array ss))) [0..<n],
     ss\<lparr>alloc_idx := alloc_idx ss + of_nat n\<rparr>)"
  using assms
proof (induction n arbitrary: ss)
  case (Suc n)
  have len: "unat (of_nat (length (stack_array ss)) :: 32 word) = length (stack_array ss)"
    using Suc.prems(2) by (simp add: unsigned_of_nat take_bit_nat_eq_self)
  have next_idx: "unat (alloc_idx ss + 1) = unat (alloc_idx ss) + 1"
    using Suc.prems(3) unat_add_lem [of "alloc_idx ss" 1] by simp
  have "[0..<Suc n] = 0 # map Suc [0..<n]" by (simp add: map_Suc_upt upt_conv_Cons del: upt_Suc)
  with Suc.IH [of "ss\<lparr>alloc_idx := alloc_idx ss + 1\<rparr>"] Suc.prems next_idx len show ?case
    by (simp add: co_get_stackmem_def unat_mod comp_def algebra_simps del: upt_Suc)
qed simp

section \<open>Stacks that coroutines share\<close>

abbreviation mem_of :: "stCoRoutineEnv_t \<Rightarrow> stCoRoutine_t \<Rightarrow> stStackMem_t" where
  "mem_of env r \<equiv> smem env (stack_mem r)"

text \<open>
  A suspended coroutine's part of the stack is on the stack while the coroutine occupies it, and in
  its save buffer otherwise.
\<close>

definition susp_ok :: "stCoRoutineEnv_t \<Rightarrow> nat \<Rightarrow> stCoRoutine_t \<Rightarrow> bool" where
  "susp_ok env c r \<longleftrightarrow> stack_sp r \<le> length (stack_buffer (mem_of env r)) \<and>
     (occupy_co (mem_of env r) = Some c \<or>
      (\<exists>b. save_buffer r = Some b \<and> save_size r = length b \<and>
           length b = length (stack_buffer (mem_of env r)) - stack_sp r))"

definition stack_view :: "stCoRoutineEnv_t \<Rightarrow> nat \<Rightarrow> stCoRoutine_t \<Rightarrow> bytes" where
  "stack_view env c r =
     (if occupy_co (mem_of env r) = Some c then drop (stack_sp r) (stack_buffer (mem_of env r))
      else the (save_buffer r))"

text \<open>
  The invariant, with \<open>cur\<close> running; the coroutines of \<open>X\<close> are marked as started but have not
  run yet.
\<close>

definition occupants_ok :: "stCoRoutineEnv_t \<Rightarrow> bool" where
  "occupants_ok env \<longleftrightarrow>
     (\<forall>m c. occupy_co (smem env m) = Some c \<longrightarrow>
        (\<exists>r. co env c = Some r \<and> cIsShareStack r \<and> stack_mem r = m)) \<and>
     (\<forall>c d r s. co env c = Some r \<longrightarrow> co env d = Some s \<longrightarrow> stack_mem r = stack_mem s \<longrightarrow>
        cIsShareStack r \<longrightarrow> cIsShareStack s)"

definition started_ok :: "stCoRoutineEnv_t \<Rightarrow> nat \<Rightarrow> nat set \<Rightarrow> bool" where
  "started_ok env cur X \<longleftrightarrow>
     (\<forall>c r. c \<notin> X \<longrightarrow> co env c = Some r \<longrightarrow> cIsShareStack r \<longrightarrow> cStart r \<longrightarrow>
        occupy_co (mem_of env r) \<noteq> None \<and>
        (if c = cur then occupy_co (mem_of env r) = Some c else susp_ok env c r))"

text \<open>What a switch keeps of a coroutine.\<close>

definition same_co :: "stCoRoutine_t \<Rightarrow> stCoRoutine_t \<Rightarrow> bool" where
  "same_co r r' \<longleftrightarrow> (\<exists>a b s. r' = r\<lparr>stack_sp := a, save_size := b, save_buffer := s\<rparr>)"

definition switched :: "stCoRoutineEnv_t \<Rightarrow> nat \<Rightarrow> nat \<Rightarrow> nat \<Rightarrow> bool \<Rightarrow> stCoRoutineEnv_t \<Rightarrow> bool" where
  "switched env cur sp p st env' \<longleftrightarrow>
     pCallStack env' = pCallStack env \<and> iCallStackSize env' = iCallStackSize env \<and>
     (\<forall>c. rel_option same_co (co env c) (co env' c)) \<and>
     (\<forall>m. length (stack_buffer (smem env' m)) = length (stack_buffer (smem env m))) \<and>
     occupants_ok env' \<and> started_ok env' p {} \<and>
     (\<forall>c r r'. co env c = Some r \<longrightarrow> co env' c = Some r' \<longrightarrow> cIsShareStack r \<longrightarrow> cStart r \<longrightarrow>
        (if c = cur then stack_view env' c r' = drop sp (stack_buffer (mem_of env r)) \<and> stack_sp r' = sp
         else if c = p then st \<longrightarrow> stack_view env' c r' = stack_view env c r \<and> stack_sp r' = stack_sp r
         else stack_view env' c r' = stack_view env c r \<and> stack_sp r' = stack_sp r))"

definition co_swap :: "nat \<Rightarrow> nat \<Rightarrow> nat \<Rightarrow> bool \<Rightarrow> stCoRoutineEnv_t \<Rightarrow> stCoRoutineEnv_t res" where
  "co_swap cur sp p st env =
     bind_res (co_swap_leave cur sp p env) (\<lambda>env. if st then co_swap_enter env else Inr env)"

lemma same_co_simps [simp]:
  "same_co r r" "same_co r (r\<lparr>stack_sp := a\<rparr>)" "same_co r (r\<lparr>save_buffer := s, save_size := b\<rparr>)"
  "same_co r (r\<lparr>stack_sp := a, save_buffer := s, save_size := b\<rparr>)"
  unfolding same_co_def
  by (rule exI [of _ "stack_sp r"], rule exI [of _ "save_size r"], rule exI [of _ "save_buffer r"], simp)
    (rule exI [of _ a], rule exI [of _ "save_size r"], rule exI [of _ "save_buffer r"], simp,
     rule exI [of _ "stack_sp r"], rule exI [of _ b], rule exI [of _ s], simp,
     rule exI [of _ a], rule exI [of _ b], rule exI [of _ s], simp)

lemma same_coD:
  assumes "same_co r r'"
  shows "cIsShareStack r' = cIsShareStack r" "stack_mem r' = stack_mem r" "cStart r' = cStart r"
    "cEnd r' = cEnd r" "cIsMain r' = cIsMain r"
  using assms by (auto simp: same_co_def)

lemma occupants_okD:
  assumes "occupants_ok env"
  shows "occupy_co (smem env m) = Some c \<Longrightarrow> \<exists>r. co env c = Some r \<and> cIsShareStack r \<and> stack_mem r = m"
    "co env c = Some r \<Longrightarrow> co env d = Some s \<Longrightarrow> stack_mem r = stack_mem s \<Longrightarrow> cIsShareStack r \<Longrightarrow> cIsShareStack s"
  using assms unfolding occupants_ok_def by blast+

lemma started_okD:
  assumes "started_ok env cur X" "c \<notin> X" "co env c = Some r" "cIsShareStack r" "cStart r"
  shows "occupy_co (mem_of env r) \<noteq> None" "c = cur \<Longrightarrow> occupy_co (mem_of env r) = Some c"
    "c \<noteq> cur \<Longrightarrow> susp_ok env c r"
  using assms unfolding started_ok_def by auto

definition same_place :: "stCoRoutine_t \<Rightarrow> stCoRoutine_t \<Rightarrow> bool" where
  "same_place r r' \<longleftrightarrow> cIsShareStack r' = cIsShareStack r \<and> stack_mem r' = stack_mem r"

lemma same_co_place: "rel_option same_co a b \<Longrightarrow> rel_option same_place a b"
  by (auto simp: same_place_def same_coD elim: option.rel_mono_strong)

lemma occupants_ok_keep:
  assumes "occupants_ok env" "\<And>c. rel_option same_place (co env c) (co env' c)"
    and "\<And>m c. occupy_co (smem env' m) = Some c \<Longrightarrow>
      occupy_co (smem env m) = Some c \<or> (\<exists>r. co env c = Some r \<and> cIsShareStack r \<and> stack_mem r = m)"
  shows "occupants_ok env'"
  unfolding occupants_ok_def
proof (intro conjI allI impI)
  have forth: "\<exists>r'. co env' c = Some r' \<and> same_place r r'" if "co env c = Some r" for c r
    using assms(2) [of c] that by (cases "co env' c") auto
  fix m c assume "occupy_co (smem env' m) = Some c"
  from assms(3) [OF this] assms(1) have "\<exists>r. co env c = Some r \<and> cIsShareStack r \<and> stack_mem r = m"
    unfolding occupants_ok_def by blast
  then show "\<exists>r. co env' c = Some r \<and> cIsShareStack r \<and> stack_mem r = m"
    using forth by (force simp: same_place_def)
next
  fix c d r s assume "co env' c = Some r" "co env' d = Some s" "stack_mem r = stack_mem s" "cIsShareStack r"
  moreover from this assms(2) [of c] assms(2) [of d] obtain r0 s0
    where 0: "co env c = Some r0" "same_place r0 r" "co env d = Some s0" "same_place s0 s"
    by (cases "co env c"; cases "co env d") auto
  ultimately show "cIsShareStack s"
    using occupants_okD(2) [OF assms(1) 0(1,3)] 0(2,4) by (simp add: same_place_def)
qed

text \<open>A switch from its effect on the coroutine that enters and on each of the others.\<close>

lemma switchedI:
  assumes "occupants_ok env" "started_ok env cur X" "X \<subseteq> {p}" "p \<noteq> cur"
    and frame: "pCallStack env' = pCallStack env" "iCallStackSize env' = iCallStackSize env"
      "\<And>m. length (stack_buffer (smem env' m)) = length (stack_buffer (smem env m))"
      "\<And>c. rel_option same_co (co env c) (co env' c)"
    and occ: "\<And>m c. occupy_co (smem env' m) = Some c \<Longrightarrow> occupy_co (smem env m) = Some c \<or>
      (\<exists>r. co env c = Some r \<and> cIsShareStack r \<and> stack_mem r = m)"
    and enter: "\<And>r r'. co env p = Some r \<Longrightarrow> co env' p = Some r' \<Longrightarrow> cIsShareStack r \<Longrightarrow> cStart r \<Longrightarrow>
      occupy_co (mem_of env' r') = Some p \<and>
      (st \<longrightarrow> stack_view env' p r' = stack_view env p r \<and> stack_sp r' = stack_sp r)"
    and other: "\<And>c r r'. c \<noteq> p \<Longrightarrow> co env c = Some r \<Longrightarrow> co env' c = Some r' \<Longrightarrow> cIsShareStack r \<Longrightarrow>
      occupy_co (mem_of env r) \<noteq> None \<Longrightarrow> (c = cur \<Longrightarrow> occupy_co (mem_of env r) = Some c) \<Longrightarrow>
      (c \<noteq> cur \<Longrightarrow> susp_ok env c r) \<Longrightarrow>
      occupy_co (mem_of env' r') \<noteq> None \<and> susp_ok env' c r' \<and>
      (if c = cur then stack_view env' c r' = drop sp (stack_buffer (mem_of env r)) \<and> stack_sp r' = sp
       else stack_view env' c r' = stack_view env c r \<and> stack_sp r' = stack_sp r)"
  shows "switched env cur sp p st env'"
proof -
  have pre: "\<exists>r. co env c = Some r \<and> same_co r r'" if "co env' c = Some r'" for c r'
    using frame(4) [of c] that by (cases "co env c") auto
  have oth: "occupy_co (mem_of env' r') \<noteq> None \<and> susp_ok env' c r' \<and>
      (if c = cur then stack_view env' c r' = drop sp (stack_buffer (mem_of env r)) \<and> stack_sp r' = sp
       else stack_view env' c r' = stack_view env c r \<and> stack_sp r' = stack_sp r)"
    if "c \<noteq> p" "co env c = Some r" "co env' c = Some r'" "cIsShareStack r" "cStart r" for c r r'
  proof -
    have "c \<notin> X" using that(1) assms(3) by auto
    then show ?thesis using other [OF that(1-4)] started_okD [OF assms(2) _ that(2,4,5)] by blast
  qed
  have "started_ok env' p {}"
    unfolding started_ok_def
  proof (intro allI impI)
    fix c r' assume c: "co env' c = Some r'" "cIsShareStack r'" "cStart r'"
    from pre [OF c(1)] obtain r where r: "co env c = Some r" "same_co r r'" by blast
    then show "occupy_co (mem_of env' r') \<noteq> None \<and>
      (if c = p then occupy_co (mem_of env' r') = Some c else susp_ok env' c r')"
      using oth [OF _ r(1) c(1)] enter [of r r'] c same_coD [OF r(2)] by auto
  qed
  moreover have "occupants_ok env'" by (rule occupants_ok_keep [OF assms(1) same_co_place [OF frame(4)] occ])
  moreover have "if c = cur then stack_view env' c r' = drop sp (stack_buffer (mem_of env r)) \<and> stack_sp r' = sp
      else if c = p then st \<longrightarrow> stack_view env' c r' = stack_view env c r \<and> stack_sp r' = stack_sp r
      else stack_view env' c r' = stack_view env c r \<and> stack_sp r' = stack_sp r"
    if "co env c = Some r" "co env' c = Some r'" "cIsShareStack r" "cStart r" for c r r'
  proof (cases "c = p")
    case True
    with that enter [of r r'] assms(4) show ?thesis by simp
  next
    case False
    from oth [OF False that] False show ?thesis by (cases "c = cur") simp_all
  qed
  ultimately show ?thesis
    unfolding switched_def using frame by (intro conjI allI impI) blast+
qed

lemma swap_to_own_stack:
  assumes "occupants_ok env" "started_ok env cur X" "co env cur = Some rc" "co env p = Some rp" "p \<noteq> cur"
    and "\<not> cIsShareStack rp" "X \<subseteq> {p}" "cIsShareStack rc \<Longrightarrow> sp \<le> length (stack_buffer (mem_of env rc))"
  shows "res_ok (co_swap cur sp p st env) (switched env cur sp p st)"
proof -
  define env' where "env' = set_co cur (rc\<lparr>stack_sp := sp\<rparr>) env\<lparr>pending_co := None, env_occupy_co := None\<rparr>"
  have e: "co env' = (co env)(cur \<mapsto> rc\<lparr>stack_sp := sp\<rparr>)" "smem env' = smem env"
    by (simp_all add: env'_def set_co_def)
  have "switched env cur sp p st env'"
  proof (rule switchedI [OF assms(1,2,7,5)])
    show "rel_option same_co (co env c) (co env' c)" for c
      using assms(3) by (auto simp: e rel_option_iff split: option.splits)
  qed (use assms(3-6,8) in \<open>auto simp: e env'_def set_co_def susp_ok_def stack_view_def split: if_splits\<close>)
  moreover have "co_swap cur sp p st env = Inr env'"
    using assms by (simp add: co_swap_def co_swap_leave_def get_co_def set_co_def co_swap_enter_def env'_def Let_def)
  ultimately show ?thesis by simp
qed

lemma swap_to_occupant:
  assumes "occupants_ok env" "started_ok env cur X" "co env cur = Some rc" "co env p = Some rp" "p \<noteq> cur"
    and "cIsShareStack rp" "X \<subseteq> {p}" "cIsShareStack rc \<Longrightarrow> sp \<le> length (stack_buffer (mem_of env rc))"
    and "occupy_co (mem_of env rp) = Some p \<or> occupy_co (mem_of env rp) = None \<and> \<not> st"
  shows "res_ok (co_swap cur sp p st env) (switched env cur sp p st)"
proof -
  let ?m = "stack_mem rp" and ?o = "occupy_co (mem_of env rp)"
  define env' where "env' = set_mem ?m ((smem env ?m)\<lparr>occupy_co := Some p\<rparr>)
    (set_co cur (rc\<lparr>stack_sp := sp\<rparr>) env\<lparr>pending_co := Some p, env_occupy_co := ?o\<rparr>)"
  have e: "co env' = (co env)(cur \<mapsto> rc\<lparr>stack_sp := sp\<rparr>)"
      "smem env' = (smem env)(?m := (smem env ?m)\<lparr>occupy_co := Some p\<rparr>)"
    by (simp_all add: env'_def set_co_def set_mem_def)
  have "switched env cur sp p st env'"
  proof (rule switchedI [OF assms(1,2,7,5)])
    show "rel_option same_co (co env c) (co env' c)" for c
      using assms(3) by (auto simp: e rel_option_iff split: option.splits)
  next
    fix c r r' assume "c \<noteq> p" "co env c = Some r" "co env' c = Some r'" "cIsShareStack r"
      "occupy_co (mem_of env r) \<noteq> None" "c = cur \<Longrightarrow> occupy_co (mem_of env r) = Some c" "c \<noteq> cur \<Longrightarrow> susp_ok env c r"
    moreover from this assms(9) have "stack_mem r = ?m \<Longrightarrow> occupy_co (mem_of env r) = Some p" by auto
    ultimately show "occupy_co (mem_of env' r') \<noteq> None \<and> susp_ok env' c r' \<and>
      (if c = cur then stack_view env' c r' = drop sp (stack_buffer (mem_of env r)) \<and> stack_sp r' = sp
       else stack_view env' c r' = stack_view env c r \<and> stack_sp r' = stack_sp r)"
      using assms(3,8) by (cases "c = cur"; cases "stack_mem r = ?m") (auto simp: e susp_ok_def stack_view_def)
  qed (use assms(3-6,8,9) in \<open>auto simp: e env'_def set_co_def set_mem_def stack_view_def split: if_splits\<close>)
  moreover have "co_swap cur sp p st env = Inr env'"
    using assms(3-6,9)
    by (auto simp: co_swap_def co_swap_leave_def get_co_def set_co_def co_swap_enter_def env'_def Let_def set_mem_def)
  ultimately show ?thesis by simp
qed

lemma drop_blit_tail:
  assumes "i \<le> length xs" "length ys = length xs - i"
  shows "drop i (blit xs i ys) = ys" "length (blit xs i ys) = length xs"
  using assms by (simp_all add: blit_def)

text \<open>The stack belongs to another coroutine \<open>d\<close>: its part is saved and that of \<open>p\<close> put back.\<close>

lemma swap_to_saved:
  assumes "occupants_ok env" "started_ok env cur X" "co env cur = Some rc" "co env p = Some rp" "p \<noteq> cur"
    and "cIsShareStack rp" "X = (if st then {} else {p})" "cStart rp" "cIsShareStack rc \<Longrightarrow> sp \<le> length (stack_buffer (mem_of env rc))"
    and "occupy_co (mem_of env rp) = Some d" "d \<noteq> p"
  shows "res_ok (co_swap cur sp p st env) (switched env cur sp p st)"
proof -
  let ?m = "stack_mem rp"
  let ?buf = "stack_buffer (smem env ?m)"
  from occupants_okD(1) [OF assms(1,10)] obtain rd where rd: "co env d = Some rd" "cIsShareStack rd" "stack_mem rd = ?m"
    by blast
  define rd' where "rd' = (if d = cur then rd\<lparr>stack_sp := sp\<rparr> else rd)"
  define live where "live = drop (stack_sp rd') ?buf"
  define new where "new = (if st then blit ?buf (stack_sp rp) (the (save_buffer rp)) else ?buf)"
  define env' where "env' = set_mem ?m ((smem env ?m)\<lparr>occupy_co := Some p, stack_buffer := new\<rparr>)
    (set_co d (rd'\<lparr>save_buffer := Some live, save_size := length live\<rparr>)
      (set_co cur (rc\<lparr>stack_sp := sp\<rparr>) env\<lparr>pending_co := Some p, env_occupy_co := Some d\<rparr>))"
  have e: "co env' = ((co env)(cur \<mapsto> rc\<lparr>stack_sp := sp\<rparr>))(d \<mapsto> rd'\<lparr>save_buffer := Some live, save_size := length live\<rparr>)"
      "smem env' = (smem env)(?m := (smem env ?m)\<lparr>occupy_co := Some p, stack_buffer := new\<rparr>)"
    by (simp_all add: env'_def set_co_def set_mem_def)
  have saved: "stack_sp rp \<le> length ?buf" "save_buffer rp = Some (the (save_buffer rp))"
      "save_size rp = length (the (save_buffer rp))" "length (the (save_buffer rp)) = length ?buf - stack_sp rp" if st
    using started_okD(3) [OF assms(2) _ assms(4,6,8)] that assms(5,7,10,11) by (auto simp: susp_ok_def)
  have len: "length new = length ?buf" using saved drop_blit_tail(2) by (auto simp: new_def)
  have "switched env cur sp p st env'"
  proof (rule switchedI [OF assms(1,2)])
    show "rel_option same_co (co env c) (co env' c)" for c
      using assms(3) rd(1) by (auto simp: e rd'_def rel_option_iff split: option.splits)
  next
    fix r r' assume r: "co env p = Some r" "co env' p = Some r'"
    then have "r = rp" "r' = rp" using assms(4,5,11) by (auto simp: e)
    then show "occupy_co (mem_of env' r') = Some p \<and>
        (st \<longrightarrow> stack_view env' p r' = stack_view env p r \<and> stack_sp r' = stack_sp r)"
      using saved assms(10,11) drop_blit_tail(1) by (auto simp: e stack_view_def new_def)
  next
    fix c r r' assume c: "c \<noteq> p" "co env c = Some r" "co env' c = Some r'" "cIsShareStack r"
      "occupy_co (mem_of env r) \<noteq> None" "c = cur \<Longrightarrow> occupy_co (mem_of env r) = Some c" "c \<noteq> cur \<Longrightarrow> susp_ok env c r"
    have cm: "stack_mem r = ?m \<Longrightarrow> c = cur \<Longrightarrow> c = d" using c(6) assms(10) by auto
    show "occupy_co (mem_of env' r') \<noteq> None \<and> susp_ok env' c r' \<and>
      (if c = cur then stack_view env' c r' = drop sp (stack_buffer (mem_of env r)) \<and> stack_sp r' = sp
       else stack_view env' c r' = stack_view env c r \<and> stack_sp r' = stack_sp r)"
    proof (cases "c = d")
      case True
      with c rd assms(3) have "r = rd" "r' = rd'\<lparr>save_buffer := Some live, save_size := length live\<rparr>" by (auto simp: e)
      with c(1,7) True rd assms(3,9,10,11) len show ?thesis
        by (auto simp: e rd'_def live_def susp_ok_def stack_view_def)
    next
      case False
      with c cm assms(3,9,10,11) len show ?thesis
        by (cases "c = cur"; cases "stack_mem r = ?m") (auto simp: e susp_ok_def stack_view_def)
    qed
  qed (use assms(3-7) len in \<open>auto simp: e env'_def set_co_def set_mem_def split: if_splits\<close>)
  moreover have "co_swap cur sp p st env = Inr env'"
  proof -
    define env1 where "env1 = set_mem ?m ((smem env ?m)\<lparr>occupy_co := Some p\<rparr>)
      (set_co d (rd'\<lparr>save_buffer := Some live, save_size := length live\<rparr>)
        (set_co cur (rc\<lparr>stack_sp := sp\<rparr>) env\<lparr>pending_co := Some p, env_occupy_co := Some d\<rparr>))"
    have leave: "co_swap_leave cur sp p env = Inr env1"
      using assms(3-6,10,11) rd
      by (auto simp: co_swap_leave_def save_stack_buffer_def get_co_def set_co_def set_mem_def
          env1_def Let_def rd'_def live_def)
    have p1: "co env1 p = Some rp" "env_occupy_co env1 = Some d" "pending_co env1 = Some p"
      using assms(4,5,11) by (simp_all add: env1_def set_co_def set_mem_def)
    show ?thesis
    proof (cases st)
      case True
      then obtain b where b: "save_buffer rp = Some b" "save_size rp = length b" "new = blit ?buf (stack_sp rp) b"
        using saved by (metis new_def option.sel)
      have "co_swap_enter env1 = Inr env'"
        using p1 b assms(11)
        by (cases "b = []") (simp_all add: co_swap_enter_def get_co_def Let_def env1_def env'_def set_co_def set_mem_def)
      with leave True show ?thesis by (simp add: co_swap_def)
    next
      case False
      then have "env1 = env'" by (simp add: env1_def env'_def new_def set_co_def set_mem_def)
      with leave False show ?thesis by (simp add: co_swap_def)
    qed
  qed
  ultimately show ?thesis by simp
qed

lemma co_swap_ok:
  assumes "occupants_ok env" "started_ok env cur (if st then {} else {p})" "co env cur = Some rc" "co env p = Some rp"
    and "p \<noteq> cur" "cIsShareStack rp \<Longrightarrow> cStart rp" "cIsShareStack rc \<Longrightarrow> sp \<le> length (stack_buffer (mem_of env rc))"
  shows "res_ok (co_swap cur sp p st env) (switched env cur sp p st)"
proof (cases "cIsShareStack rp")
  case False
  show ?thesis by (rule swap_to_own_stack [OF assms(1-5) False _ assms(7)]) simp_all
next
  case True
  show ?thesis
  proof (cases "occupy_co (mem_of env rp)")
    case None
    then have "\<not> st" using started_okD(1) [OF assms(2) _ assms(4) True assms(6) [OF True]] by auto
    with None show ?thesis by (intro swap_to_occupant [OF assms(1-5) True _ assms(7)]) simp_all
  next
    case (Some d)
    show ?thesis
    proof (cases "d = p")
      case True
      with Some \<open>cIsShareStack rp\<close> show ?thesis
        by (intro swap_to_occupant [OF assms(1-5) _ _ assms(7)]) simp_all
    qed (intro swap_to_saved [OF assms(1-5) True refl assms(6) [OF True] assms(7) Some])
  qed
qed

section \<open>Runs of coroutines\<close>

definition env_ok :: "stCoRoutineEnv_t \<Rightarrow> bool" where
  "env_ok env \<longleftrightarrow> occupants_ok env \<and> started_ok env (GetCurrCo env) {} \<and> length (pCallStack env) = 128 \<and>
     1 \<le> iCallStackSize env \<and> iCallStackSize env \<le> 128 \<and>
     (\<forall>i < iCallStackSize env. \<exists>r. co env (pCallStack env ! i) = Some r \<and> (cIsShareStack r \<longrightarrow> cStart r))"

text \<open>What the running coroutine does: write to its stack, resume another coroutine, or yield.\<close>

datatype co_act = Act_write bytes | Act_resume nat nat | Act_yield nat

fun co_do :: "stCoRoutineEnv_t \<Rightarrow> co_act \<Rightarrow> stCoRoutineEnv_t res" where
  "co_do env (Act_write buf) =
     get_co env (GetCurrCo env) (\<lambda>r. Inr (set_mem (stack_mem r) ((mem_of env r)\<lparr>stack_buffer := buf\<rparr>) env))"
| "co_do env (Act_resume c sp) = co_resume c sp env"
| "co_do env (Act_yield sp) = co_yield_env sp env"

definition sp_ok :: "stCoRoutineEnv_t \<Rightarrow> nat \<Rightarrow> bool" where
  "sp_ok env sp \<longleftrightarrow>
     (case co env (GetCurrCo env) of
        None \<Rightarrow> True
      | Some r \<Rightarrow> cIsShareStack r \<longrightarrow> sp \<le> length (stack_buffer (mem_of env r)))"

fun act_ok :: "stCoRoutineEnv_t \<Rightarrow> co_act \<Rightarrow> bool" where
  "act_ok env (Act_write buf) \<longleftrightarrow>
     (case co env (GetCurrCo env) of None \<Rightarrow> True | Some r \<Rightarrow> length buf = length (stack_buffer (mem_of env r)))"
| "act_ok env (Act_resume c sp) \<longleftrightarrow>
     co env c \<noteq> None \<and> c \<noteq> GetCurrCo env \<and> iCallStackSize env < 128 \<and> sp_ok env sp"
| "act_ok env (Act_yield sp) \<longleftrightarrow>
     2 \<le> iCallStackSize env \<and> pCallStack env ! (iCallStackSize env - 2) \<noteq> GetCurrCo env \<and> sp_ok env sp"

text \<open>What an action keeps of the coroutines other than the running one.\<close>

definition keeps_views :: "stCoRoutineEnv_t \<Rightarrow> stCoRoutineEnv_t \<Rightarrow> bool" where
  "keeps_views env env' \<longleftrightarrow>
     (\<forall>c r. c \<noteq> GetCurrCo env \<longrightarrow> co env c = Some r \<longrightarrow> cIsShareStack r \<longrightarrow> cStart r \<longrightarrow>
        (\<exists>r'. co env' c = Some r' \<and> cIsShareStack r' \<and> cStart r' \<and> stack_mem r' = stack_mem r \<and>
              stack_view env' c r' = stack_view env c r \<and> stack_sp r' = stack_sp r))"

lemma env_ok_cur:
  assumes "env_ok env"
  shows "\<exists>r. co env (GetCurrCo env) = Some r \<and> (cIsShareStack r \<longrightarrow> cStart r)"
proof -
  have "iCallStackSize env - 1 < iCallStackSize env" using assms by (simp add: env_ok_def)
  then show ?thesis using assms unfolding env_ok_def GetCurrCo_def by blast
qed

lemma write_ok:
  assumes "env_ok env" "act_ok env (Act_write buf)"
  shows "res_ok (co_do env (Act_write buf)) (\<lambda>env'. env_ok env' \<and> keeps_views env env' \<and> GetCurrCo env' = GetCurrCo env)"
proof -
  let ?cur = "GetCurrCo env"
  from env_ok_cur [OF assms(1)] obtain rc where rc: "co env ?cur = Some rc" "cIsShareStack rc \<longrightarrow> cStart rc" by blast
  define env' where "env' = set_mem (stack_mem rc) ((mem_of env rc)\<lparr>stack_buffer := buf\<rparr>) env"
  have st: "started_ok env ?cur {}" and oc: "occupants_ok env" using assms(1) by (simp_all add: env_ok_def)
  have len: "length buf = length (stack_buffer (mem_of env rc))" using assms(2) rc(1) by simp
  have e: "co env' = co env" "GetCurrCo env' = ?cur" "pCallStack env' = pCallStack env" "iCallStackSize env' = iCallStackSize env"
      "smem env' = (smem env)(stack_mem rc := (mem_of env rc)\<lparr>stack_buffer := buf\<rparr>)"
    by (simp_all add: env'_def set_mem_def GetCurrCo_def)
  have sep: "stack_mem r = stack_mem rc \<Longrightarrow> occupy_co (mem_of env r) = Some ?cur"
    if "co env c = Some r" "cIsShareStack r" for c r
    using occupants_okD(2) [OF oc that(1) rc(1)] started_okD(2) [OF st _ rc(1)] that rc(2) by simp
  have "occupants_ok env'"
    by (rule occupants_ok_keep [OF oc]) (auto simp: e same_place_def intro: option.rel_refl split: if_splits)
  moreover have mem: "occupy_co (mem_of env' r) = occupy_co (mem_of env r)"
      "length (stack_buffer (mem_of env' r)) = length (stack_buffer (mem_of env r))" for r
    using len by (simp_all add: e)
  then have "susp_ok env' c r = susp_ok env c r" for c r by (simp only: susp_ok_def)
  then have "started_ok env' ?cur {}" using st unfolding started_ok_def by (simp only: mem e(1))
  moreover have "keeps_views env env'"
    using sep by (fastforce simp: keeps_views_def e stack_view_def)
  ultimately show ?thesis
    using assms(1) rc(1) e by (auto simp: env_ok_def get_co_def env'_def [symmetric])
qed

lemma switched_views:
  assumes "switched env cur sp p st env'" "GetCurrCo env0 = cur" "st \<or> (\<forall>r. co env0 p = Some r \<longrightarrow> \<not> cStart r)"
    and "\<And>c r. c \<noteq> p \<or> st \<Longrightarrow> co env c = Some r \<longleftrightarrow> co env0 c = Some r" "smem env = smem env0"
  shows "keeps_views env0 env'"
  unfolding keeps_views_def
proof (intro allI impI)
  fix c r assume c: "c \<noteq> GetCurrCo env0" "co env0 c = Some r" "cIsShareStack r" "cStart r"
  then have cp: "c \<noteq> p \<or> st" using assms(3) by auto
  then have r: "co env c = Some r" "c \<noteq> p \<or> st" using assms(4) [OF cp, of r] c(2) by simp_all
  obtain r' where r': "co env' c = Some r'" "same_co r r'"
    using assms(1) r(1) unfolding switched_def by (metis option.rel_cases option.distinct(1) option.inject)
  have "stack_view env' c r' = stack_view env c r \<and> stack_sp r' = stack_sp r"
    using assms(1,2) r r'(1) c unfolding switched_def by (auto split: if_splits)
  then show "\<exists>r'. co env' c = Some r' \<and> cIsShareStack r' \<and> cStart r' \<and> stack_mem r' = stack_mem r \<and>
      stack_view env' c r' = stack_view env0 c r \<and> stack_sp r' = stack_sp r"
    using r'(1) same_coD [OF r'(2)] c(3,4) assms(5) by (auto simp: stack_view_def)
qed

text \<open>The view of the coroutine that leaves is its stack from \<open>sp\<close> on.\<close>

definition leaves_view :: "stCoRoutineEnv_t \<Rightarrow> nat \<Rightarrow> stCoRoutineEnv_t \<Rightarrow> bool" where
  "leaves_view env sp env' \<longleftrightarrow>
     (\<forall>r. co env (GetCurrCo env) = Some r \<longrightarrow> cIsShareStack r \<longrightarrow>
        (\<exists>r'. co env' (GetCurrCo env) = Some r' \<and> cIsShareStack r' \<and> cStart r' \<and> stack_mem r' = stack_mem r \<and>
              stack_view env' (GetCurrCo env) r' = drop sp (stack_buffer (mem_of env r)) \<and> stack_sp r' = sp))"

lemma switched_leaves:
  assumes "switched env cur sp p st env'" "GetCurrCo env0 = cur" "env_ok env0"
    and "co env cur = co env0 cur" "smem env = smem env0"
  shows "leaves_view env0 sp env'"
proof -
  from env_ok_cur [OF assms(3)] obtain r where r: "co env cur = Some r" "cIsShareStack r \<longrightarrow> cStart r"
    using assms(2,4) by auto
  obtain r' where r': "co env' cur = Some r'" "same_co r r'"
    using assms(1) r(1) unfolding switched_def by (metis option.rel_cases option.distinct(1) option.inject)
  have "cIsShareStack r \<Longrightarrow> stack_view env' cur r' = drop sp (stack_buffer (mem_of env r)) \<and> stack_sp r' = sp"
    using assms(1) r r'(1) unfolding switched_def by (auto split: if_splits)
  then show ?thesis
    using r r'(1) same_coD [OF r'(2)] assms(2,4,5) by (auto simp: leaves_view_def)
qed

lemma call_stack_irrelevant:
  "occupants_ok (env\<lparr>pCallStack := s, iCallStackSize := n\<rparr>) = occupants_ok env"
  "started_ok (env\<lparr>pCallStack := s, iCallStackSize := n\<rparr>) cur X = started_ok env cur X"
  "occupants_ok (env\<lparr>iCallStackSize := n\<rparr>) = occupants_ok env"
  "started_ok (env\<lparr>iCallStackSize := n\<rparr>) cur X = started_ok env cur X"
  by (simp_all add: occupants_ok_def started_ok_def susp_ok_def)

lemma yield_ok:
  assumes "env_ok env" "act_ok env (Act_yield sp)"
  shows "res_ok (co_do env (Act_yield sp)) (\<lambda>env'. env_ok env' \<and> keeps_views env env' \<and> leaves_view env sp env' \<and>
    GetCurrCo env' = pCallStack env ! (iCallStackSize env - 2))"
proof -
  let ?cur = "GetCurrCo env" and ?p = "pCallStack env ! (iCallStackSize env - 2)"
  let ?env = "env\<lparr>iCallStackSize := iCallStackSize env - 1\<rparr>"
  have size: "2 \<le> iCallStackSize env" "?p \<noteq> ?cur" "sp_ok env sp" using assms(2) by simp_all
  from env_ok_cur [OF assms(1)] obtain rc where rc: "co env ?cur = Some rc" "cIsShareStack rc \<longrightarrow> cStart rc" by blast
  have "iCallStackSize env - 2 < iCallStackSize env" using size(1) by simp
  then obtain rp where rp: "co env ?p = Some rp" "cIsShareStack rp \<longrightarrow> cStart rp"
    using assms(1) unfolding env_ok_def by blast
  have "res_ok (co_swap ?cur sp ?p True ?env) (switched ?env ?cur sp ?p True)"
  proof (rule co_swap_ok)
    show "occupants_ok ?env" using assms(1) by (simp add: env_ok_def call_stack_irrelevant)
    show "started_ok ?env ?cur (if True then {} else {?p})"
      using assms(1) by (simp add: env_ok_def call_stack_irrelevant)
  qed (use rc rp size in \<open>auto simp: sp_ok_def\<close>)
  then obtain env' where run: "co_swap ?cur sp ?p True ?env = Inr env'" and sw: "switched ?env ?cur sp ?p True env'" by blast
  have cur': "GetCurrCo env' = ?p" using sw size(1) by (simp add: switched_def GetCurrCo_def numeral_2_eq_2)
  have n: "1 \<le> iCallStackSize env - 1" "iCallStackSize env - 1 \<le> 128"
  proof -
    have "iCallStackSize env \<le> 128" using assms(1) by (simp add: env_ok_def)
    then show "1 \<le> iCallStackSize env - 1" "iCallStackSize env - 1 \<le> 128" using size(1) by linarith+
  qed
  have "env_ok env'"
  proof -
    have "\<exists>r'. co env' (pCallStack env ! i) = Some r' \<and> (cIsShareStack r' \<longrightarrow> cStart r')" if "i < iCallStackSize env - 1" for i
    proof -
      have "i < iCallStackSize env" using that by simp
      then obtain r where "co env (pCallStack env ! i) = Some r" "cIsShareStack r \<longrightarrow> cStart r"
        using assms(1) unfolding env_ok_def by blast
      moreover have "rel_option same_co (co env (pCallStack env ! i)) (co env' (pCallStack env ! i))"
        using sw by (simp add: switched_def)
      ultimately show ?thesis using same_coD(1,3) by (cases "co env' (pCallStack env ! i)") auto
    qed
    then show ?thesis using sw assms(1) n cur' by (simp add: env_ok_def switched_def)
  qed
  moreover have "keeps_views env env'" by (rule switched_views [OF sw]) simp_all
  moreover have "leaves_view env sp env'" by (rule switched_leaves [OF sw refl assms(1)]) simp_all
  moreover have "co_do env (Act_yield sp) = Inr env'"
    using run size(1) by (simp add: co_yield_env_def co_swap_def Let_def GetCurrCo_def)
  ultimately show ?thesis using cur' by simp
qed

lemma resume_ok_step:
  assumes "env_ok env" "act_ok env (Act_resume c sp)"
  shows "res_ok (co_do env (Act_resume c sp)) (\<lambda>env'. env_ok env' \<and> keeps_views env env' \<and> leaves_view env sp env' \<and>
    GetCurrCo env' = c)"
proof -
  let ?cur = "GetCurrCo env" and ?n = "iCallStackSize env"
  from assms(2) obtain r where r: "co env c = Some r" and act: "c \<noteq> ?cur" "?n < 128" "sp_ok env sp" by auto
  from env_ok_cur [OF assms(1)] obtain rc where rc: "co env ?cur = Some rc" "cIsShareStack rc \<longrightarrow> cStart rc" by blast
  let ?st = "cStart r" and ?r = "r\<lparr>cStart := True\<rparr>"
  define env1 where "env1 = set_co c ?r env\<lparr>pCallStack := (pCallStack env)[?n := c], iCallStackSize := ?n + 1\<rparr>"
  have e: "co env1 = (co env)(c \<mapsto> ?r)" "smem env1 = smem env" "pCallStack env1 = (pCallStack env)[?n := c]"
      "iCallStackSize env1 = ?n + 1"
    by (simp_all add: env1_def set_co_def)
  have st: "started_ok env1 ?cur (if ?st then {} else {c})"
    using assms(1) r act(1) unfolding env_ok_def started_ok_def susp_ok_def by (auto simp: e)
  have oc: "occupants_ok env1"
  proof (rule occupants_ok_keep)
    show "occupants_ok env" using assms(1) by (simp add: env_ok_def)
    show "rel_option same_place (co env d) (co env1 d)" for d
      using r by (auto simp: e same_place_def intro: option.rel_refl)
  qed (simp add: e)
  have "res_ok (co_swap ?cur sp c ?st env1) (switched env1 ?cur sp c ?st)"
    using rc act by (intro co_swap_ok [OF oc st]) (auto simp: e sp_ok_def)
  then obtain env' where run: "co_swap ?cur sp c ?st env1 = Inr env'" and sw: "switched env1 ?cur sp c ?st env'" by blast
  have len: "length (pCallStack env) = 128" using assms(1) by (simp add: env_ok_def)
  have cur': "GetCurrCo env' = c" using sw act(2) len by (simp add: switched_def GetCurrCo_def e)
  have "\<exists>r'. co env' (pCallStack env1 ! i) = Some r' \<and> (cIsShareStack r' \<longrightarrow> cStart r')" if "i < ?n + 1" for i
  proof -
    have "\<exists>s. co env1 (pCallStack env1 ! i) = Some s \<and> (cIsShareStack s \<longrightarrow> cStart s)"
    proof (cases "i = ?n")
      case True
      then show ?thesis using len act(2) by (simp add: e)
    next
      case False
      with that have "i < ?n" by simp
      with assms(1) obtain s where "co env (pCallStack env ! i) = Some s" "cIsShareStack s \<longrightarrow> cStart s"
        unfolding env_ok_def by blast
      with False show ?thesis by (auto simp: e)
    qed
    moreover have "rel_option same_co (co env1 (pCallStack env1 ! i)) (co env' (pCallStack env1 ! i))"
      using sw by (simp add: switched_def)
    ultimately show ?thesis using same_coD(1,3) by (cases "co env' (pCallStack env1 ! i)") auto
  qed
  then have "env_ok env'" using sw assms(1) act(2) cur' len by (simp add: env_ok_def switched_def e)
  moreover have "keeps_views env env'"
    by (rule switched_views [OF sw]) (use r in \<open>auto simp: e\<close>)
  moreover have "leaves_view env sp env'"
    by (rule switched_leaves [OF sw refl assms(1)]) (use act in \<open>auto simp: e\<close>)
  moreover have "co_do env (Act_resume c sp) = Inr env'"
    using run r act(2) assms(1)
    by (auto simp: co_resume_def get_co_def co_swap_def Let_def env1_def set_co_def env_ok_def GetCurrCo_def)
  ultimately show ?thesis using cur' by simp
qed

text \<open>
  \<open>away c env env'\<close>: the actions between \<open>env\<close> and \<open>env'\<close> are those of other coroutines
  than \<open>c\<close>.
\<close>

inductive away :: "nat \<Rightarrow> stCoRoutineEnv_t \<Rightarrow> stCoRoutineEnv_t \<Rightarrow> bool" where
  here: "GetCurrCo env \<noteq> c \<Longrightarrow> away c env env"
| step: "away c env env1 \<Longrightarrow> act_ok env1 a \<Longrightarrow> co_do env1 a = Inr env2 \<Longrightarrow> GetCurrCo env2 \<noteq> c \<Longrightarrow> away c env env2"

lemma co_do_ok:
  assumes "env_ok env" "act_ok env a" "co_do env a = Inr env'"
  shows "env_ok env'" "keeps_views env env'"
proof -
  have "res_ok (co_do env a) (\<lambda>env'. env_ok env' \<and> keeps_views env env')"
  proof (cases a)
    case (Act_write buf)
    show ?thesis
      using assms(2) unfolding Act_write by (rule write_ok [OF assms(1), THEN res_ok_mono]) blast
  next
    case (Act_resume c sp)
    show ?thesis
      using assms(2) unfolding Act_resume by (rule resume_ok_step [OF assms(1), THEN res_ok_mono]) blast
  next
    case (Act_yield sp)
    show ?thesis
      using assms(2) unfolding Act_yield by (rule yield_ok [OF assms(1), THEN res_ok_mono]) blast
  qed
  then show "env_ok env'" "keeps_views env env'" using assms(3) by auto
qed

lemma away_ok:
  assumes "away c env env'" "env_ok env"
  shows "env_ok env' \<and> GetCurrCo env' \<noteq> c \<and>
    (\<forall>r. co env c = Some r \<longrightarrow> cIsShareStack r \<longrightarrow> cStart r \<longrightarrow>
      (\<exists>r'. co env' c = Some r' \<and> cIsShareStack r' \<and> cStart r' \<and> stack_mem r' = stack_mem r \<and>
            stack_view env' c r' = stack_view env c r \<and> stack_sp r' = stack_sp r))"
  using assms
proof (induction rule: away.induct)
  case (step c env env1 a env2)
  then have ok: "env_ok env1" "GetCurrCo env1 \<noteq> c" by simp_all
  note do_ok = co_do_ok [OF ok(1) step.hyps(2,3)]
  show ?case using step do_ok ok(2) unfolding keeps_views_def by metis
qed auto

text \<open>How a coroutine leaves: it yields, or it resumes another one.\<close>

definition leave_act :: "co_act \<Rightarrow> nat \<Rightarrow> bool" where
  "leave_act a sp \<longleftrightarrow> a = Act_yield sp \<or> (\<exists>c. a = Act_resume c sp)"

lemma leave_ok:
  assumes "env_ok env" "act_ok env a" "leave_act a sp" "co_do env a = Inr env'"
  shows "env_ok env'" "leaves_view env sp env'" "GetCurrCo env' \<noteq> GetCurrCo env"
proof -
  have "res_ok (co_do env a) (\<lambda>env'. env_ok env' \<and> leaves_view env sp env' \<and> GetCurrCo env' \<noteq> GetCurrCo env)"
    using assms(3) unfolding leave_act_def
  proof (elim disjE exE)
    assume a: "a = Act_yield sp"
    then have "pCallStack env ! (iCallStackSize env - 2) \<noteq> GetCurrCo env" using assms(2) by simp
    then show ?thesis
      using assms(2) unfolding a by (intro yield_ok [OF assms(1), THEN res_ok_mono]) auto
  next
    fix c assume a: "a = Act_resume c sp"
    then have "c \<noteq> GetCurrCo env" using assms(2) by simp
    then show ?thesis
      using assms(2) unfolding a by (intro resume_ok_step [OF assms(1), THEN res_ok_mono]) auto
  qed
  then show "env_ok env'" "leaves_view env sp env'" "GetCurrCo env' \<noteq> GetCurrCo env" using assms(4) by auto
qed

text \<open>
  C15. A coroutine on a shared stack finds its stack as it left it: if it leaves (by yielding or by
  resuming another coroutine) with its frames above \<open>sp\<close>, then after any number of actions of the
  other coroutines, which may run on the same stack memory and overwrite it, the action that makes it
  run again restores every byte of the stack from \<open>sp\<close> to the base.\<close>

theorem shared_stack_preserved:
  assumes "env_ok env0" and "GetCurrCo env0 = c" and "co env0 c = Some r0" and "cIsShareStack r0"
    and "act_ok env0 a" and "leave_act a sp" and "co_do env0 a = Inr env1"
    and "away c env1 env2"
    and "act_ok env2 b" and "co_do env2 b = Inr env3" and "GetCurrCo env3 = c"
  shows "\<exists>r3. co env3 c = Some r3 \<and> stack_sp r3 = sp \<and> stack_mem r3 = stack_mem r0 \<and>
    drop sp (stack_buffer (mem_of env3 r3)) = drop sp (stack_buffer (mem_of env0 r0))"
proof -
  note leave = leave_ok [OF assms(1,5,6,7)]
  from leave(2) assms(2,3,4) obtain r1 where r1: "co env1 c = Some r1" "cIsShareStack r1" "cStart r1"
    "stack_mem r1 = stack_mem r0" "stack_view env1 c r1 = drop sp (stack_buffer (mem_of env0 r0))" "stack_sp r1 = sp"
    by (auto simp: leaves_view_def)
  from away_ok [OF assms(8) leave(1)] r1 obtain r2 where r2: "env_ok env2" "GetCurrCo env2 \<noteq> c"
    "co env2 c = Some r2" "cIsShareStack r2" "cStart r2" "stack_mem r2 = stack_mem r0"
    "stack_view env2 c r2 = drop sp (stack_buffer (mem_of env0 r0))" "stack_sp r2 = sp" by auto
  note back_ok = co_do_ok [OF r2(1) assms(9,10)]
  from back_ok(2) [unfolded keeps_views_def, rule_format, OF r2(2) [symmetric] r2(3-5)] obtain r3
    where r3: "co env3 c = Some r3" "cIsShareStack r3" "cStart r3" "stack_mem r3 = stack_mem r2"
      "stack_view env3 c r3 = stack_view env2 c r2" "stack_sp r3 = stack_sp r2" by blast
  have "started_ok env3 c {}" using back_ok(1) unfolding env_ok_def assms(11) by blast
  then have "occupy_co (mem_of env3 r3) = Some c" by (rule started_okD(2) [OF _ _ r3(1-3) refl]) simp
  then have "stack_view env3 c r3 = drop (stack_sp r3) (stack_buffer (mem_of env3 r3))" by (simp add: stack_view_def)
  with r3(1,4-6) r2(6-8) show ?thesis by (intro exI [of _ r3]) simp
qed

text \<open>Coroutines 1 and 2 share the stack memory 5; coroutine 1 runs and has started first.\<close>

definition share_demo :: stCoRoutineEnv_t where
  "share_demo =
     \<lparr>pCallStack = [0, 1] @ replicate 126 0, iCallStackSize = 2, pending_co = None, env_occupy_co = None,
      co = [0 \<mapsto> new_co False 0, 1 \<mapsto> (new_co True 5)\<lparr>cStart := True\<rparr>, 2 \<mapsto> new_co True 5],
      smem = (\<lambda>m. \<lparr>occupy_co = if m = 5 then Some 1 else None, stack_buffer = ''abcd''\<rparr>)\<rparr>"

definition demo_step :: "co_act \<Rightarrow> stCoRoutineEnv_t \<Rightarrow> stCoRoutineEnv_t" where
  "demo_step a env = projr (co_do env a)"

lemma share_demo_ok: "env_ok share_demo"
  by (auto simp: env_ok_def share_demo_def occupants_ok_def started_ok_def GetCurrCo_def new_co_def less_2_cases_iff
      split: if_splits)

lemma demo_stepI: "\<not> isl (co_do env a) \<Longrightarrow> co_do env a = Inr (demo_step a env)"
  by (simp add: demo_step_def)

lemma shared_stack_preserved_witness:
  "\<exists>r. co (demo_step (Act_resume 1 0) (demo_step (Act_yield 2) (demo_step (Act_write ''wxyz'')
      (demo_step (Act_resume 2 0) (demo_step (Act_yield 1) share_demo))))) 1 = Some r \<and>
    drop 1 (stack_buffer (mem_of (demo_step (Act_resume 1 0) (demo_step (Act_yield 2) (demo_step (Act_write ''wxyz'')
      (demo_step (Act_resume 2 0) (demo_step (Act_yield 1) share_demo))))) r)) = ''bcd''"
proof -
  define w1 where "w1 = demo_step (Act_yield 1) share_demo"
  define w2 where "w2 = demo_step (Act_resume 2 0) w1"
  define w3 where "w3 = demo_step (Act_write ''wxyz'') w2"
  define w4 where "w4 = demo_step (Act_yield 2) w3"
  define w5 where "w5 = demo_step (Act_resume 1 0) w4"
  note w = w5_def w4_def w3_def w2_def w1_def
  have 1: "co_do share_demo (Act_yield 1) = Inr w1" "act_ok share_demo (Act_yield 1)" "GetCurrCo w1 \<noteq> 1"
    unfolding w by (intro demo_stepI, code_simp, code_simp, code_simp)
  have 2: "co_do w1 (Act_resume 2 0) = Inr w2" "act_ok w1 (Act_resume 2 0)" "GetCurrCo w2 \<noteq> 1"
    unfolding w by (intro demo_stepI, code_simp, code_simp, code_simp)
  have 3: "co_do w2 (Act_write ''wxyz'') = Inr w3" "act_ok w2 (Act_write ''wxyz'')" "GetCurrCo w3 \<noteq> 1"
    unfolding w by (intro demo_stepI, code_simp, code_simp, code_simp)
  have 4: "co_do w3 (Act_yield 2) = Inr w4" "act_ok w3 (Act_yield 2)" "GetCurrCo w4 \<noteq> 1"
    unfolding w by (intro demo_stepI, code_simp, code_simp, code_simp)
  have 5: "co_do w4 (Act_resume 1 0) = Inr w5" "act_ok w4 (Act_resume 1 0)" "GetCurrCo w5 = 1"
    unfolding w by (intro demo_stepI, code_simp, code_simp, code_simp)
  have "away 1 w1 w4"
    by (rule away.step [OF away.step [OF away.step [OF away.here [OF 1(3)] 2(2,1,3)] 3(2,1,3)] 4(2,1,3)])
  moreover have "GetCurrCo share_demo = 1" "co share_demo 1 = Some ((new_co True 5)\<lparr>cStart := True\<rparr>)"
    by (simp_all add: share_demo_def GetCurrCo_def)
  ultimately show ?thesis
    using shared_stack_preserved [OF share_demo_ok _ _ _ 1(2) _ 1(1) _ 5(2,1,3), of _ 1]
    unfolding w5_def [symmetric] w4_def [symmetric] w3_def [symmetric] w2_def [symmetric] w1_def [symmetric]
    by (force simp: leave_act_def new_co_def share_demo_def)
qed

section \<open>What is not checked\<close>

text \<open>
  \<open>co_resume\<close> writes to \<open>pCallStack[iCallStackSize]\<close> without a check, so resuming 128 deep
  writes past the array.
\<close>

lemma co_resume_overflows_call_stack:
  "co env c = Some r \<Longrightarrow> iCallStackSize env = 128 \<Longrightarrow> co_resume c sp env = Inl Out_of_bounds"
  by (simp add: co_resume_def get_co_def)

text \<open>
  \<open>co_free\<close> does not clear the \<open>occupy_co\<close> of the stack of a coroutine that shares it: the next
  coroutine that is resumed on that stack saves the stack of the freed one.
\<close>

lemma co_free_leaves_occupant:
  "case co_resume 2 0 (co_free 1 (demo_step (Act_yield 1) share_demo)) of
     Inl e \<Rightarrow> e = Use_after_free | Inr _ \<Rightarrow> False"
  by code_simp

text \<open>The value of a key is that of the coroutine that set it.\<close>

lemma co_specific_roundtrip:
  assumes "env_ok env" "key < 1024"
  shows "res_ok (co_setspecific env thread key v) (\<lambda>(env', thread'). co_getspecific env' thread' key = Inr v)"
proof -
  from env_ok_cur [OF assms(1)] obtain r where "co env (GetCurrCo env) = Some r" by blast
  then show ?thesis
    using assms(2) by (simp add: co_setspecific_def co_getspecific_def get_co_def set_co_def GetCurrCo_def)
qed

end
