(* ===== verification/Co_Hook.thy ===== *)
theory Co_Hook
  imports Co_Epoll "HOL-Library.List_Lexorder" "HOL-Library.Char_ord"
begin

text \<open>
  The system calls that libco replaces (\<^verbatim>\<open>cocgi/libco/co_hook_sys_call.cpp\<close>): the table of hooked
  descriptors, the calls that wait with \<open>poll\<close> before or between the real calls, \<open>fcntl\<close>, and
  the environment variables that each coroutine has of its own. The real system calls are arguments:
  a function of the kernel's state \<^typ>\<open>'k\<close> for \<open>fcntl\<close>, and the successive results of the calls
  that transfer bytes. What a hooked call does is the list of operations it issues.
\<close>

section \<open>The table of descriptors\<close>

record rpchook_t =
  user_flag :: "32 word"
  dest :: bytes
  hk_domain :: int
  read_timeout :: "int \<times> int"
  write_timeout :: "int \<times> int"

type_synonym hook_table = "int \<rightharpoonup> rpchook_t"

definition O_NONBLOCK :: "32 word" where "O_NONBLOCK = 0x800"
definition HOOK_FDS :: int where "HOOK_FDS = 102400"

definition get_by_fd :: "hook_table \<Rightarrow> int \<Rightarrow> rpchook_t option" where
  "get_by_fd tab fd = (if fd > -1 \<and> fd < HOOK_FDS then tab fd else None)"

definition new_rpchook :: rpchook_t where
  "new_rpchook = \<lparr>user_flag = 0, dest = [], hk_domain = 0, read_timeout = (1, 0), write_timeout = (1, 0)\<rparr>"

definition alloc_by_fd :: "hook_table \<Rightarrow> int \<Rightarrow> hook_table option" where
  "alloc_by_fd tab fd = (if fd > -1 \<and> fd < HOOK_FDS then Some (tab(fd \<mapsto> new_rpchook)) else None)"

definition free_by_fd :: "hook_table \<Rightarrow> int \<Rightarrow> hook_table" where
  "free_by_fd tab fd = (if fd > -1 \<and> fd < HOOK_FDS then tab(fd := None) else tab)"

text \<open>The descriptors a hooked call waits for: in the table, and blocking as far as the user knows.\<close>

definition hooked :: "bool \<Rightarrow> hook_table \<Rightarrow> int \<Rightarrow> rpchook_t option" where
  "hooked enabled tab fd =
     (if \<not> enabled then None
      else case get_by_fd tab fd of
             None \<Rightarrow> None
           | Some lp \<Rightarrow> if O_NONBLOCK AND user_flag lp \<noteq> 0 then None else Some lp)"

text \<open>A \<open>struct timeval\<close> (seconds and microseconds) as the \<open>int\<close> milliseconds of \<open>poll\<close>.\<close>

definition timeout_ms :: "int \<times> int \<Rightarrow> int" where
  "timeout_ms tv = sint (word_of_int (fst tv * 1000 + snd tv sdiv 1000) :: 32 word)"

section \<open>Flags\<close>

datatype fcntl_cmd =
  F_DUPFD | F_GETFD | F_SETFD | F_GETFL | F_SETFL | F_GETOWN | F_SETOWN | F_GETLK | F_SETLK | F_SETLKW | F_other

type_synonym 'k sys_fcntl = "int \<Rightarrow> fcntl_cmd \<Rightarrow> 32 word \<Rightarrow> 'k \<Rightarrow> 32 word \<times> 'k"

text \<open>A negative descriptor gives the line number of the \<open>return\<close> statement.\<close>

definition fcntl :: "bool \<Rightarrow> 'k sys_fcntl \<Rightarrow> int \<Rightarrow> fcntl_cmd \<Rightarrow> 32 word \<Rightarrow> 'k \<times> hook_table \<Rightarrow> 32 word \<times> 'k \<times> hook_table" where
  "fcntl enabled sys fildes cmd param st =
     (if fildes < 0 then (622, st)
      else case cmd of
        F_SETFL \<Rightarrow>
          (let lp = get_by_fd (snd st) fildes;
               flag = (if enabled \<and> lp \<noteq> None then param OR O_NONBLOCK else param)
           in case sys fildes F_SETFL flag (fst st) of (ret, k) \<Rightarrow>
                (ret, k, case lp of
                           None \<Rightarrow> snd st
                         | Some r \<Rightarrow> if ret = 0 then (snd st)(fildes \<mapsto> r\<lparr>user_flag := param\<rparr>) else snd st))
      | F_other \<Rightarrow> (-1, st)
      | _ \<Rightarrow> (case sys fildes cmd param (fst st) of (ret, k) \<Rightarrow> (ret, k, snd st)))"

text \<open>\<open>socket\<close>, with the descriptor the system call returned.\<close>

definition hook_socket :: "bool \<Rightarrow> 'k sys_fcntl \<Rightarrow> int \<Rightarrow> int \<Rightarrow> 'k \<times> hook_table \<Rightarrow> (int \<times> 'k \<times> hook_table) res" where
  "hook_socket enabled sys fd domain st =
     (if \<not> enabled \<or> fd < 0 then Inr (fd, st)
      else case alloc_by_fd (snd st) fd of
             None \<Rightarrow> Inl Null_deref
           | Some tab \<Rightarrow>
               let tab = tab(fd \<mapsto> (the (tab fd))\<lparr>hk_domain := domain\<rparr>)
               in case sys fd F_GETFL 0 (fst st) of (fl, k) \<Rightarrow>
                    Inr (fd, snd (fcntl enabled sys fd F_SETFL fl (k, tab))))"

definition co_accept :: "int \<Rightarrow> hook_table \<Rightarrow> int \<times> hook_table" where
  "co_accept cli tab = (if cli < 0 then (cli, tab) else (cli, case alloc_by_fd tab cli of None \<Rightarrow> tab | Some t \<Rightarrow> t))"

definition hook_close :: "bool \<Rightarrow> int \<Rightarrow> hook_table \<Rightarrow> hook_table" where
  "hook_close enabled fd tab = (if enabled then free_by_fd tab fd else tab)"

datatype sock_opt = SO_RCVTIMEO | SO_SNDTIMEO | SO_other

definition hook_setsockopt :: "bool \<Rightarrow> int \<Rightarrow> bool \<Rightarrow> sock_opt \<Rightarrow> int \<times> int \<Rightarrow> hook_table \<Rightarrow> hook_table" where
  "hook_setsockopt enabled fd sol_socket option_name val tab =
     (if \<not> enabled then tab
      else case get_by_fd tab fd of
             None \<Rightarrow> tab
           | Some lp \<Rightarrow>
               if sol_socket then
                 (case option_name of
                    SO_RCVTIMEO \<Rightarrow> tab(fd \<mapsto> lp\<lparr>read_timeout := val\<rparr>)
                  | SO_SNDTIMEO \<Rightarrow> tab(fd \<mapsto> lp\<lparr>write_timeout := val\<rparr>)
                  | SO_other \<Rightarrow> tab)
               else tab)"

section \<open>Reading and writing\<close>

text \<open>The operations a call issues: a \<open>poll\<close> on one descriptor, and the real call.\<close>

datatype sys_op = Sys_poll int "16 word" int | Sys_call bytes

definition POLL_READ :: "16 word" where "POLL_READ = POLLIN OR POLLERR OR POLLHUP"
definition POLL_WRITE :: "16 word" where "POLL_WRITE = POLLOUT OR POLLERR OR POLLHUP"

text \<open>
  \<open>read\<close>, \<open>recv\<close> and \<open>recvfrom\<close>: the operations before the real call, whose result is returned.
\<close>

definition hook_read :: "bool \<Rightarrow> hook_table \<Rightarrow> int \<Rightarrow> sys_op list" where
  "hook_read enabled tab fd =
     (case hooked enabled tab fd of
        None \<Rightarrow> []
      | Some lp \<Rightarrow> [Sys_poll fd POLL_READ (timeout_ms (read_timeout lp))])"

definition hook_recv :: "bool \<Rightarrow> hook_table \<Rightarrow> int \<Rightarrow> sys_op list" where
  "hook_recv enabled tab socket =
     (case hooked enabled tab socket of
        None \<Rightarrow> []
      | Some lp \<Rightarrow> [Sys_poll socket POLL_READ (timeout_ms (read_timeout lp))])"

definition hook_recvfrom :: "bool \<Rightarrow> hook_table \<Rightarrow> int \<Rightarrow> sys_op list" where
  "hook_recvfrom enabled tab socket =
     (case hooked enabled tab socket of
        None \<Rightarrow> []
      | Some lp \<Rightarrow> [Sys_poll socket POLL_READ (timeout_ms (read_timeout lp))])"

text \<open>
  The loop of \<open>write\<close> over the results of the real calls; \<^term>\<open>None\<close> when the results end, that
  is, while a call has not returned yet. The result is the last return value, the number of bytes
  written and the operations.
\<close>

fun write_loop_hook ::
    "int \<Rightarrow> int \<Rightarrow> bytes \<Rightarrow> int list \<Rightarrow> int \<Rightarrow> nat \<Rightarrow> (int \<times> nat \<times> sys_op list) option" where
  "write_loop_hook fd timeout buf rets writeret wrotelen =
     (if wrotelen < length buf then
        (case rets of
           [] \<Rightarrow> None
         | r # rets' \<Rightarrow>
             let ops = [Sys_poll fd POLL_WRITE timeout, Sys_call (drop wrotelen buf)]
             in if r \<le> 0 then Some (r, wrotelen, ops)
                else map_option (\<lambda>(w, n, ops'). (w, n, ops @ ops'))
                       (write_loop_hook fd timeout buf rets' r (wrotelen + nat r)))
      else Some (writeret, wrotelen, []))"

declare write_loop_hook.simps [simp del]

definition hook_write :: "bool \<Rightarrow> hook_table \<Rightarrow> int \<Rightarrow> bytes \<Rightarrow> int list \<Rightarrow> (int \<times> sys_op list) option" where
  "hook_write enabled tab fd buf rets =
     (case rets of
        [] \<Rightarrow> None
      | r # rets' \<Rightarrow>
          (case hooked enabled tab fd of
             None \<Rightarrow> Some (r, [Sys_call buf])
           | Some lp \<Rightarrow>
               if r = 0 then Some (r, [Sys_call buf])
               else map_option (\<lambda>(writeret, wrotelen, ops).
                      (if writeret \<le> 0 \<and> wrotelen = 0 then writeret else int wrotelen, Sys_call buf # ops))
                    (write_loop_hook fd (timeout_ms (write_timeout lp)) buf rets' r (if r > 0 then nat r else 0))))"

text \<open>\<open>send\<close> repeats the loop with the flags of the call.\<close>

fun send_loop_hook ::
    "int \<Rightarrow> int \<Rightarrow> bytes \<Rightarrow> int list \<Rightarrow> int \<Rightarrow> nat \<Rightarrow> (int \<times> nat \<times> sys_op list) option" where
  "send_loop_hook socket timeout buf rets writeret wrotelen =
     (if wrotelen < length buf then
        (case rets of
           [] \<Rightarrow> None
         | r # rets' \<Rightarrow>
             let ops = [Sys_poll socket POLL_WRITE timeout, Sys_call (drop wrotelen buf)]
             in if r \<le> 0 then Some (r, wrotelen, ops)
                else map_option (\<lambda>(w, n, ops'). (w, n, ops @ ops'))
                       (send_loop_hook socket timeout buf rets' r (wrotelen + nat r)))
      else Some (writeret, wrotelen, []))"

declare send_loop_hook.simps [simp del]

definition hook_send :: "bool \<Rightarrow> hook_table \<Rightarrow> int \<Rightarrow> bytes \<Rightarrow> int list \<Rightarrow> (int \<times> sys_op list) option" where
  "hook_send enabled tab socket buf rets =
     (case rets of
        [] \<Rightarrow> None
      | r # rets' \<Rightarrow>
          (case hooked enabled tab socket of
             None \<Rightarrow> Some (r, [Sys_call buf])
           | Some lp \<Rightarrow>
               if r = 0 then Some (r, [Sys_call buf])
               else map_option (\<lambda>(writeret, wrotelen, ops).
                      (if writeret \<le> 0 \<and> wrotelen = 0 then writeret else int wrotelen, Sys_call buf # ops))
                    (send_loop_hook socket (timeout_ms (write_timeout lp)) buf rets' r (if r > 0 then nat r else 0))))"

text \<open>\<open>sendto\<close>, where \<open>again\<close> says that the first call failed with \<open>EAGAIN\<close>.\<close>

definition hook_sendto :: "bool \<Rightarrow> hook_table \<Rightarrow> int \<Rightarrow> bytes \<Rightarrow> int \<Rightarrow> bool \<Rightarrow> int \<Rightarrow> int \<times> sys_op list" where
  "hook_sendto enabled tab socket msg ret1 again ret2 =
     (case hooked enabled tab socket of
        None \<Rightarrow> (ret1, [Sys_call msg])
      | Some lp \<Rightarrow>
          if ret1 < 0 \<and> again
          then (ret2, [Sys_call msg, Sys_poll socket POLL_WRITE (timeout_ms (write_timeout lp)), Sys_call msg])
          else (ret1, [Sys_call msg]))"

section \<open>Connecting\<close>

definition EINPROGRESS :: nat where "EINPROGRESS = 115"
definition ETIMEDOUT :: nat where "ETIMEDOUT = 110"

text \<open>Up to three waits of 25 seconds: the last \<open>revents\<close> and the number of waits.\<close>

fun connect_wait :: "(int \<times> 16 word) list \<Rightarrow> nat \<Rightarrow> 16 word \<Rightarrow> nat \<Rightarrow> 16 word \<times> nat" where
  "connect_wait polls 0 revents n = (revents, n)"
| "connect_wait [] (Suc left) revents n = (revents, n)"
| "connect_wait ((pollret, re) # polls) (Suc left) revents n =
     (if pollret = 1 then (re, n + 1) else connect_wait polls left re (n + 1))"

text \<open>
  \<open>connect\<close>, with the result and \<open>errno\<close> of the real call, the results of the polls and the
  \<open>SO_ERROR\<close> of the socket; it returns the result, \<open>errno\<close>, the table and the number of waits.
\<close>

definition hook_connect ::
    "bool \<Rightarrow> int \<Rightarrow> bytes \<Rightarrow> int \<Rightarrow> nat \<Rightarrow> (int \<times> 16 word) list \<Rightarrow> nat \<Rightarrow> hook_table \<Rightarrow>
     int \<times> nat \<times> hook_table \<times> nat" where
  "hook_connect enabled fd address ret errno polls so_error tab =
     (if \<not> enabled then (ret, errno, tab, 0)
      else case get_by_fd tab fd of
             None \<Rightarrow> (ret, errno, tab, 0)
           | Some lp \<Rightarrow>
               let lp = (if 16 \<ge> length address then lp\<lparr>dest := address\<rparr> else lp);
                   tab = tab(fd \<mapsto> lp)
               in if O_NONBLOCK AND user_flag lp \<noteq> 0 then (ret, errno, tab, 0)
                  else if \<not> (ret < 0 \<and> errno = EINPROGRESS) then (ret, errno, tab, 0)
                  else case connect_wait polls 3 0 0 of (revents, n) \<Rightarrow>
                         if revents AND POLLOUT \<noteq> 0 then (0, 0, tab, n)
                         else (ret, if so_error \<noteq> 0 then so_error else ETIMEDOUT, tab, n))"

section \<open>Environment variables\<close>

text \<open>
  An array of variables: the names in \<open>strcmp\<close> order, each with the value the coroutine has set,
  if any. \<open>g_co_sysenv\<close> and the \<open>pvEnv\<close> of a coroutine that has no copy yet are \<^term>\<open>None\<close>.
\<close>

type_synonym env_arr = "(string \<times> string option) list"

text \<open>The loop that squeezes out repeated names: \<open>p\<close> is the name at \<open>lp\<close>.\<close>

fun squeeze :: "string \<Rightarrow> string list \<Rightarrow> string list" where
  "squeeze p [] = []"
| "squeeze p (q # qs) = (if p \<noteq> q then q # squeeze q qs else squeeze p qs)"

definition co_set_env_list :: "string option list \<Rightarrow> env_arr option \<Rightarrow> env_arr option" where
  "co_set_env_list name g_co_sysenv =
     (case g_co_sysenv of
        Some arr \<Rightarrow> Some arr
      | None \<Rightarrow>
          let names = [n. Some n \<leftarrow> name, n \<noteq> []];
              names = (if length names > 1
                       then (case sort names of [] \<Rightarrow> [] | p # qs \<Rightarrow> p # squeeze p qs) else names)
          in Some (map (\<lambda>n. (n, None)) names))"

text \<open>\<open>bsearch\<close> of the C library between the indices \<open>l\<close> and \<open>u\<close>.\<close>

function bsearch_env :: "string \<Rightarrow> env_arr \<Rightarrow> nat \<Rightarrow> nat \<Rightarrow> nat option" where
  "bsearch_env n arr l u =
     (if l < u then
        let idx = (l + u) div 2; k = fst (arr ! idx)
        in if n < k then bsearch_env n arr l idx
           else if k < n then bsearch_env n arr (idx + 1) u
           else Some idx
      else None)"
  by pat_completeness auto
termination by (relation "measure (\<lambda>(n, arr, l, u). u - l)") auto

declare bsearch_env.simps [simp del]

text \<open>
  The three calls in a coroutine whose hook is enabled and for which a list was set. The result
  \<^term>\<open>None\<close> passes the call on to the system's environment; otherwise it is what the call returns.
\<close>

definition own_env :: "env_arr \<Rightarrow> env_arr option \<Rightarrow> env_arr" where
  "own_env g_co_sysenv pvEnv = (case pvEnv of None \<Rightarrow> g_co_sysenv | Some arr \<Rightarrow> arr)"

definition setenv :: "string \<Rightarrow> string option \<Rightarrow> bool \<Rightarrow> env_arr \<Rightarrow> env_arr option \<Rightarrow> int option \<times> env_arr option" where
  "setenv n value overwrite g_co_sysenv pvEnv =
     (let arr = own_env g_co_sysenv pvEnv in
      case bsearch_env n arr 0 (length arr) of
        None \<Rightarrow> (None, Some arr)
      | Some i \<Rightarrow>
          (Some 0, Some (if overwrite \<or> snd (arr ! i) = None then arr[i := (fst (arr ! i), value)] else arr)))"

definition unsetenv :: "string \<Rightarrow> env_arr \<Rightarrow> env_arr option \<Rightarrow> int option \<times> env_arr option" where
  "unsetenv n g_co_sysenv pvEnv =
     (let arr = own_env g_co_sysenv pvEnv in
      case bsearch_env n arr 0 (length arr) of
        None \<Rightarrow> (None, Some arr)
      | Some i \<Rightarrow>
          (Some 0, Some (if snd (arr ! i) \<noteq> None then arr[i := (fst (arr ! i), None)] else arr)))"

definition getenv :: "string \<Rightarrow> env_arr \<Rightarrow> env_arr option \<Rightarrow> string option option \<times> env_arr option" where
  "getenv n g_co_sysenv pvEnv =
     (let arr = own_env g_co_sysenv pvEnv in
      case bsearch_env n arr 0 (length arr) of
        None \<Rightarrow> (None, Some arr)
      | Some i \<Rightarrow> (Some (snd (arr ! i)), Some arr))"

section \<open>Host names\<close>

text \<open>
  \<open>co_gethostbyname\<close>: \<open>lookup\<close> gives, for a buffer size, whether \<open>gethostbyname_r\<close> asks for a
  larger buffer (\<open>ERANGE\<close> and \<open>NETDB_INTERNAL\<close>) and whether its result is the host structure. The
  first argument is the size of the coroutine's buffer, or \<^term>\<open>None\<close>; the result also has the size
  that is left. The variable \<open>ret\<close> is the value of the whole loop condition, so it is 0 after the loop.
\<close>

partial_function (option) gethost_loop :: "(nat \<Rightarrow> bool \<times> bool) \<Rightarrow> nat \<Rightarrow> (bool \<times> nat) option" where
  [code]: "gethost_loop lookup sz =
     (if fst (lookup sz) then gethost_loop lookup (sz * 2) else Some (snd (lookup sz), sz))"

definition co_gethostbyname :: "(nat \<Rightarrow> bool \<times> bool) \<Rightarrow> nat option \<Rightarrow> (bool \<times> nat) option" where
  "co_gethostbyname lookup buffer =
     (let buffer = (case buffer of Some n \<Rightarrow> if n > 1024 then None else Some n | None \<Rightarrow> None);
          iBufferSize = (case buffer of Some n \<Rightarrow> n | None \<Rightarrow> 1024)
      in gethost_loop lookup iBufferSize)"

section \<open>Hooked writes\<close>

text \<open>The bytes of the real calls that returned: each call takes a prefix of what it was given.\<close>

fun sent_bytes :: "bytes \<Rightarrow> int list \<Rightarrow> bytes" where
  "sent_bytes buf [] = []"
| "sent_bytes buf (r # rets) = take (nat r) buf @ sent_bytes (drop (nat r) buf) rets"

text \<open>The kernel never takes more bytes than a call offers.\<close>

fun rets_ok :: "nat \<Rightarrow> int list \<Rightarrow> bool" where
  "rets_ok n [] = True"
| "rets_ok n (r # rets) \<longleftrightarrow> r \<le> int n \<and> rets_ok (n - nat r) rets"

fun calls :: "sys_op list \<Rightarrow> nat" where
  "calls [] = 0"
| "calls (Sys_call _ # ops) = Suc (calls ops)"
| "calls (Sys_poll _ _ _ # ops) = calls ops"

lemma calls_append [simp]: "calls (xs @ ys) = calls xs + calls ys"
  by (induction xs rule: calls.induct) simp_all

lemma write_loop_sends_prefix:
  "write_loop_hook fd t buf rets w n = Some (w', n', ops) \<Longrightarrow> n \<le> length buf \<Longrightarrow> rets_ok (length buf - n) rets \<Longrightarrow>
   n \<le> n' \<and> n' \<le> length buf \<and> (n' < length buf \<longrightarrow> w' \<le> 0 \<and> 0 < calls ops \<and> rets ! (calls ops - 1) \<le> 0) \<and>
   (w' \<le> 0 \<longrightarrow> n' < length buf \<or> w' = w) \<and>
   sent_bytes (drop n buf) (take (calls ops) rets) = take (n' - n) (drop n buf)"
proof (induction fd t buf rets w n arbitrary: w' n' ops rule: write_loop_hook.induct)
  case (1 fd t buf rets w n)
  show ?case
  proof (cases "n < length buf \<and> rets \<noteq> [] \<and> hd rets > 0")
    case False
    with 1(2,3) show ?thesis
      by (subst (asm) write_loop_hook.simps) (auto simp: Let_def split: if_splits list.splits)
  next
    case True
    then obtain r rs where rets: "rets = r # rs" "\<not> r \<le> 0" "n < length buf" by (cases rets) auto
    from 1(2) rets obtain ops' where rest: "write_loop_hook fd t buf rs r (n + nat r) = Some (w', n', ops')"
      and ops: "ops = [Sys_poll fd POLL_WRITE t, Sys_call (drop n buf)] @ ops'"
      by (subst (asm) write_loop_hook.simps) (auto simp: Let_def)
    have le: "n + nat r \<le> length buf" "rets_ok (length buf - (n + nat r)) rs"
      using 1(4) rets by (auto simp: nat_le_iff)
    from 1(1) [OF rets(3,1) refl rets(2) rest le]
    have IH: "n + nat r \<le> n'" "n' \<le> length buf"
      "n' < length buf \<longrightarrow> w' \<le> 0 \<and> 0 < calls ops' \<and> rs ! (calls ops' - 1) \<le> 0" "w' \<le> 0 \<longrightarrow> n' < length buf \<or> w' = r"
      "sent_bytes (drop (n + nat r) buf) (take (calls ops') rs) = take (n' - (n + nat r)) (drop (n + nat r) buf)"
      by auto
    have "sent_bytes (drop n buf) (take (calls ops) rets) =
        take (nat r) (drop n buf) @ take (n' - (n + nat r)) (drop (nat r) (drop n buf))"
      using rets IH(5) by (simp add: ops add.commute)
    also have "\<dots> = take (nat r + (n' - (n + nat r))) (drop n buf)" by (simp only: take_add)
    also have "nat r + (n' - (n + nat r)) = n' - n" using IH(1) by simp
    finally show ?thesis using IH rets by (auto simp: ops nth_Cons')
  qed
qed

lemma write_loop_returns:
  "length buf - n \<le> length rets \<Longrightarrow> \<exists>r. write_loop_hook fd t buf rets w n = Some r"
proof (induction fd t buf rets w n rule: write_loop_hook.induct)
  case (1 fd t buf rets w n)
  show ?case
  proof (cases "n < length buf")
    case False
    then show ?thesis by (subst write_loop_hook.simps) simp
  next
    case True
    then obtain r rs where rets: "rets = r # rs" using 1(2) by (cases rets) auto
    show ?thesis
    proof (cases "r \<le> 0")
      case True
      with \<open>n < length buf\<close> rets show ?thesis by (subst write_loop_hook.simps) (simp add: Let_def)
    next
      case False
      then have "length buf - (n + nat r) \<le> length rs" using 1(2) rets by simp
      from 1(1) [OF \<open>n < length buf\<close> rets refl False this] False \<open>n < length buf\<close> rets
      show ?thesis by (subst write_loop_hook.simps) (auto simp: Let_def)
    qed
  qed
qed


lemma send_loop_is_write_loop: "send_loop_hook fd t buf rets w n = write_loop_hook fd t buf rets w n"
  by (induction fd t buf rets w n rule: write_loop_hook.induct)
    (subst send_loop_hook.simps, subst write_loop_hook.simps, auto simp: Let_def split: list.splits)

text \<open>The copies of the waiting logic agree: \<open>send\<close> issues the same operations and returns the
  same value as \<open>write\<close>, and \<open>recv\<close> and \<open>recvfrom\<close> the same as \<open>read\<close>.\<close>

lemma hook_copies_agree:
  "hook_send enabled tab fd buf rets = hook_write enabled tab fd buf rets \<and>
   hook_recv enabled tab fd = hook_read enabled tab fd \<and> hook_recvfrom enabled tab fd = hook_read enabled tab fd"
  by (simp add: hook_send_def hook_write_def hook_recv_def hook_recvfrom_def hook_read_def send_loop_is_write_loop
      split: list.splits option.splits)

definition one_hook :: hook_table where
  "one_hook = [7 \<mapsto> new_rpchook]"

lemma one_hook_hooked: "hooked True one_hook 7 = Some new_rpchook"
  by (simp add: hooked_def get_by_fd_def HOOK_FDS_def one_hook_def new_rpchook_def)


section \<open>Flags of hooked descriptors\<close>

text \<open>
  What the code relies on of the system's \<open>fcntl\<close>: \<open>F_GETFL\<close> returns the status flags and
  \<open>F_SETFL\<close>, when it returns 0, replaces them (those of one descriptor only).
\<close>

definition fcntl_law :: "'k sys_fcntl \<Rightarrow> ('k \<Rightarrow> int \<Rightarrow> 32 word) \<Rightarrow> bool" where
  "fcntl_law sys flags \<longleftrightarrow>
     (\<forall>fd p k. sys fd F_GETFL p k = (flags k fd, k)) \<and>
     (\<forall>fd fl k k'. sys fd F_SETFL fl k = (0, k') \<longrightarrow> flags k' = (flags k)(fd := fl))"

lemma or_nonblock: "(w OR O_NONBLOCK) AND O_NONBLOCK = O_NONBLOCK"
  by (rule bit_word_eqI) (auto simp: bit_simps)

lemma O_NONBLOCK_neq_0: "O_NONBLOCK \<noteq> 0"
  by (simp add: O_NONBLOCK_def)

lemma fcntl_SETFL:
  assumes "fcntl_law sys flags" "get_by_fd tab fd = Some lp" "fcntl enabled sys fd F_SETFL param (k, tab) = (0, k', tab')"
  shows "flags k' = (flags k)(fd := if enabled then param OR O_NONBLOCK else param)"
    and "tab' = tab(fd \<mapsto> lp\<lparr>user_flag := param\<rparr>)"
  using assms
  by (auto simp: fcntl_def Let_def get_by_fd_def fcntl_law_def split: if_splits prod.splits option.splits)


text \<open>A kernel whose only state is the flags of its descriptors.\<close>

definition flag_kernel :: "(int \<Rightarrow> 32 word) sys_fcntl" where
  "flag_kernel fd cmd p k = (case cmd of F_GETFL \<Rightarrow> (k fd, k) | F_SETFL \<Rightarrow> (0, k(fd := p)) | _ \<Rightarrow> (0, k))"

lemma flag_kernel_law: "fcntl_law flag_kernel (\<lambda>k. k)"
  by (simp add: fcntl_law_def flag_kernel_def)


text \<open>
  \<open>F_GETFL\<close> is passed to the kernel, so it shows the user the \<open>O_NONBLOCK\<close> that the hook added:
  writing the flags back turns the waiting off.
\<close>

lemma getfl_setfl_turns_waiting_off:
  assumes "fcntl_law sys flags" "get_by_fd tab fd = Some lp"
    and "fcntl True sys fd F_SETFL param (k, tab) = (0, k1, tab1)"
    and "fcntl True sys fd F_GETFL 0 (k1, tab1) = (fl, k2, tab2)"
    and "fcntl True sys fd F_SETFL fl (k2, tab2) = (0, k3, tab3)"
  shows "hooked True tab3 fd = None"
proof -
  note set = fcntl_SETFL [OF assms(1-3)]
  have fd: "fd > -1" "fd < HOOK_FDS" using assms(2) by (auto simp: get_by_fd_def split: if_splits)
  with assms(1,4) set have get: "fl = param OR O_NONBLOCK" "tab2 = tab1"
    by (auto simp: fcntl_def fcntl_law_def)
  have "get_by_fd tab2 fd = Some (lp\<lparr>user_flag := param\<rparr>)" using fd by (simp add: get set get_by_fd_def)
  from fcntl_SETFL(2) [OF assms(1) this assms(5)] fd O_NONBLOCK_neq_0 show ?thesis
    by (simp add: hooked_def get_by_fd_def get and.commute [of O_NONBLOCK] or_nonblock)
qed

lemma socket_beyond_table_faults:
  "HOOK_FDS \<le> fd \<Longrightarrow> hook_socket True sys fd domain st = Inl Null_deref"
  by (simp add: hook_socket_def alloc_by_fd_def HOOK_FDS_def)

text \<open>The timeout a user sets is the time a read waits.\<close>

lemma read_waits_for_timeout:
  assumes "hooked True tab fd = Some lp"
  shows "hook_read True (hook_setsockopt True fd True SO_RCVTIMEO tv tab) fd = [Sys_poll fd POLL_READ (timeout_ms tv)]"
  using assms
  by (auto simp: hooked_def hook_read_def hook_setsockopt_def get_by_fd_def split: if_splits option.splits)

section \<open>The environment of a coroutine\<close>

definition env_sorted :: "env_arr \<Rightarrow> bool" where
  "env_sorted arr \<longleftrightarrow> sorted_wrt (<) (map fst arr)"

lemma env_sorted_less: "env_sorted arr \<Longrightarrow> i < j \<Longrightarrow> j < length arr \<Longrightarrow> fst (arr ! i) < fst (arr ! j)"
  by (simp add: env_sorted_def sorted_wrt_iff_nth_less)

lemma squeeze_sorted: "sorted (p # qs) \<Longrightarrow> sorted_wrt (<) (p # squeeze p qs) \<and> set (p # squeeze p qs) = set (p # qs)"
proof (induction p qs rule: squeeze.induct)
  case (2 p q qs)
  then show ?case by (cases "p = q") (auto simp: order.strict_iff_order)
qed simp

lemma co_set_env_list_sorted:
  "\<exists>arr. co_set_env_list name None = Some arr \<and> env_sorted arr \<and> fst ` set arr = {n. Some n \<in> set name \<and> n \<noteq> []}"
proof -
  let ?names = "[n. Some n \<leftarrow> name, n \<noteq> []]"
  have set: "set ?names = {n. Some n \<in> set name \<and> n \<noteq> []}" by (auto split: option.splits)
  obtain names where names: "co_set_env_list name None = Some (map (\<lambda>n. (n, None)) names)"
    and ok: "sorted_wrt (<) names" "set names = set ?names"
  proof (cases "length ?names > 1")
    case True
    then have "length (sort ?names) > 1" by (simp only: length_sort)
    then obtain p qs where s: "sort ?names = p # qs" by (cases "sort ?names") simp_all
    have "sorted (p # qs)" unfolding s [symmetric] by (rule sorted_sort)
    moreover have "set (p # qs) = set ?names" unfolding s [symmetric] by (rule set_sort)
    ultimately have sq: "sorted_wrt (<) (p # squeeze p qs)" "set (p # squeeze p qs) = set ?names"
      using squeeze_sorted [of p qs] by simp_all
    moreover have "co_set_env_list name None = Some (map (\<lambda>n. (n, None)) (p # squeeze p qs))"
      using True unfolding co_set_env_list_def Let_def s by simp
    ultimately show ?thesis by (rule that [rotated])
  next
    case False
    have short: "\<not> 1 < length xs \<Longrightarrow> sorted_wrt (<) xs" for xs :: "string list" by (cases xs) simp_all
    have "sorted_wrt (<) ?names" by (rule short [OF False])
    moreover have "co_set_env_list name None = Some (map (\<lambda>n. (n, None)) ?names)"
      using False unfolding co_set_env_list_def Let_def by simp
    ultimately show ?thesis using that by blast
  qed
  show ?thesis
    using names ok set by (auto simp: env_sorted_def comp_def image_image)
qed

lemma bsearch_env_range:
  assumes "env_sorted arr" "l \<le> u" "u \<le> length arr"
    and "\<And>j. j < l \<Longrightarrow> fst (arr ! j) < n" "\<And>j. u \<le> j \<Longrightarrow> j < length arr \<Longrightarrow> n < fst (arr ! j)"
  shows "case bsearch_env n arr l u of
    Some i \<Rightarrow> i < length arr \<and> fst (arr ! i) = n | None \<Rightarrow> n \<notin> fst ` set arr"
  using assms
proof (induction n arr l u rule: bsearch_env.induct)
  case (1 n arr l u)
  show ?case
  proof (cases "l < u")
    case False
    then have "l = u" using "1.prems"(2) by simp
    then have "fst (arr ! j) \<noteq> n" if "j < length arr" for j
      using "1.prems"(4,5) [of j] that by (cases "j < l") auto
    then have "n \<notin> set (map fst arr)" by (simp add: in_set_conv_nth del: set_map)
    then show ?thesis using False by (subst bsearch_env.simps) simp
  next
    case True
    define idx where "idx = (l + u) div 2"
    have idx: "l \<le> idx" "idx < u" using True by (simp_all add: idx_def)
    consider "n < fst (arr ! idx)" | "fst (arr ! idx) < n" | "fst (arr ! idx) = n" by fastforce
    then show ?thesis
    proof cases
      case 1
      have "n < fst (arr ! j)" if "idx \<le> j" "j < length arr" for j
        using 1 env_sorted_less [OF "1.prems"(1), of idx j] that by (cases "j = idx") auto
      with 1 show ?thesis
        using "1.IH"(1) [OF True idx_def refl 1 "1.prems"(1) idx(1) _ "1.prems"(4)] idx True "1.prems"(3)
        by (subst bsearch_env.simps) (simp add: Let_def idx_def)
    next
      case 2
      have "fst (arr ! j) < n" if "j < idx + 1" for j
        using 2 env_sorted_less [OF "1.prems"(1), of j idx] that idx "1.prems"(3) by (cases "j = idx") auto
      moreover have "\<not> n < fst (arr ! idx)" using 2 by (rule less_not_sym)
      ultimately show ?thesis
        using 2 "1.IH"(2) [OF True idx_def refl _ 2 "1.prems"(1) _ "1.prems"(3) _ "1.prems"(5)] idx True
        by (subst bsearch_env.simps) (simp add: Let_def idx_def)
    next
      case 3
      then show ?thesis using True idx "1.prems"(3) by (subst bsearch_env.simps) (simp add: Let_def idx_def)
    qed
  qed
qed

lemma bsearch_env_ok:
  assumes "env_sorted arr"
  shows "case bsearch_env n arr 0 (length arr) of
    Some i \<Rightarrow> i < length arr \<and> fst (arr ! i) = n | None \<Rightarrow> n \<notin> fst ` set arr"
  by (rule bsearch_env_range [OF assms]) simp_all

text \<open>The array as a map from names to values; \<open>None\<close> for a name the list does not have.\<close>

definition env_lookup :: "env_arr \<Rightarrow> string \<Rightarrow> string option option" where
  "env_lookup arr n = map_of arr n"

lemma env_lookup_nth:
  assumes "env_sorted arr" "i < length arr"
  shows "env_lookup arr (fst (arr ! i)) = Some (snd (arr ! i))"
proof -
  have "distinct (map fst arr)" using assms(1) by (simp add: env_sorted_def strict_sorted_iff)
  then show ?thesis using assms(2) by (simp add: env_lookup_def map_of_eq_Some_iff)
qed

lemma getenv_lookup:
  assumes "env_sorted (own_env g pv)"
  shows "getenv n g pv = (env_lookup (own_env g pv) n, Some (own_env g pv))"
  using bsearch_env_ok [OF assms, of n] env_lookup_nth [OF assms]
  by (auto simp: getenv_def Let_def env_lookup_def map_of_eq_None_iff eq_commute [of None] split: option.splits)

lemma env_update:
  assumes "env_sorted arr" "i < length arr"
  shows "env_sorted (arr[i := (fst (arr ! i), v)])"
    and "env_lookup (arr[i := (fst (arr ! i), v)]) = (env_lookup arr)(fst (arr ! i) \<mapsto> v)"
proof -
  have fst: "map fst (arr[i := (fst (arr ! i), v)]) = map fst arr"
    using assms(2) by (simp add: map_update list_update_same_conv)
  show sorted: "env_sorted (arr[i := (fst (arr ! i), v)])" using assms(1) unfolding env_sorted_def fst .
  show "env_lookup (arr[i := (fst (arr ! i), v)]) = (env_lookup arr)(fst (arr ! i) \<mapsto> v)"
  proof
    fix n
    show "env_lookup (arr[i := (fst (arr ! i), v)]) n = ((env_lookup arr)(fst (arr ! i) \<mapsto> v)) n"
    proof (cases "n \<in> set (map fst arr)")
      case False
      then have "n \<noteq> fst (arr ! i)" using assms(2) by (metis length_map nth_map nth_mem)
      moreover have "n \<notin> set (map fst (arr[i := (fst (arr ! i), v)]))" unfolding fst by (rule False)
      ultimately show ?thesis using False by (simp add: env_lookup_def map_of_eq_None_iff [symmetric])
    next
      case True
      then obtain j where j: "j < length arr" "n = fst (arr ! j)" by (auto simp: in_set_conv_nth simp del: set_map)
      from env_lookup_nth [OF sorted, of j] env_lookup_nth [OF assms(1), of j] j assms
        env_sorted_less [OF assms(1), of i j] env_sorted_less [OF assms(1), of j i]
      show ?thesis by (cases i j rule: linorder_cases) auto
    qed
  qed
qed

text \<open>
  C21. The environment variables of the list that \<open>co_set_env_list\<close> set up are private to each
  coroutine: its names are sorted and distinct whatever names were given, the binary search finds
  every one of them, \<open>setenv\<close> changes the value of exactly that name for later calls of
  \<open>getenv\<close> in the same coroutine, \<open>unsetenv\<close> clears it, and a name that is not in the list is
  passed on to the system by all three.\<close>

theorem coroutine_environment:
  assumes "co_set_env_list names None = Some g" and "pv = None \<or> (\<exists>arr. pv = Some arr \<and> env_sorted arr \<and> map fst arr = map fst g)"
  shows "env_sorted g \<and> fst ` set g = {n. Some n \<in> set names \<and> n \<noteq> []} \<and>
    (if n \<in> fst ` set g then
       \<exists>arr. setenv n (Some v) True g pv = (Some 0, Some arr) \<and> env_sorted arr \<and> map fst arr = map fst g \<and>
         (\<forall>m. fst (getenv m g (Some arr)) = (if m = n then Some (Some v) else fst (getenv m g pv))) \<and>
         fst (getenv n g (snd (unsetenv n g (Some arr)))) = Some None
     else fst (setenv n (Some v) True g pv) = None \<and> fst (unsetenv n g pv) = None \<and> fst (getenv n g pv) = None)"
proof -
  have g: "env_sorted g" "fst ` set g = {n. Some n \<in> set names \<and> n \<noteq> []}"
    using co_set_env_list_sorted [of names] assms(1) by auto
  define arr where "arr = own_env g pv"
  have arr: "env_sorted arr" "map fst arr = map fst g" using assms(2) g by (auto simp: arr_def own_env_def)
  then have names_eq: "fst ` set arr = fst ` set g" by (metis list.set_map)
  note bs = bsearch_env_ok [OF arr(1), of n]
  show ?thesis
  proof (cases "n \<in> fst ` set g")
    case False
    then have "bsearch_env n arr 0 (length arr) = None" using bs names_eq by (auto split: option.splits)
    with False g show ?thesis by (simp add: setenv_def unsetenv_def getenv_def arr_def [symmetric] Let_def)
  next
    case True
    then obtain i where i: "bsearch_env n arr 0 (length arr) = Some i" "i < length arr" "fst (arr ! i) = n"
      using bs names_eq by (auto split: option.splits)
    define arr' where "arr' = arr[i := (n, Some v)]"
    note up = env_update [OF arr(1) i(2), unfolded i(3)]
    have set: "setenv n (Some v) True g pv = (Some 0, Some arr')"
      using i by (simp add: setenv_def arr_def [symmetric] Let_def arr'_def)
    have "map fst arr' = map fst arr" using i by (simp add: arr'_def map_update list_update_same_conv)
    then have arr': "env_sorted arr'" "map fst arr' = map fst g" "i < length arr'" "fst (arr' ! i) = n" "snd (arr' ! i) = Some v"
      using up(1) [of "Some v"] arr(2) i by (simp_all add: arr'_def)
    have get: "fst (getenv m g (Some arr')) = (if m = n then Some (Some v) else fst (getenv m g pv))" for m
    proof -
      have "own_env g (Some arr') = arr'" by (simp add: own_env_def)
      with getenv_lookup [of g "Some arr'" m] getenv_lookup [of g pv m] arr'(1) arr(1) up(2) [of "Some v"]
      show ?thesis by (simp add: arr_def [symmetric] arr'_def)
    qed
    from bsearch_env_ok [OF arr'(1), of n] arr'(3,4) obtain j
      where j: "bsearch_env n arr' 0 (length arr') = Some j" "j < length arr'" "fst (arr' ! j) = n"
      by (auto split: option.splits dest: nth_mem)
    have "snd (arr' ! j) \<noteq> None"
      using env_lookup_nth [OF arr'(1) j(2)] env_lookup_nth [OF arr'(1,3)] j(3) arr'(4,5) by simp
    then have unset: "snd (unsetenv n g (Some arr')) = Some (arr'[j := (n, None)])"
      using j by (simp add: unsetenv_def own_env_def Let_def)
    have "fst (getenv n g (Some (arr'[j := (n, None)]))) = Some None"
      using getenv_lookup [of g "Some (arr'[j := (n, None)])" n] env_update [OF arr'(1) j(2), of None] j(3)
      by (simp add: own_env_def)
    with set arr'(1,2) get unset g True show ?thesis by auto
  qed
qed

lemma coroutine_environment_witness:
  "fst (setenv ''PATH'' (Some ''x'') True [(''PATH'', None)] None) = Some 0"
proof -
  have "co_set_env_list [Some ''PATH''] None = Some [(''PATH'', None)]" by (simp add: co_set_env_list_def)
  note env = coroutine_environment [OF this disjI1 [OF refl], of "''PATH''" "''x''", THEN conjunct2, THEN conjunct2]
  have "''PATH'' \<in> fst ` set [(''PATH'', None :: string option)]" by simp
  with env obtain arr where "setenv ''PATH'' (Some ''x'') True [(''PATH'', None)] None = (Some 0, Some arr)"
    by (simp only: if_True) blast
  then show ?thesis by simp
qed

text \<open>
  The host lookup ends as soon as a buffer of the doubled sizes is large enough, and returns what the
  last call found.
\<close>

lemma gethost_loop_returns:
  "(\<And>j. j < k \<Longrightarrow> fst (lookup (sz * 2 ^ j))) \<Longrightarrow> \<not> fst (lookup (sz * 2 ^ k)) \<Longrightarrow>
   gethost_loop lookup sz = Some (snd (lookup (sz * 2 ^ k)), sz * 2 ^ k)"
proof (induction k arbitrary: sz)
  case 0
  then show ?case by (subst gethost_loop.simps) simp
next
  case (Suc k)
  have "fst (lookup sz)" using Suc.prems(1) [of 0] by simp
  moreover have "gethost_loop lookup (sz * 2) = Some (snd (lookup (sz * 2 * 2 ^ k)), sz * 2 * 2 ^ k)"
    using Suc.prems(1) [of "Suc j" for j] Suc.prems(2) by (intro Suc.IH) (simp_all add: mult.assoc)
  ultimately show ?case by (subst gethost_loop.simps) (simp add: mult.assoc)
qed

end
